(* ===== verification/Prelude.thy ===== *)
theory Prelude
  imports Main "HOL-Library.Word"
begin

text \<open>
  Shared vocabulary of the development: the C integer types, the ways a kernel
  function can fail to return (\<open>stop\<close>), the error-and-state sequencing operator
  \<open>kbind\<close>, little-endian byte encodings of machine words, and the generic lemmas on
  lists and words that the component theories use.
\<close>

unbundle bit_operations_syntax

section \<open>C integer types (types.h)\<close>

type_synonym byte = "8 word"
type_synonym u16 = "16 word"
type_synonym u32 = "32 word"
type_synonym u64 = "64 word"

section \<open>Ways not to return\<close>

text \<open>
  Sleep channels are the addresses of kernel objects; distinct objects have distinct
  addresses, so a channel is a constructor applied to the object's index.
\<close>

datatype chan =
    Ch_proc nat        \<comment> \<open>a \<open>struct proc\<close> (wait)\<close>
  | Ch_ticks           \<comment> \<open>\<open>&ticks\<close>\<close>
  | Ch_log             \<comment> \<open>\<open>&log\<close>\<close>
  | Ch_buf nat         \<comment> \<open>the sleep-lock of a buffer\<close>
  | Ch_inode nat       \<comment> \<open>the sleep-lock of an in-memory inode\<close>
  | Ch_pipe_nread u64  \<comment> \<open>\<open>&pi->nread\<close>\<close>
  | Ch_pipe_nwrite u64 \<comment> \<open>\<open>&pi->nwrite\<close>\<close>
  | Ch_cons_r          \<comment> \<open>\<open>&cons.r\<close>\<close>
  | Ch_uart_tx_r       \<comment> \<open>\<open>&uart_tx_r\<close>\<close>

text \<open>
  A kernel function returns, or panics, or goes to sleep before it is done (then it
  only continues after another thread has run), or spins forever. \<open>Undef\<close> marks an access
  the C language leaves undefined: outside an array or through a null pointer.
\<close>

datatype stop = Panic string | Sleep chan | Diverge | Undef

type_synonym 'a res = "stop + 'a"

definition kbind :: "'a res \<Rightarrow> ('a \<Rightarrow> 'b res) \<Rightarrow> 'b res" where
  "kbind m f = (case m of Inl e \<Rightarrow> Inl e | Inr x \<Rightarrow> f x)"

lemma kbind_Inl [simp]: "kbind (Inl e) f = Inl e"
  by (simp add: kbind_def)

lemma kbind_Inr [simp]: "kbind (Inr x) f = f x"
  by (simp add: kbind_def)

lemma kbind_eq_Inr: "kbind m f = Inr y \<longleftrightarrow> (\<exists>x. m = Inr x \<and> f x = Inr y)"
  by (cases m) auto

lemma kbind_eq_Inl:
  "kbind m f = Inl e \<longleftrightarrow> m = Inl e \<or> (\<exists>x. m = Inr x \<and> f x = Inl e)"
  by (cases m) auto

lemma kbind_InrE [elim]:
  assumes "kbind m f = Inr y"
  obtains x where "m = Inr x" "f x = Inr y"
  using assms by (auto simp: kbind_eq_Inr)

lemma kbind_assoc: "kbind (kbind m f) g = kbind m (\<lambda>x. kbind (f x) g)"
  by (cases m) auto

lemma kbind_cong [fundef_cong]:
  "m = m' \<Longrightarrow> (\<And>x. m' = Inr x \<Longrightarrow> f x = g x) \<Longrightarrow> kbind m f = kbind m' g"
  by (cases m') auto

text \<open>A counted loop whose body may stop.\<close>

fun kfor :: "('i \<Rightarrow> 's \<Rightarrow> 's res) \<Rightarrow> 'i list \<Rightarrow> 's \<Rightarrow> 's res" where
  "kfor body [] s = Inr s"
| "kfor body (i # is) s = kbind (body i s) (kfor body is)"

lemma kfor_append: "kfor body (xs @ ys) s = kbind (kfor body xs s) (kfor body ys)"
proof (induction xs arbitrary: s)
  case (Cons a xs)
  then have "kfor body (xs @ ys) = (\<lambda>s. kbind (kfor body xs s) (kfor body ys))" by auto
  then show ?case by (simp add: kbind_assoc)
qed simp

section \<open>Little-endian encodings\<close>

definition word_bytes :: "nat \<Rightarrow> 'a::len word \<Rightarrow> byte list" where
  "word_bytes n w = map (\<lambda>i. ucast (drop_bit (8 * i) w)) [0..<n]"

fun bytes_word :: "byte list \<Rightarrow> 'a::len word" where
  "bytes_word [] = 0"
| "bytes_word (b # bs) = ucast b OR push_bit 8 (bytes_word bs)"

lemma length_word_bytes [simp]: "length (word_bytes n w) = n"
  by (simp add: word_bytes_def)

lemma nth_word_bytes: "i < n \<Longrightarrow> word_bytes n w ! i = ucast (drop_bit (8 * i) w)"
  by (simp add: word_bytes_def)

lemma bit_bytes_word:
  "bit (bytes_word bs :: 'a::len word) k \<longleftrightarrow>
     k < LENGTH('a) \<and> k div 8 < length bs \<and> bit (bs ! (k div 8)) (k mod 8)"
proof (induction bs arbitrary: k)
  case Nil
  then show ?case by simp
next
  case (Cons b bs)
  show ?case
  proof (cases "k < 8")
    case True
    then show ?thesis by (auto simp: bit_simps)
  next
    case False
    then obtain j where j: "k = j + 8" by (metis le_add_diff_inverse2 not_le)
    have d: "(j + 8) div 8 = Suc (j div 8)" by simp
    have nb: "\<not> bit b (j + 8)" by (auto dest: bit_imp_le_length)
    show ?thesis
      using Cons.IH [of j] by (auto simp: bit_simps j d nb simp del: div_add_self2)
  qed
qed

lemma bytes_word_word_bytes:
  "LENGTH('a) = 8 * n \<Longrightarrow> bytes_word (word_bytes n w) = (w :: 'a::len word)"
  by (rule bit_word_eqI)
    (auto simp: bit_bytes_word word_bytes_def bit_simps less_mult_imp_div_less)

lemma word_bytes_bytes_word:
  assumes "LENGTH('a) = 8 * length bs"
  shows "word_bytes (length bs) (bytes_word bs :: 'a::len word) = bs"
proof (rule nth_equalityI)
  fix i
  assume "i < length (word_bytes (length bs) (bytes_word bs :: 'a word))"
  then have i: "i < length bs" by simp
  show "word_bytes (length bs) (bytes_word bs :: 'a word) ! i = bs ! i"
  proof (rule bit_word_eqI)
    fix k
    assume "k < LENGTH(8)"
    then have k: "k < 8" by simp
    then have "(8 * i + k) div 8 = i" "(8 * i + k) mod 8 = k" by simp_all
    with i k assms show "bit (word_bytes (length bs) (bytes_word bs :: 'a word) ! i) k = bit (bs ! i) k"
      by (auto simp: nth_word_bytes bit_simps bit_bytes_word)
  qed
qed simp

lemma bytes_word_u16 [simp]: "bytes_word (word_bytes 2 w) = (w :: u16)"
  by (rule bytes_word_word_bytes) simp

lemma bytes_word_u32 [simp]: "bytes_word (word_bytes 4 w) = (w :: u32)"
  by (rule bytes_word_word_bytes) simp

lemma bytes_word_u64 [simp]: "bytes_word (word_bytes 8 w) = (w :: u64)"
  by (rule bytes_word_word_bytes) simp

section \<open>List splices\<close>

text \<open>\<open>splice off new xs\<close> overwrites \<open>length new\<close> elements of \<open>xs\<close> at offset \<open>off\<close>:
  the effect of a \<open>memmove\<close> or a field assignment inside a buffer.\<close>

definition splice_at :: "nat \<Rightarrow> 'a list \<Rightarrow> 'a list \<Rightarrow> 'a list" where
  "splice_at off new xs = take off xs @ new @ drop (off + length new) xs"

definition slice :: "nat \<Rightarrow> nat \<Rightarrow> 'a list \<Rightarrow> 'a list" where
  "slice off n xs = take n (drop off xs)"

lemma length_splice_at [simp]:
  "off + length new \<le> length xs \<Longrightarrow> length (splice_at off new xs) = length xs"
  by (simp add: splice_at_def)

lemma length_slice [simp]: "off + n \<le> length xs \<Longrightarrow> length (slice off n xs) = n"
  by (simp add: slice_def)

lemma slice_splice_same [simp]:
  "off + length new \<le> length xs \<Longrightarrow> n = length new \<Longrightarrow> slice off n (splice_at off new xs) = new"
  by (simp add: splice_at_def slice_def)

lemma nth_splice_at:
  "off + length new \<le> length xs \<Longrightarrow> i < length xs \<Longrightarrow>
     splice_at off new xs ! i =
       (if off \<le> i \<and> i < off + length new then new ! (i - off) else xs ! i)"
  by (auto simp: splice_at_def nth_append)

lemma nth_slice: "off + n \<le> length xs \<Longrightarrow> i < n \<Longrightarrow> slice off n xs ! i = xs ! (off + i)"
  by (simp add: slice_def)

lemma slice_splice_disjoint:
  assumes "off + length new \<le> length xs" "off' + n \<le> length xs"
    and "off + length new \<le> off' \<or> off' + n \<le> off"
  shows "slice off' n (splice_at off new xs) = slice off' n xs"
  using assms by (intro nth_equalityI) (auto simp: nth_slice nth_splice_at)

lemma splice_at_slice_id: "off + n \<le> length xs \<Longrightarrow> splice_at off (slice off n xs) xs = xs"
  by (intro nth_equalityI) (auto simp: nth_splice_at nth_slice)

end
