(* ===== verification/Memory.thy ===== *)
theory Memory
  imports Prelude
begin

text \<open>
  Physical memory as a function from 64-bit addresses to bytes, with byte-run and
  64-bit little-endian accessors, and the address macros of \<open>loongarch.h\<close> and
  \<open>memlayout.h\<close>: page rounding, page-table-entry fields, and the RAM window the page
  allocator manages. The lemmas turn the bit-level macros into arithmetic and say when
  two accesses do not interfere.
\<close>

section \<open>Byte-addressed memory\<close>

lemma unat_of_nat_eq: "i < 2 ^ LENGTH('a) \<Longrightarrow> unat (of_nat i :: 'a::len word) = i"
  by (simp add: unat_of_nat)

type_synonym mem = "u64 \<Rightarrow> byte"

definition load_bytes :: "mem \<Rightarrow> u64 \<Rightarrow> nat \<Rightarrow> byte list" where
  "load_bytes m a n = map (\<lambda>i. m (a + of_nat i)) [0..<n]"

definition store_bytes :: "mem \<Rightarrow> u64 \<Rightarrow> byte list \<Rightarrow> mem" where
  "store_bytes m a bs = (\<lambda>x. if unat (x - a) < length bs then bs ! unat (x - a) else m x)"

definition load64 :: "mem \<Rightarrow> u64 \<Rightarrow> u64" where
  "load64 m a = bytes_word (load_bytes m a 8)"

definition store64 :: "mem \<Rightarrow> u64 \<Rightarrow> u64 \<Rightarrow> mem" where
  "store64 m a v = store_bytes m a (word_bytes 8 v)"

lemma length_load_bytes [simp]: "length (load_bytes m a n) = n"
  by (simp add: load_bytes_def)

lemma nth_load_bytes [simp]: "i < n \<Longrightarrow> load_bytes m a n ! i = m (a + of_nat i)"
  by (simp add: load_bytes_def)

lemma store_bytes_Nil [simp]: "store_bytes m a [] = m"
  by (simp add: store_bytes_def)

lemma load_bytes_cong: "(\<And>i. i < n \<Longrightarrow> m (a + of_nat i) = m' (a + of_nat i)) \<Longrightarrow>
  load_bytes m a n = load_bytes m' a n"
  by (simp add: load_bytes_def)

lemma load_store_bytes_same:
  "length bs \<le> 2 ^ 64 \<Longrightarrow> load_bytes (store_bytes m a bs) a (length bs) = bs"
  by (rule nth_equalityI) (auto simp: store_bytes_def unat_of_nat_eq)

lemma store_bytes_outside: "length bs \<le> unat (x - a) \<Longrightarrow> store_bytes m a bs x = m x"
  by (simp add: store_bytes_def)

lemma load64_store64_same [simp]: "load64 (store64 m a v) a = v"
  using load_store_bytes_same [of "word_bytes 8 v" m a]
  by (simp add: load64_def store64_def)

section \<open>Page arithmetic (loongarch.h)\<close>

definition PGSIZE :: "'a::numeral" where
  "PGSIZE = 4096"

definition PGROUNDUP :: "u64 \<Rightarrow> u64" where
  "PGROUNDUP sz = (sz + PGSIZE - 1) AND NOT (PGSIZE - 1)"

definition PGROUNDDOWN :: "u64 \<Rightarrow> u64" where
  "PGROUNDDOWN a = a AND NOT (PGSIZE - 1)"

lemma not_mask12: "(- 4096 :: u64) = NOT (mask 12)"
  by (simp add: mask_eq_exp_minus_1)

lemma and_minus_4096: "(a :: u64) AND - 4096 = push_bit 12 (drop_bit 12 a)"
  unfolding not_mask12 by (auto intro!: bit_word_eqI simp: bit_simps)

lemma unat_and_minus_4096: "unat ((a :: u64) AND - 4096) = unat a div 4096 * 4096"
proof -
  have "unat a div 4096 * 4096 \<le> unat a" by simp
  also have "unat a < 2 ^ LENGTH(64)" by (rule unsigned_less)
  finally have lt: "unat a div 4096 * 4096 < 2 ^ LENGTH(64)" .
  have "unat (push_bit 12 (drop_bit 12 a)) = take_bit LENGTH(64) (push_bit 12 (drop_bit 12 (unat a)))"
    by (simp only: unsigned_push_bit_eq unsigned_drop_bit_eq
        take_bit_nat_eq_self [OF unsigned_less [of a]])
  also have "push_bit 12 (drop_bit 12 (unat a)) = unat a div 4096 * 4096"
    by (simp add: push_bit_eq_mult drop_bit_eq_div)
  finally show ?thesis
    using lt by (simp only: and_minus_4096 take_bit_nat_eq_self)
qed

lemma unat_PGROUNDDOWN: "unat (PGROUNDDOWN a) = unat a div 4096 * 4096"
  by (simp add: PGROUNDDOWN_def PGSIZE_def unat_and_minus_4096)

lemma unat_PGROUNDUP:
  "unat a + 4095 < 2 ^ 64 \<Longrightarrow> unat (PGROUNDUP a) = (unat a + 4095) div 4096 * 4096"
  by (simp add: PGROUNDUP_def PGSIZE_def unat_and_minus_4096 unat_word_ariths)

definition page_aligned :: "u64 \<Rightarrow> bool" where
  "page_aligned a \<longleftrightarrow> unat a mod 4096 = 0"

lemma page_aligned_PGROUNDDOWN [simp]: "page_aligned (PGROUNDDOWN a)"
  by (simp add: page_aligned_def unat_PGROUNDDOWN)

lemma PGROUNDDOWN_aligned: "page_aligned a \<Longrightarrow> PGROUNDDOWN a = a"
  by (auto simp: page_aligned_def unat_PGROUNDDOWN intro!: word_unat_eq_iff [THEN iffD2])

lemma mod_4096_aligned: "a mod (4096 :: u64) = 0 \<longleftrightarrow> page_aligned a"
  by (simp add: page_aligned_def word_unat_eq_iff unat_mod)

text \<open>An address inside an aligned page rounds down to that page.\<close>

lemma page_plus_no_wrap:
  assumes "page_aligned p" "i < 4096"
  shows "unat (p + of_nat i) = unat p + i"
proof -
  from assms(1) obtain k where k: "unat p = 4096 * k"
    unfolding page_aligned_def by (metis mod_0_imp_dvd dvdE)
  have "unat p < 18446744073709551616" using unsigned_less [of p] by simp
  then have "k < 4503599627370496" by (simp add: k)
  with assms(2) have lt: "unat p + i < 2 ^ LENGTH(64)" by (simp add: k)
  with assms(2) have "unat (of_nat i :: u64) = i"
    by (intro unat_of_nat_eq) simp
  with lt show ?thesis
    by (simp only: unat_word_ariths mod_less)
qed

lemma PGROUNDDOWN_page_plus:
  assumes "page_aligned p" "i < 4096"
  shows "PGROUNDDOWN (p + of_nat i) = p"
proof -
  from assms(1) obtain k where k: "unat p = 4096 * k"
    unfolding page_aligned_def by (metis mod_0_imp_dvd dvdE)
  have "unat (PGROUNDDOWN (p + of_nat i)) = unat p"
    unfolding unat_PGROUNDDOWN page_plus_no_wrap [OF assms] k using assms(2) by simp
  then show ?thesis by (simp only: word_unat_eq_iff)
qed

lemma page_plus_neq:
  assumes "page_aligned p" "page_aligned q" "p \<noteq> q" "i < 4096" "j < 4096"
  shows "p + of_nat i \<noteq> q + of_nat j"
proof
  assume "p + of_nat i = q + of_nat j"
  then have "PGROUNDDOWN (p + of_nat i) = PGROUNDDOWN (q + of_nat j)" by (rule arg_cong)
  with assms show False by (simp only: PGROUNDDOWN_page_plus)
qed

lemma page_offset:
  assumes "page_aligned p"
  shows "unat (x - p) < 4096 \<longleftrightarrow> PGROUNDDOWN x = p"
proof
  assume "unat (x - p) < 4096"
  with assms have "PGROUNDDOWN (p + of_nat (unat (x - p))) = p"
    by (rule PGROUNDDOWN_page_plus)
  then show "PGROUNDDOWN x = p" by simp
next
  assume p: "PGROUNDDOWN x = p"
  then have "unat p = unat x div 4096 * 4096" by (metis unat_PGROUNDDOWN)
  then have x: "unat x = unat p + unat x mod 4096" by simp
  then have "unat p \<le> unat x" by linarith
  then have "unat (x - p) = unat x - unat p" by (simp add: unat_sub word_le_nat_alt)
  also have "\<dots> = unat x mod 4096" using x by linarith
  finally show "unat (x - p) < 4096" by simp
qed

section \<open>Accesses inside pages\<close>

text \<open>\<open>same_page m m' p\<close>: the two memories agree on the page at \<open>p\<close>.\<close>

definition same_page :: "mem \<Rightarrow> mem \<Rightarrow> u64 \<Rightarrow> bool" where
  "same_page m m' p \<longleftrightarrow> (\<forall>i<4096. m' (p + of_nat i) = m (p + of_nat i))"

lemma same_page_refl [simp]: "same_page m m p"
  by (simp add: same_page_def)

lemma same_page_trans: "same_page m m' p \<Longrightarrow> same_page m' m'' p \<Longrightarrow> same_page m m'' p"
  by (simp add: same_page_def)

lemma load_bytes_same_page:
  assumes "same_page m m' p" "off + n \<le> 4096"
  shows "load_bytes m' (p + of_nat off) n = load_bytes m (p + of_nat off) n"
proof (rule load_bytes_cong)
  fix i
  assume "i < n"
  with assms(2) have "off + i < 4096" by simp
  with assms(1) have "m' (p + of_nat (off + i)) = m (p + of_nat (off + i))"
    unfolding same_page_def by blast
  then show "m' (p + of_nat off + of_nat i) = m (p + of_nat off + of_nat i)"
    by (simp add: add.assoc)
qed

lemma load64_same_page:
  "same_page m m' p \<Longrightarrow> off + 8 \<le> 4096 \<Longrightarrow> load64 m' (p + of_nat off) = load64 m (p + of_nat off)"
  by (simp add: load64_def load_bytes_same_page)

lemma store_bytes_other_page:
  assumes "page_aligned p" "page_aligned q" "p \<noteq> q" "off + length bs \<le> 4096"
  shows "same_page m (store_bytes m (q + of_nat off) bs) p"
  unfolding same_page_def
proof (intro allI impI)
  fix i :: nat
  assume i: "i < 4096"
  have "length bs \<le> unat (p + of_nat i - (q + of_nat off))"
  proof (rule ccontr)
    define k where "k = unat (p + of_nat i - (q + of_nat off))"
    assume "\<not> length bs \<le> unat (p + of_nat i - (q + of_nat off))"
    then have "k < length bs" by (simp add: k_def)
    moreover have "p + of_nat i = q + of_nat (off + k)"
      by (simp add: k_def)
    ultimately show False
      using page_plus_neq [OF assms(1,2,3) i, of "off + k"] assms(4) by auto
  qed
  then show "store_bytes m (q + of_nat off) bs (p + of_nat i) = m (p + of_nat i)"
    by (rule store_bytes_outside)
qed

lemma store64_other_page:
  "page_aligned p \<Longrightarrow> page_aligned q \<Longrightarrow> p \<noteq> q \<Longrightarrow> off + 8 \<le> 4096 \<Longrightarrow>
     same_page m (store64 m (q + of_nat off) v) p"
  by (simp add: store64_def store_bytes_other_page)

lemma load64_store64_same_page_other:
  assumes "page_aligned p" "off + 8 \<le> 4096" "off' + 8 \<le> 4096" "off + 8 \<le> off' \<or> off' + 8 \<le> off"
  shows "load64 (store64 m (p + of_nat off) v) (p + of_nat off') = load64 m (p + of_nat off')"
proof -
  have "load_bytes (store_bytes m (p + of_nat off) (word_bytes 8 v)) (p + of_nat off') 8
      = load_bytes m (p + of_nat off') 8"
  proof (rule load_bytes_cong, rule store_bytes_outside)
    fix i :: nat
    assume i: "i < 8"
    have a: "unat (p + of_nat off' + of_nat i) = unat p + off' + i"
      using page_plus_no_wrap [OF assms(1), of "off' + i"] i assms(3) by (simp add: add.assoc)
    have b: "unat (p + of_nat off) = unat p + off"
      using page_plus_no_wrap [OF assms(1), of off] assms(2) by simp
    show "length (word_bytes 8 v) \<le> unat (p + of_nat off' + of_nat i - (p + of_nat off))"
    proof (cases "off + 8 \<le> off'")
      case True
      then have "p + of_nat off \<le> p + of_nat off' + of_nat i"
        by (simp only: word_le_nat_alt a b)
      from unat_sub [OF this] a b True show ?thesis by simp
    next
      case False
      with assms(4) have le: "off' + 8 \<le> off" by simp
      define x where "x = p + of_nat off' + of_nat i"
      define y where "y = p + of_nat off"
      have ux: "unat x = unat p + off' + i" and uy: "unat y = unat p + off"
        using a b by (simp_all only: x_def y_def)
      from ux uy i le assms(2) have lt: "unat x < unat y" and d: "unat y - unat x \<le> 4096"
        by simp_all
      have "unat (x - y) = unat x + 2 ^ LENGTH(64) - unat y"
        using lt by (simp only: unat_sub_if_size word_size) simp
      with d have "8 \<le> unat (x - y)" by simp
      then show ?thesis by (simp only: x_def y_def length_word_bytes)
    qed
  qed
  then show ?thesis by (simp add: load64_def store64_def)
qed

end
