(* ===== verification/KString.thy ===== *)
theory KString
  imports Memory
begin

text \<open>
  \<open>kernel/string.c\<close>. \<open>memset\<close>, \<open>memmove\<close> and \<open>memcpy\<close> work on memory by address, since
  overlap matters there; the comparison and string routines read through a C pointer,
  modelled as the function from offsets to bytes. The theorems: \<open>memmove\<close> is a
  simultaneous copy whatever the overlap, \<open>strncmp\<close> decides equality of bounded strings,
  \<open>strncpy\<close> pads with NUL bytes and \<open>safestrcpy\<close> always terminates its result.
\<close>

type_synonym cptr = "nat \<Rightarrow> byte"

section \<open>Definitions\<close>

fun memset :: "u64 \<Rightarrow> byte \<Rightarrow> nat \<Rightarrow> mem \<Rightarrow> mem" where
  "memset dst c 0 m = m"
| "memset dst c (Suc n) m = memset (dst + 1) c n (m(dst := c))"

fun memcmp :: "cptr \<Rightarrow> cptr \<Rightarrow> nat \<Rightarrow> int" where
  "memcmp s1 s2 0 = 0"
| "memcmp s1 s2 (Suc n) =
     (if s1 0 \<noteq> s2 0 then uint (s1 0) - uint (s2 0)
      else memcmp (\<lambda>i. s1 (Suc i)) (\<lambda>i. s2 (Suc i)) n)"

text \<open>The two copying loops of \<open>memmove\<close>: \<open>*d++ = *s++\<close> and \<open>*--d = *--s\<close>.\<close>

fun copy_fwd :: "u64 \<Rightarrow> u64 \<Rightarrow> nat \<Rightarrow> mem \<Rightarrow> mem" where
  "copy_fwd d s 0 m = m"
| "copy_fwd d s (Suc n) m = copy_fwd (d + 1) (s + 1) n (m(d := m s))"

fun copy_bwd :: "u64 \<Rightarrow> u64 \<Rightarrow> nat \<Rightarrow> mem \<Rightarrow> mem" where
  "copy_bwd d s 0 m = m"
| "copy_bwd d s (Suc n) m = copy_bwd (d - 1) (s - 1) n (m(d - 1 := m (s - 1)))"

definition memmove :: "u64 \<Rightarrow> u64 \<Rightarrow> nat \<Rightarrow> mem \<Rightarrow> mem" where
  "memmove dst src n m =
     (if n = 0 then m
      else if src < dst \<and> src + of_nat n > dst
      then copy_bwd (dst + of_nat n) (src + of_nat n) n m
      else copy_fwd dst src n m)"

definition memcpy :: "u64 \<Rightarrow> u64 \<Rightarrow> nat \<Rightarrow> mem \<Rightarrow> mem" where
  "memcpy dst src n m = memmove dst src n m"

fun strncmp :: "cptr \<Rightarrow> cptr \<Rightarrow> nat \<Rightarrow> int" where
  "strncmp p q 0 = 0"
| "strncmp p q (Suc n) =
     (if p 0 \<noteq> 0 \<and> p 0 = q 0 then strncmp (\<lambda>i. p (Suc i)) (\<lambda>i. q (Suc i)) n
      else uint (p 0) - uint (q 0))"

text \<open>The second loop of \<open>strncpy\<close>: NUL bytes up to the count.\<close>

fun zero_fill :: "nat \<Rightarrow> cptr \<Rightarrow> nat \<Rightarrow> cptr" where
  "zero_fill i s 0 = s"
| "zero_fill i s (Suc n) = zero_fill (Suc i) (s(i := 0)) n"

fun strncpy_at :: "nat \<Rightarrow> cptr \<Rightarrow> cptr \<Rightarrow> nat \<Rightarrow> cptr" where
  "strncpy_at i s t 0 = s"
| "strncpy_at i s t (Suc n) =
     (let s' = s(i := t i) in
      if t i \<noteq> 0 then strncpy_at (Suc i) s' t n else zero_fill (Suc i) s' n)"

definition strncpy :: "cptr \<Rightarrow> cptr \<Rightarrow> int \<Rightarrow> cptr" where
  "strncpy s t n = strncpy_at 0 s t (nat n)"

fun safestrcpy_at :: "nat \<Rightarrow> cptr \<Rightarrow> cptr \<Rightarrow> nat \<Rightarrow> cptr" where
  "safestrcpy_at i s t 0 = s(i := 0)"
| "safestrcpy_at i s t (Suc n) =
     (let s' = s(i := t i) in
      if t i \<noteq> 0 then safestrcpy_at (Suc i) s' t n else s'(Suc i := 0))"

definition safestrcpy :: "cptr \<Rightarrow> cptr \<Rightarrow> int \<Rightarrow> cptr" where
  "safestrcpy s t n = (if n \<le> 0 then s else safestrcpy_at 0 s t (nat (n - 1)))"

text \<open>\<open>strlen\<close> counts until a NUL byte; on a string without one it does not return.\<close>

partial_function (option) strlen_from :: "cptr \<Rightarrow> nat \<Rightarrow> nat option" where
  "strlen_from s n = (if s n = 0 then Some n else strlen_from s (Suc n))"

definition strlen :: "cptr \<Rightarrow> nat option" where
  "strlen s = strlen_from s 0"

section \<open>memset and memmove\<close>

lemma load_bytes_snoc: "load_bytes m a (Suc n) = load_bytes m a n @ [m (a + of_nat n)]"
  by (simp add: load_bytes_def)

lemma store_bytes_snoc:
  assumes "length bs < 2 ^ 64"
  shows "(store_bytes m d bs)(d + of_nat (length bs) := b) = store_bytes m d (bs @ [b])"
proof
  fix x
  show "((store_bytes m d bs)(d + of_nat (length bs) := b)) x = store_bytes m d (bs @ [b]) x"
  proof (cases "x = d + of_nat (length bs)")
    case True
    with assms have "unat (x - d) = length bs" by (simp add: unat_of_nat_eq)
    with True show ?thesis by (simp add: store_bytes_def)
  next
    case False
    have "x = d + of_nat (unat (x - d))" by simp
    with False have "unat (x - d) \<noteq> length bs" by metis
    with False show ?thesis by (auto simp: store_bytes_def nth_append)
  qed
qed

lemma store_bytes_upd_end:
  assumes "length bs < 2 ^ 64"
  shows "store_bytes (m(d + of_nat (length bs) := b)) d bs = store_bytes m d (bs @ [b])"
proof -
  have "store_bytes (m(d + of_nat (length bs) := b)) d bs
      = (store_bytes m d bs)(d + of_nat (length bs) := b)"
    using assms by (auto simp: store_bytes_def fun_eq_iff unat_of_nat_eq)
  then show ?thesis using store_bytes_snoc [OF assms] by simp
qed

lemma memset_snoc: "memset d c (Suc n) m = (memset d c n m)(d + of_nat n := c)"
proof (induction n arbitrary: d m)
  case 0
  then show ?case by simp
next
  case (Suc n)
  have "memset d c (Suc (Suc n)) m = memset (d + 1) c (Suc n) (m(d := c))" by simp
  also have "\<dots> = (memset (d + 1) c n (m(d := c)))(d + 1 + of_nat n := c)" by (rule Suc.IH)
  finally show ?case by (simp add: add.assoc)
qed

lemma memset_eq_store: "n \<le> 2 ^ 64 \<Longrightarrow> memset d c n m = store_bytes m d (replicate n c)"
proof (induction n)
  case 0
  then show ?case by simp
next
  case (Suc n)
  then have "memset d c n m = store_bytes m d (replicate n c)" by simp
  then show ?case
    using store_bytes_snoc [of "replicate n c" m d c] Suc.prems
    by (simp add: memset_snoc replicate_append_same del: memset.simps)
qed

lemma copy_fwd_snoc:
  "copy_fwd d s (Suc n) m = (copy_fwd d s n m)(d + of_nat n := copy_fwd d s n m (s + of_nat n))"
proof (induction n arbitrary: d s m)
  case 0
  then show ?case by simp
next
  case (Suc n)
  let ?m = "m(d := m s)"
  have "copy_fwd d s (Suc (Suc n)) m = copy_fwd (d + 1) (s + 1) (Suc n) ?m" by simp
  also have "\<dots> = (copy_fwd (d + 1) (s + 1) n ?m)
      (d + 1 + of_nat n := copy_fwd (d + 1) (s + 1) n ?m (s + 1 + of_nat n))"
    by (rule Suc.IH)
  finally show ?case by (simp add: add.assoc)
qed

text \<open>Offsets inside a run that does not wrap around.\<close>

lemma unat_run: "unat (a::u64) + n < 2 ^ 64 \<Longrightarrow> i \<le> n \<Longrightarrow> unat (a + of_nat i) = unat a + i"
  by (simp add: unat_word_ariths unat_of_nat_eq)

lemma run_outside_above:
  assumes "unat d + k \<le> unat (x::u64)"
  shows "k \<le> unat (x - d)"
proof -
  from assms have "unat (x - d) = unat x - unat d" by (simp add: unat_sub word_le_nat_alt)
  with assms show ?thesis by simp
qed

lemma run_outside_below:
  assumes "unat (x::u64) < unat d" "unat d + k < 2 ^ 64"
  shows "k \<le> unat (x - d)"
proof -
  have "unat (x - d) = unat x + 2 ^ LENGTH(64) - unat d"
    using assms(1) by (simp only: unat_sub_if_size word_size) simp
  with assms show ?thesis by simp
qed

lemma copy_fwd_eq:
  assumes "unat s + n < 2 ^ 64" "unat d + n < 2 ^ 64" "d \<le> s \<or> s + of_nat n \<le> d"
  shows "copy_fwd d s n m = store_bytes m d (load_bytes m s n)"
  using assms
proof (induction n)
  case 0
  then show ?case by (simp add: load_bytes_def)
next
  case (Suc n)
  have sn: "unat (s + of_nat n) = unat s + n" "unat (s + of_nat (Suc n)) = unat s + Suc n"
    using Suc.prems(1) by (simp_all only: unat_run)
  have ord: "unat d \<le> unat s \<or> unat s + Suc n \<le> unat d"
    using Suc.prems(3) by (simp only: word_le_nat_alt sn)
  have IH: "copy_fwd d s n m = store_bytes m d (load_bytes m s n)"
  proof (rule Suc.IH)
    show "unat s + n < 2 ^ 64" "unat d + n < 2 ^ 64" using Suc.prems by linarith+
    show "d \<le> s \<or> s + of_nat n \<le> d" using ord unfolding word_le_nat_alt sn by linarith
  qed
  have "n \<le> unat (s + of_nat n - d)"
  proof (cases "unat d \<le> unat s")
    case True
    then show ?thesis by (intro run_outside_above) (simp only: sn)
  next
    case False
    with ord have "unat (s + of_nat n) < unat d" unfolding sn by linarith
    moreover from Suc.prems(2) have "unat d + n < 2 ^ 64" by linarith
    ultimately show ?thesis by (rule run_outside_below)
  qed
  then have "copy_fwd d s n m (s + of_nat n) = m (s + of_nat n)"
    unfolding IH by (intro store_bytes_outside) simp
  moreover have "(store_bytes m d (load_bytes m s n))(d + of_nat n := m (s + of_nat n))
      = store_bytes m d (load_bytes m s (Suc n))"
    using store_bytes_snoc [of "load_bytes m s n" m d "m (s + of_nat n)"] Suc.prems(1)
    by (simp add: load_bytes_snoc)
  ultimately show ?case by (simp only: copy_fwd_snoc IH)
qed

lemma copy_bwd_eq:
  assumes "unat s + n < 2 ^ 64" "unat d + n < 2 ^ 64" "s < d"
  shows "copy_bwd (d + of_nat n) (s + of_nat n) n m = store_bytes m d (load_bytes m s n)"
  using assms(1,2)
proof (induction n arbitrary: m)
  case 0
  then show ?case by (simp add: load_bytes_def)
next
  case (Suc n)
  let ?b = "m (s + of_nat n)"
  let ?m = "m(d + of_nat n := ?b)"
  have dn: "unat (d + of_nat n) = unat d + n" using Suc.prems(2) by (simp only: unat_run)
  have "copy_bwd (d + of_nat (Suc n)) (s + of_nat (Suc n)) (Suc n) m
      = copy_bwd (d + of_nat n) (s + of_nat n) n ?m"
    by (simp add: algebra_simps)
  also have "\<dots> = store_bytes ?m d (load_bytes ?m s n)"
    using Suc.prems by (intro Suc.IH) simp_all
  also have "load_bytes ?m s n = load_bytes m s n"
  proof (rule load_bytes_cong)
    fix i
    assume i: "i < n"
    then have "unat (s + of_nat i) = unat s + i" using Suc.prems(1) by (intro unat_run [of s n]) simp_all
    with i dn assms(3) have "s + of_nat i \<noteq> d + of_nat n"
      by (auto simp only: word_less_nat_alt word_unat_eq_iff)
    then show "?m (s + of_nat i) = m (s + of_nat i)" by simp
  qed
  also have "store_bytes ?m d (load_bytes m s n) = store_bytes m d (load_bytes m s (Suc n))"
    using store_bytes_upd_end [of "load_bytes m s n" m d ?b] Suc.prems(1)
    by (simp add: load_bytes_snoc)
  finally show ?case .
qed

lemma memmove_eq_store:
  assumes "unat src + n < 2 ^ 64" "unat dst + n < 2 ^ 64"
  shows "memmove dst src n m = store_bytes m dst (load_bytes m src n)"
proof -
  consider "n = 0" | "n \<noteq> 0" "src < dst \<and> src + of_nat n > dst"
    | "n \<noteq> 0" "dst \<le> src \<or> src + of_nat n \<le> dst"
    using not_less by blast
  then show ?thesis
  proof cases
    case 1
    then show ?thesis by (simp add: memmove_def load_bytes_def)
  next
    case 2
    then show ?thesis using copy_bwd_eq [OF assms] by (simp add: memmove_def)
  next
    case 3
    then have "\<not> (src < dst \<and> src + of_nat n > dst)" using not_less by blast
    with 3 have "memmove dst src n m = copy_fwd dst src n m" unfolding memmove_def by argo
    then show ?thesis using copy_fwd_eq [OF assms 3(2)] by simp
  qed
qed

section \<open>Bounded strings\<close>

text \<open>The C string of at most \<open>n\<close> bytes at a pointer: everything before the first NUL.\<close>

definition cstr :: "nat \<Rightarrow> cptr \<Rightarrow> byte list" where
  "cstr n p = takeWhile (\<lambda>b. b \<noteq> 0) (map p [0..<n])"

lemma map_upt_Suc_shift: "map p [0..<Suc n] = p 0 # map (\<lambda>i. p (Suc i)) [0..<n]"
  by (simp add: upt_conv_Cons map_Suc_upt [symmetric] del: upt_Suc)

lemma cstr_Suc: "cstr (Suc n) p = (if p 0 = 0 then [] else p 0 # cstr n (\<lambda>i. p (Suc i)))"
  by (simp only: cstr_def map_upt_Suc_shift) simp

lemma cstr_0 [simp]: "cstr 0 p = []"
  by (simp add: cstr_def)

lemma uint_diff_0: "uint (a::byte) - uint b = 0 \<longleftrightarrow> a = b"
  by (simp add: word_uint_eq_iff)

lemma uint_eq: "uint (a::byte) = uint b \<longleftrightarrow> a = b" "uint (a::byte) = 0 \<longleftrightarrow> a = 0"
  by (simp_all add: word_uint_eq_iff)

lemma strncmp_iff: "strncmp p q n = 0 \<longleftrightarrow> cstr n p = cstr n q"
proof (induction n arbitrary: p q)
  case 0
  then show ?case by simp
next
  case (Suc n)
  show ?case
    using Suc.IH [of "\<lambda>i. p (Suc i)" "\<lambda>i. q (Suc i)"]
    by (auto simp: cstr_Suc uint_eq)
qed

lemma zero_fill_apply: "zero_fill i s n j = (if i \<le> j \<and> j < i + n then 0 else s j)"
  by (induction i s n rule: zero_fill.induct) (auto simp del: fun_upd_apply, auto)

lemma strncpy_at_apply:
  "strncpy_at i s t n j =
     (if i \<le> j \<and> j < i + n then (if \<exists>k. i \<le> k \<and> k < j \<and> t k = 0 then 0 else t j) else s j)"
proof (induction n arbitrary: i s)
  case 0
  then show ?case by auto
next
  case (Suc n)
  show ?case
  proof (cases "t i = 0")
    case True
    then show ?thesis by (auto simp: zero_fill_apply)
  next
    case False
    then have "(\<exists>k. i \<le> k \<and> k < j \<and> t k = 0) \<longleftrightarrow> (\<exists>k. Suc i \<le> k \<and> k < j \<and> t k = 0)"
      by (metis Suc_leD Suc_leI le_neq_implies_less)
    moreover define s' where "s' = s(i := t i)"
    then have "s' j = (if j = i then t i else s j)" by simp
    moreover have "strncpy_at i s t (Suc n) = strncpy_at (Suc i) s' t n"
      using False by (simp add: s'_def Let_def)
    ultimately show ?thesis using Suc.IH [of "Suc i" s'] by auto
  qed
qed

lemma strncpy_apply:
  "strncpy s t n i =
     (if int i < n then (if \<exists>k<i. t k = 0 then 0 else t i) else s i)"
  by (auto simp: strncpy_def strncpy_at_apply)

lemma cstr_strncpy: "cstr n (strncpy s t (int n)) = cstr n t"
proof -
  have "cstr k (strncpy s t (int n)) = cstr k t" if "k \<le> n" for k
    using that
  proof (induction k)
    case (Suc k)
    then have IH: "cstr k (strncpy s t (int n)) = cstr k t" by simp
    have snoc: "cstr (Suc k) p = (if \<exists>j<k. p j = 0 then cstr k p else
        cstr k p @ (if p k = 0 then [] else [p k]))" for p
    proof (cases "\<exists>j<k. p j = 0")
      case True
      then obtain j where j: "j < k" "p j = 0" by blast
      then have "takeWhile (\<lambda>b. b \<noteq> 0) (map p [0..<k] @ [p k]) = takeWhile (\<lambda>b. b \<noteq> 0) (map p [0..<k])"
        by (intro takeWhile_append1 [of "p j"]) auto
      with True show ?thesis by (simp add: cstr_def)
    next
      case False
      then have nz: "\<And>x. x \<in> set (map p [0..<k]) \<Longrightarrow> x \<noteq> 0" by auto
      then have all: "takeWhile (\<lambda>b. b \<noteq> 0) (map p [0..<k]) = map p [0..<k]"
        by (simp add: takeWhile_eq_all_conv)
      have "takeWhile (\<lambda>b. b \<noteq> 0) (map p [0..<k] @ [p k])
          = map p [0..<k] @ takeWhile (\<lambda>b. b \<noteq> 0) [p k]"
        using nz by (rule takeWhile_append2)
      with False all show ?thesis by (simp add: cstr_def del: takeWhile_eq_all_conv)
    qed
    have ex: "(\<exists>j<k. strncpy s t (int n) j = 0) \<longleftrightarrow> (\<exists>j<k. t j = 0)"
    proof
      assume "\<exists>j<k. strncpy s t (int n) j = 0"
      then obtain j where "j < k" "(\<exists>i<j. t i = 0) \<or> t j = 0"
        using Suc.prems by (auto simp: strncpy_apply split: if_splits)
      then show "\<exists>j<k. t j = 0" by (auto intro: less_trans)
    next
      assume "\<exists>j<k. t j = 0"
      then obtain j where j: "j < k" "t j = 0" by blast
      with Suc.prems have "strncpy s t (int n) j = 0" by (simp add: strncpy_apply)
      with j(1) show "\<exists>j<k. strncpy s t (int n) j = 0" by blast
    qed
    have last: "(\<nexists>j. j < k \<and> t j = 0) \<Longrightarrow> strncpy s t (int n) k = t k"
      using Suc.prems strncpy_apply [of s t "int n" k] by auto
    show ?case unfolding snoc IH ex using last by auto
  qed simp
  then show ?thesis by simp
qed

section \<open>safestrcpy and strlen\<close>

lemma safestrcpy_at_spec:
  "\<exists>l. i \<le> l \<and> l \<le> i + n \<and> safestrcpy_at i s t n l = 0
     \<and> (\<forall>k. i \<le> k \<and> k < l \<longrightarrow> safestrcpy_at i s t n k = t k \<and> t k \<noteq> 0)
     \<and> (l < i + n \<longrightarrow> t l = 0)
     \<and> (\<forall>k. k < i \<or> i + n < k \<longrightarrow> safestrcpy_at i s t n k = s k)"
proof (induction n arbitrary: i s)
  case 0
  then show ?case by (auto intro!: exI [of _ i])
next
  case (Suc n)
  show ?case
  proof (cases "t i = 0")
    case True
    then show ?thesis by (auto intro!: exI [of _ i] simp: Let_def)
  next
    case False
    define r where "r = safestrcpy_at (Suc i) (s(i := t i)) t n"
    obtain l where l: "Suc i \<le> l" "l \<le> Suc i + n" "r l = 0"
        "\<forall>k. Suc i \<le> k \<and> k < l \<longrightarrow> r k = t k \<and> t k \<noteq> 0" "l < Suc i + n \<longrightarrow> t l = 0"
        "\<forall>k. k < Suc i \<or> Suc i + n < k \<longrightarrow> r k = (s(i := t i)) k"
      using Suc.IH [of "Suc i" "s(i := t i)"] unfolding r_def by blast
    have ri: "r i = t i" using l(6) by simp
    have "r k = t k \<and> t k \<noteq> 0" if "i \<le> k" "k < l" for k
      using that l(4) False ri by (cases "k = i") auto
    moreover have "r k = s k" if "k < i \<or> i + Suc n < k" for k
      using that l(6) by auto
    moreover have "safestrcpy_at i s t (Suc n) = r" using False by (simp add: r_def Let_def)
    ultimately show ?thesis using l by (intro exI [of _ l]) auto
  qed
qed

lemma strlen_from_Some:
  assumes "\<forall>k. n \<le> k \<and> k < n + d \<longrightarrow> s k \<noteq> 0" "s (n + d) = 0"
  shows "strlen_from s n = Some (n + d)"
  using assms
proof (induction d arbitrary: n)
  case 0
  then show ?case by (simp add: strlen_from.simps)
next
  case (Suc d)
  then have "s n \<noteq> 0" by simp
  moreover have "strlen_from s (Suc n) = Some (Suc n + d)"
    using Suc.prems by (intro Suc.IH) auto
  ultimately show ?case by (simp add: strlen_from.simps [of s n])
qed

lemma strlen_Some: "(\<forall>k<n. s k \<noteq> 0) \<Longrightarrow> s n = 0 \<Longrightarrow> strlen s = Some n"
  using strlen_from_Some [of 0 n s] by (simp add: strlen_def)

section \<open>Properties\<close>

text \<open>C32: \<open>memmove\<close> behaves as a simultaneous copy for every overlap of source and destination
  that does not wrap around the address space: afterwards the destination holds the bytes
  the source held before, and every byte outside the destination is unchanged.\<close>

theorem memmove_simultaneous:
  assumes "unat src + n < 2 ^ 64" "unat dst + n < 2 ^ 64"
  shows "load_bytes (memmove dst src n m) dst n = load_bytes m src n \<and>
    (\<forall>x. n \<le> unat (x - dst) \<longrightarrow> memmove dst src n m x = m x)"
proof -
  have "load_bytes (store_bytes m dst (load_bytes m src n)) dst (length (load_bytes m src n)) = load_bytes m src n"
    using assms(1) by (intro load_store_bytes_same) simp
  then show ?thesis using memmove_eq_store [OF assms] by (simp add: store_bytes_outside)
qed

theorem memmove_simultaneous_witness:
  "load_bytes (memmove 0x1002 0x1000 4 (\<lambda>a. ucast a)) 0x1002 4 =
     load_bytes (\<lambda>a. ucast a) 0x1000 4 \<and> memmove 0x1002 0x1000 4 (\<lambda>a. ucast a) 0x1001 = 1"
proof -
  have "unat ((0x1001 :: u64) - 0x1002) \<ge> 4" unfolding unat_sub_if_size word_size by simp
  moreover note memmove_simultaneous [of "0x1000" 4 "0x1002" "\<lambda>a. ucast a"]
  ultimately show ?thesis by auto
qed

text \<open>C34: A name stored with \<open>strncpy\<close> compares equal under \<open>strncmp\<close> to exactly the names with
  the same first \<open>n\<close> characters up to NUL; in particular to the name it was copied from.\<close>

theorem strncpy_strncmp:
  "(strncmp (strncpy s t (int n)) q n = 0 \<longleftrightarrow> cstr n t = cstr n q) \<and>
   strncmp (strncpy s t (int n)) t n = 0"
  by (simp add: strncmp_iff cstr_strncpy)

text \<open>C33: \<open>safestrcpy\<close> into a buffer of \<open>n > 0\<close> bytes writes only inside the buffer and leaves a
  NUL-terminated prefix of the source: the whole of it when it fits, else its first
  \<open>n - 1\<close> bytes.\<close>

theorem safestrcpy_terminates:
  assumes "0 < n"
  shows "\<exists>l<n. strlen (safestrcpy s t (int n)) = Some l \<and>
    (\<forall>k<l. safestrcpy s t (int n) k = t k) \<and> (l = n - 1 \<or> t l = 0) \<and>
    (\<forall>k\<ge>n. safestrcpy s t (int n) k = s k)"
proof -
  have e: "safestrcpy s t (int n) = safestrcpy_at 0 s t (n - 1)"
    using assms by (simp add: safestrcpy_def nat_diff_distrib)
  define r where r: "r = safestrcpy_at 0 s t (n - 1)"
  obtain l where l: "l \<le> n - 1" "r l = 0" "\<forall>k<l. r k = t k \<and> t k \<noteq> 0" "l < n - 1 \<longrightarrow> t l = 0"
    "\<forall>k>n - 1. r k = s k"
    using safestrcpy_at_spec [where i = 0 and s = s and t = t and n = "n - 1"] unfolding r by auto
  have "strlen r = Some l" using l(2,3) by (intro strlen_Some) auto
  then show ?thesis unfolding e r [symmetric]
    using l assms by (intro exI [of _ l]) auto
qed

theorem safestrcpy_terminates_witness:
  "\<exists>l<4. strlen (safestrcpy (\<lambda>_. 7) (\<lambda>i. 65) (int 4)) = Some l \<and> l = 3 \<and>
     safestrcpy (\<lambda>_. 7) (\<lambda>i. 65) (int 4) 4 = 7"
  using safestrcpy_terminates [of 4 "\<lambda>_. 7" "\<lambda>i. 65"] by auto

end
