(* ===== verification/Kalloc.thy ===== *)
theory Kalloc
  imports KString
begin

text \<open>
  \<open>kernel/kalloc.c\<close>, the physical page allocator. The free list is the linked list of
  the code: its head \<open>freelist\<close> and, in the first eight bytes of every free page, the
  address of the next one. The invariant \<open>kmem_inv\<close> relates that list to the HOL list
  of free pages; \<open>page_alloc\<close> is the interface the page-table code relies on,
  interpreted here by \<open>kalloc\<close> and \<open>kfree\<close>; a client that allocates and frees in any
  order never gets a page it still owns.

  Critical sections under a spin-lock appear as their bodies (see \<open>Spinlock\<close>).
\<close>

section \<open>Memory layout (memlayout.h)\<close>

definition DMWIN_MASK :: u64 where
  "DMWIN_MASK = 0x9000000000000000"

definition RAMBASE :: u64 where
  "RAMBASE = 0x90000000 OR DMWIN_MASK"

definition RAMSTOP :: u64 where
  "RAMSTOP = RAMBASE + 128 * 1024 * 1024"

lemma RAMBASE_num: "RAMBASE = 0x9000000090000000"
  by (simp add: RAMBASE_def DMWIN_MASK_def)

lemma RAMSTOP_num: "RAMSTOP = 0x9000000098000000"
  by (simp add: RAMSTOP_def RAMBASE_num)

section \<open>The allocator\<close>

record kmem =
  pmem :: mem
  freelist :: u64

definition kfree :: "u64 \<Rightarrow> 'a kmem_scheme \<Rightarrow> 'a kmem_scheme res" where
  "kfree pa s =
     (if pa mod PGSIZE \<noteq> 0 \<or> pa < RAMBASE \<or> pa \<ge> RAMSTOP then Inl (Panic ''kfree'')
      else
        let m = memset pa 1 PGSIZE (pmem s);
            m = store64 m pa (freelist s)
        in Inr (s\<lparr>pmem := m, freelist := pa\<rparr>))"

definition kalloc :: "'a kmem_scheme \<Rightarrow> u64 \<times> 'a kmem_scheme" where
  "kalloc s =
     (let r = freelist s;
          s = (if r \<noteq> 0 then s\<lparr>freelist := load64 (pmem s) r\<rparr> else s);
          s = (if r \<noteq> 0 then s\<lparr>pmem := memset r 5 PGSIZE (pmem s)\<rparr> else s)
      in (r, s))"

lemma kfree_Inr_range: "kfree pa s = Inr s' \<Longrightarrow> unat (pa + 4096) = unat pa + 4096"
proof -
  assume "kfree pa s = Inr s'"
  then have "pa < RAMSTOP" by (auto simp: kfree_def split: if_splits)
  then have "unat pa < 0x9000000098000000" by (simp add: RAMSTOP_num word_less_nat_alt)
  then show "unat (pa + 4096) = unat pa + 4096" by (simp add: unat_word_ariths)
qed

function freerange_loop :: "u64 \<Rightarrow> u64 \<Rightarrow> 'a kmem_scheme \<Rightarrow> 'a kmem_scheme res" where
  "freerange_loop p pa_end s =
     (if p + PGSIZE \<le> pa_end
      then kbind (kfree p s) (\<lambda>s. freerange_loop (p + PGSIZE) pa_end s)
      else Inr s)"
  by pat_completeness auto
termination
proof (relation "measure (\<lambda>(p, e, s). 2 ^ 64 - unat p)", goal_cases)
  case (2 p pa_end s s')
  then have "unat (p + 4096) = unat p + 4096" by (blast intro: kfree_Inr_range)
  then have "unat p + 4096 < 2 ^ LENGTH(64)" using unsigned_less [of "p + 4096"] by metis
  with \<open>unat (p + 4096) = unat p + 4096\<close> show ?case by (simp add: PGSIZE_def)
qed simp

declare freerange_loop.simps [simp del]

definition freerange :: "u64 \<Rightarrow> u64 \<Rightarrow> 'a kmem_scheme \<Rightarrow> 'a kmem_scheme res" where
  "freerange pa_start pa_end s = freerange_loop (PGROUNDUP pa_start) pa_end s"

definition kinit :: "'a kmem_scheme \<Rightarrow> 'a kmem_scheme res" where
  "kinit s = freerange RAMBASE RAMSTOP s"

section \<open>The free-list invariant\<close>

definition ram_page :: "u64 \<Rightarrow> bool" where
  "ram_page p \<longleftrightarrow> page_aligned p \<and> RAMBASE \<le> p \<and> p < RAMSTOP"

fun free_chain :: "mem \<Rightarrow> u64 \<Rightarrow> u64 list \<Rightarrow> bool" where
  "free_chain m p [] \<longleftrightarrow> p = 0"
| "free_chain m p (q # qs) \<longleftrightarrow> p = q \<and> free_chain m (load64 m q) qs"

definition kmem_inv :: "'a kmem_scheme \<Rightarrow> u64 list \<Rightarrow> bool" where
  "kmem_inv s ps \<longleftrightarrow>
     free_chain (pmem s) (freelist s) ps \<and> distinct ps \<and> (\<forall>p\<in>set ps. ram_page p)"

lemma ram_page_aligned [simp]: "ram_page p \<Longrightarrow> page_aligned p"
  by (simp add: ram_page_def)

lemma ram_page_nonzero [simp]: "ram_page p \<Longrightarrow> p \<noteq> 0"
  by (auto simp: ram_page_def RAMBASE_num word_le_nat_alt)

lemma free_chain_frame:
  "(\<forall>q\<in>set qs. same_page m m' q) \<Longrightarrow> free_chain m' p qs = free_chain m p qs"
  by (induction qs arbitrary: p) (auto dest: load64_same_page [where off = 0])

lemma memset_other_page:
  "page_aligned p \<Longrightarrow> page_aligned q \<Longrightarrow> p \<noteq> q \<Longrightarrow> same_page m (memset q c 4096 m) p"
  using store_bytes_other_page [of p q 0 "replicate 4096 c" m]
  by (simp add: memset_eq_store)

lemma memset_page:
  "page_aligned p \<Longrightarrow> i < 4096 \<Longrightarrow> memset p c 4096 m (p + of_nat i) = c"
  by (simp add: memset_eq_store store_bytes_def unat_of_nat_eq)

lemma kfree_eq:
  "ram_page p \<Longrightarrow>
     kfree p s = Inr (s\<lparr>pmem := store64 (memset p 1 4096 (pmem s)) p (freelist s), freelist := p\<rparr>)"
  by (auto simp: kfree_def ram_page_def PGSIZE_def mod_4096_aligned [simplified])

lemma kfree_Panic: "\<not> ram_page p \<Longrightarrow> kfree p s = Inl (Panic ''kfree'')"
  by (auto simp: kfree_def ram_page_def PGSIZE_def mod_4096_aligned [simplified])

lemma kfree_mem_other:
  assumes "page_aligned q" "ram_page p" "q \<noteq> p"
  shows "same_page m (store64 (memset p c 4096 m) p v) q"
proof -
  have "same_page m (memset p c 4096 m) q"
    using assms by (simp add: memset_other_page)
  moreover have "same_page (memset p c 4096 m) (store64 (memset p c 4096 m) p v) q"
    using assms store64_other_page [of q p 0 "memset p c 4096 m" v] by simp
  ultimately show ?thesis by (rule same_page_trans)
qed

text \<open>What the code promises its callers.\<close>

locale page_alloc =
  fixes alloc :: "'s \<Rightarrow> u64 \<times> 's"
    and free :: "u64 \<Rightarrow> 's \<Rightarrow> 's res"
    and inv :: "'s \<Rightarrow> u64 list \<Rightarrow> bool"
    and memory :: "'s \<Rightarrow> mem"
    and set_memory :: "mem \<Rightarrow> 's \<Rightarrow> 's"
  assumes inv_ram: "inv s ps \<Longrightarrow> distinct ps \<and> (\<forall>p\<in>set ps. ram_page p)"
    and alloc_none: "inv s [] \<Longrightarrow> alloc s = (0, s)"
    and alloc_some: "inv s (p # ps) \<Longrightarrow> \<exists>s'. alloc s = (p, s') \<and> inv s' ps \<and>
          (\<forall>q. page_aligned q \<and> q \<noteq> p \<longrightarrow> same_page (memory s) (memory s') q)"
    and free_ok: "inv s ps \<Longrightarrow> ram_page p \<Longrightarrow> p \<notin> set ps \<Longrightarrow>
          \<exists>s'. free p s = Inr s' \<and> inv s' (p # ps) \<and>
          (\<forall>q. page_aligned q \<and> q \<noteq> p \<longrightarrow> same_page (memory s) (memory s') q)"
    and free_panics: "\<not> ram_page p \<Longrightarrow> free p s = Inl (Panic ''kfree'')"
    and inv_frame: "inv s ps \<Longrightarrow> (\<forall>p\<in>set ps. same_page (memory s) m p) \<Longrightarrow>
          inv (set_memory m s) ps"
begin

lemma alloc_ram_or_null:
  assumes "inv s ps" "alloc s = (p, s')"
  shows "p = 0 \<or> ram_page p"
proof (cases ps)
  case Nil
  with assms show ?thesis by (auto dest: alloc_none)
next
  case (Cons q qs)
  with assms alloc_some [of s q qs] have "p = q" by auto
  with assms(1) Cons show ?thesis by (auto dest: inv_ram)
qed

lemma alloc_null_iff:
  assumes "inv s ps"
  shows "fst (alloc s) = 0 \<longleftrightarrow> ps = []"
proof (cases ps)
  case Nil
  with assms show ?thesis by (auto dest: alloc_none)
next
  case (Cons p qs)
  with assms obtain s' where "alloc s = (p, s')" by (auto dest: alloc_some)
  moreover from assms Cons have "ram_page p" by (auto dest: inv_ram)
  ultimately show ?thesis using Cons by simp
qed

lemma alloc_fresh:
  assumes "inv s ps" "alloc s = (p, s')" "p \<noteq> 0"
  shows "\<exists>qs. ps = p # qs \<and> inv s' qs \<and> p \<notin> set qs"
proof (cases ps)
  case Nil
  with assms show ?thesis by (auto dest: alloc_none)
next
  case (Cons q qs)
  with assms alloc_some [of s q qs] have "p = q" "inv s' qs" by auto
  with assms(1) Cons show ?thesis by (auto dest: inv_ram)
qed

lemma alloc_free_restores:
  assumes "inv s ps" "alloc s = (p, s')" "p \<noteq> 0"
  shows "\<exists>s''. free p s' = Inr s'' \<and> inv s'' ps"
proof -
  obtain qs where "ps = p # qs" "inv s' qs" "p \<notin> set qs"
    using alloc_fresh [OF assms] by blast
  moreover have "ram_page p" using alloc_ram_or_null [OF assms(1,2)] assms(3) by simp
  ultimately show ?thesis using free_ok by metis
qed

end

lemma kalloc_some:
  assumes "kmem_inv s (p # ps)"
  shows "kalloc s = (p, s\<lparr>freelist := load64 (pmem s) p, pmem := memset p 5 4096 (pmem s)\<rparr>)"
  using assms by (auto simp: kmem_inv_def kalloc_def Let_def PGSIZE_def)

interpretation ka: page_alloc kalloc kfree kmem_inv pmem "\<lambda>m s. s\<lparr>pmem := m\<rparr>"
proof (unfold_locales, goal_cases)
  case (1 s ps)
  then show ?case by (auto simp: kmem_inv_def)
next
  case (2 s)
  then show ?case by (simp add: kmem_inv_def kalloc_def Let_def)
next
  case (3 s p ps)
  let ?m = "memset p 5 4096 (pmem s)"
  from 3 have p: "ram_page p" "p \<notin> set ps" "\<forall>q\<in>set ps. ram_page q"
    by (auto simp: kmem_inv_def)
  have other: "same_page (pmem s) ?m q" if "page_aligned q" "q \<noteq> p" for q
    using that p(1) by (simp add: memset_other_page)
  have "\<forall>q\<in>set ps. same_page (pmem s) ?m q" using p other by (metis ram_page_aligned)
  with 3 have "kmem_inv (s\<lparr>freelist := load64 (pmem s) p, pmem := ?m\<rparr>) ps"
    by (auto simp: kmem_inv_def free_chain_frame)
  then show ?case
    using kalloc_some [OF 3] other
    by (intro exI [of _ "s\<lparr>freelist := load64 (pmem s) p, pmem := ?m\<rparr>"]) simp
next
  case (4 s ps p)
  let ?m = "store64 (memset p 1 4096 (pmem s)) p (freelist s)"
  have other: "same_page (pmem s) ?m q" if "page_aligned q" "q \<noteq> p" for q
    using that 4 by (simp add: kfree_mem_other)
  have "\<forall>q\<in>set ps. same_page (pmem s) ?m q"
    using 4 other by (metis kmem_inv_def ram_page_aligned)
  with 4 have "kmem_inv (s\<lparr>pmem := ?m, freelist := p\<rparr>) (p # ps)"
    by (auto simp: kmem_inv_def free_chain_frame)
  then show ?case
    using kfree_eq [OF 4(2), of s] other
    by (intro exI [of _ "s\<lparr>pmem := ?m, freelist := p\<rparr>"]) simp
next
  case (5 p s)
  then show ?case by (rule kfree_Panic)
next
  case (6 s ps m)
  then show ?case by (auto simp: kmem_inv_def free_chain_frame)
qed

section \<open>Initialisation\<close>

lemma kinit_loop:
  assumes "kmem_inv s ps" "unat p + 4096 * k = 0x9000000098000000"
    and "unat RAMBASE \<le> unat p" "page_aligned p" "\<forall>q\<in>set ps. q < p"
  shows "\<exists>s' qs. freerange_loop p RAMSTOP s = Inr s' \<and> kmem_inv s' qs \<and>
           length qs = length ps + k \<and> set qs = set ps \<union> {q. ram_page q \<and> p \<le> q}"
  using assms
proof (induction k arbitrary: p s ps)
  case 0
  then have "unat p = 0x9000000098000000" by simp
  then have p: "p = RAMSTOP" by (simp add: RAMSTOP_num word_unat_eq_iff)
  have "\<not> p + PGSIZE \<le> RAMSTOP" by (simp add: p RAMSTOP_num PGSIZE_def)
  moreover have "{q. ram_page q \<and> p \<le> q} = {}" by (auto simp: p ram_page_def)
  ultimately show ?case using 0 by (auto simp: freerange_loop.simps)
next
  case (Suc k)
  have up: "unat p + 4096 \<le> 0x9000000098000000" using Suc.prems(2) by simp
  then have ns: "unat (p + 4096) = unat p + 4096" by (simp add: unat_word_ariths)
  have ram: "ram_page p"
    using Suc.prems(3,4) up by (simp add: ram_page_def word_le_nat_alt word_less_nat_alt RAMSTOP_num)
  have notin: "p \<notin> set ps" using Suc.prems(5) by auto
  obtain s' where s': "kfree p s = Inr s'" "kmem_inv s' (p # ps)"
    using ka.free_ok [OF Suc.prems(1) ram notin] by blast
  have "\<exists>s'' qs. freerange_loop (p + 4096) RAMSTOP s' = Inr s'' \<and> kmem_inv s'' qs \<and>
      length qs = length (p # ps) + k \<and> set qs = set (p # ps) \<union> {q. ram_page q \<and> p + 4096 \<le> q}"
  proof (rule Suc.IH [OF s'(2)])
    show "unat (p + 4096) + 4096 * k = 0x9000000098000000" using Suc.prems(2) ns by simp
    show "unat RAMBASE \<le> unat (p + 4096)" using Suc.prems(3) ns by simp
    show "page_aligned (p + 4096)" using Suc.prems(4) by (simp add: page_aligned_def ns)
    show "\<forall>q\<in>set (p # ps). q < p + 4096"
      using Suc.prems(5) by (auto simp: word_less_nat_alt ns)
  qed
  then obtain s'' qs where r: "freerange_loop (p + 4096) RAMSTOP s' = Inr s''" "kmem_inv s'' qs"
      "length qs = length (p # ps) + k" "set qs = set (p # ps) \<union> {q. ram_page q \<and> p + 4096 \<le> q}"
    by blast
  have "p + PGSIZE \<le> RAMSTOP" using up ns by (simp add: word_le_nat_alt RAMSTOP_num PGSIZE_def)
  then have "freerange_loop p RAMSTOP s = Inr s''"
    using s'(1) r(1) by (simp add: freerange_loop.simps [of p] PGSIZE_def)
  moreover have "{q. ram_page q \<and> p \<le> q} = insert p {q. ram_page q \<and> p + 4096 \<le> q}"
  proof (intro set_eqI iffI)
    fix q
    assume "q \<in> {q. ram_page q \<and> p \<le> q}"
    then have q: "ram_page q" "unat p \<le> unat q" by (simp_all add: word_le_nat_alt)
    from q(1) obtain j where j: "unat q = 4096 * j"
      unfolding ram_page_def page_aligned_def by (metis mod_0_imp_dvd dvdE)
    from Suc.prems(4) obtain i where i: "unat p = 4096 * i"
      unfolding page_aligned_def by (metis mod_0_imp_dvd dvdE)
    have "unat q = unat p \<or> unat p + 4096 \<le> unat q" 
    proof (cases "i = j")
      case True
      then show ?thesis by (simp add: i j)
    next
      case False
      with q(2) have "Suc i \<le> j" by (simp add: i j)
      then have "4096 * Suc i \<le> 4096 * j" by (rule mult_le_mono2)
      then show ?thesis by (simp add: i j)
    qed
    then have "q = p \<or> p + 4096 \<le> q" by (simp only: word_le_nat_alt ns word_unat_eq_iff)
    with q(1) show "q \<in> insert p {q. ram_page q \<and> p + 4096 \<le> q}" by auto
  next
    fix q
    assume "q \<in> insert p {q. ram_page q \<and> p + 4096 \<le> q}"
    then show "q \<in> {q. ram_page q \<and> p \<le> q}" using ram ns by (auto simp: word_le_nat_alt)
  qed
  ultimately show ?case using r(2-4) by auto
qed

lemma PGROUNDUP_RAMBASE: "PGROUNDUP RAMBASE = RAMBASE"
  by (simp add: PGROUNDUP_def PGSIZE_def RAMBASE_num)

lemma kinit_spec:
  assumes "freelist s = 0"
  shows "\<exists>s' ps. kinit s = Inr s' \<and> kmem_inv s' ps \<and> length ps = 32768 \<and> set ps = {p. ram_page p}"
proof -
  have "kmem_inv s []" using assms by (simp add: kmem_inv_def)
  then have "\<exists>s' ps. freerange_loop RAMBASE RAMSTOP s = Inr s' \<and> kmem_inv s' ps \<and>
      length ps = length ([] :: u64 list) + 32768 \<and>
      set ps = set [] \<union> {q. ram_page q \<and> RAMBASE \<le> q}"
    by (rule kinit_loop) (simp_all add: RAMBASE_num page_aligned_def)
  moreover have "{q. ram_page q \<and> RAMBASE \<le> q} = {q. ram_page q}"
    by (auto simp: ram_page_def)
  ultimately show ?thesis by (simp add: kinit_def freerange_def PGROUNDUP_RAMBASE)
qed

section \<open>Clients of the allocator\<close>

text \<open>
  Any client run: boot, then allocations, frees of owned pages and writes into owned
  pages in any order. The set is the pages the client owns.
\<close>

inductive kmem_run :: "'a kmem_scheme \<Rightarrow> u64 set \<Rightarrow> bool" where
  run_boot: "freelist s0 = 0 \<Longrightarrow> kinit s0 = Inr s \<Longrightarrow> kmem_run s {}"
| run_alloc: "kmem_run s own \<Longrightarrow> kalloc s = (p, s') \<Longrightarrow> p \<noteq> 0 \<Longrightarrow> kmem_run s' (insert p own)"
| run_free: "kmem_run s own \<Longrightarrow> p \<in> own \<Longrightarrow> kfree p s = Inr s' \<Longrightarrow> kmem_run s' (own - {p})"
| run_write: "kmem_run s own \<Longrightarrow> p \<in> own \<Longrightarrow>
    (\<And>q. page_aligned q \<Longrightarrow> q \<noteq> p \<Longrightarrow> same_page (pmem s) m q) \<Longrightarrow>
    kmem_run (s\<lparr>pmem := m\<rparr>) own"

lemma kmem_run_inv:
  "kmem_run s own \<Longrightarrow> \<exists>ps. kmem_inv s ps \<and> set ps \<inter> own = {} \<and> set ps \<union> own = {p. ram_page p}"
proof (induction rule: kmem_run.induct)
  case (run_boot s0 s)
  then show ?case using kinit_spec [of s0] by auto
next
  case (run_alloc s own p s')
  then obtain ps where ps: "kmem_inv s ps" "set ps \<inter> own = {}" "set ps \<union> own = {p. ram_page p}"
    by blast
  obtain qs where "ps = p # qs" "kmem_inv s' qs" "p \<notin> set qs"
    using ka.alloc_fresh [OF ps(1) run_alloc.hyps(2,3)] by blast
  with ps show ?case by auto
next
  case (run_free s own p s')
  then obtain ps where ps: "kmem_inv s ps" "set ps \<inter> own = {}" "set ps \<union> own = {p. ram_page p}"
    by blast
  have "ram_page p" "p \<notin> set ps" using ps run_free.hyps(2) by auto
  then obtain s'' where "kfree p s = Inr s''" "kmem_inv s'' (p # ps)"
    using ka.free_ok [OF ps(1)] by blast
  with run_free.hyps(2,3) ps show ?case by (auto intro!: exI [of _ "p # ps"])
next
  case (run_write s own p m)
  then obtain ps where ps: "kmem_inv s ps" "set ps \<inter> own = {}" "set ps \<union> own = {p. ram_page p}"
    by blast
  have "\<forall>q\<in>set ps. same_page (pmem s) m q"
  proof
    fix q
    assume "q \<in> set ps"
    with ps run_write.hyps(2) have "q \<noteq> p" "ram_page q" by auto
    with run_write.hyps(3) show "same_page (pmem s) m q" by simp
  qed
  with ps show ?case using ka.inv_frame by blast
qed

section \<open>Properties\<close>

text \<open>C25: Booting the allocator over an empty free list succeeds and puts every page of the
  128 MB RAM window on the free list, each exactly once (32768 pages).\<close>

theorem kinit_frees_all_ram:
  assumes "freelist s = 0"
  shows "\<exists>s' ps. kinit s = Inr s' \<and> free_chain (pmem s') (freelist s') ps \<and>
           distinct ps \<and> length ps = 32768 \<and> set ps = {p. ram_page p}"
  using kinit_spec [OF assms] by (auto simp: kmem_inv_def)

theorem kinit_frees_all_ram_witness:
  "\<exists>s' ps. kinit \<lparr>pmem = (\<lambda>_. 0), freelist = 0\<rparr> = Inr s' \<and>
     free_chain (pmem s') (freelist s') ps \<and> distinct ps \<and> length ps = 32768 \<and>
     set ps = {p. ram_page p}"
  by (rule kinit_frees_all_ram) simp

text \<open>C2: In any run of a client that allocates, frees and writes pages it owns, in any order,
  \<open>kalloc\<close> never returns a page the client still owns, every page it returns is a page of
  RAM, and it returns 0 only when the client owns all of RAM.\<close>

theorem kalloc_never_hands_out_twice:
  assumes "kmem_run s own" "kalloc s = (p, s')"
  shows "(p \<noteq> 0 \<longrightarrow> ram_page p \<and> p \<notin> own) \<and> (p = 0 \<longleftrightarrow> own = {q. ram_page q})"
proof -
  obtain ps where ps: "kmem_inv s ps" "set ps \<inter> own = {}" "set ps \<union> own = {q. ram_page q}"
    using kmem_run_inv [OF assms(1)] by blast
  have "p = 0 \<longleftrightarrow> ps = []" using ka.alloc_null_iff [OF ps(1)] assms(2) by simp
  moreover have "p \<noteq> 0 \<Longrightarrow> p \<in> set ps"
    using ka.alloc_fresh [OF ps(1) assms(2)] by auto
  moreover have "ps = [] \<longleftrightarrow> own = {q. ram_page q}"
    using ps(2,3) by (cases ps) auto
  ultimately show ?thesis using ps by auto
qed

theorem kalloc_never_hands_out_twice_witness:
  "\<exists>(s :: kmem) p s'. kmem_run s {} \<and> kalloc s = (p, s') \<and> ram_page p \<and> p \<notin> {}"
proof -
  obtain s where k: "kinit \<lparr>pmem = (\<lambda>_. 0), freelist = 0\<rparr> = Inr s"
    using kinit_spec [of "\<lparr>pmem = (\<lambda>_. 0), freelist = 0\<rparr>"] by auto
  then have run: "kmem_run s {}" by (intro run_boot [OF _ k]) simp
  obtain p s' where a: "kalloc s = (p, s')" by fastforce
  have "ram_page RAMBASE" by (simp add: ram_page_def RAMBASE_num RAMSTOP_num page_aligned_def)
  then have "{} \<noteq> {q. ram_page q}" by blast
  with kalloc_never_hands_out_twice [OF run a] have "ram_page p" by auto
  with run a show ?thesis by blast
qed

end
