(* ===== verification/Vm.thy ===== *)
theory Vm
  imports Kalloc
begin

text \<open>
  \<open>kernel/vm.c\<close>: page tables in physical memory. A page-table page is 512 little-endian
  64-bit entries read and written through \<open>load64\<close> and \<open>store64\<close>; the tables, the pages
  they map and the free list share one memory, so the invariants say which page belongs
  to which. \<open>pte_val\<close> is the abstraction: the leaf entry of a virtual address, 0 when a
  table on the way is missing. The lemmas: \<open>walk\<close> creates tables without changing any
  mapping, \<open>mappages\<close> changes exactly the entries it is asked for, \<open>uvmunmap\<close> removes
  them, and copying out to user memory and back returns the same bytes.
\<close>

section \<open>Page-table entries (loongarch.h)\<close>

definition PTE_V :: u64 where "PTE_V = push_bit 0 1"
definition PTE_D :: u64 where "PTE_D = push_bit 1 1"
definition PTE_PLV :: u64 where "PTE_PLV = push_bit 2 3"
definition PTE_MAT :: u64 where "PTE_MAT = push_bit 4 1"
definition PTE_P :: u64 where "PTE_P = push_bit 7 1"
definition PTE_W :: u64 where "PTE_W = push_bit 8 1"
definition PTE_NX :: u64 where "PTE_NX = push_bit 62 1"

definition PAMASK :: u64 where "PAMASK = push_bit 12 0xFFFFFFFFF"
definition PTE2PA :: "u64 \<Rightarrow> u64" where "PTE2PA pte = pte AND PAMASK"
definition PA2PTE :: "u64 \<Rightarrow> u64" where "PA2PTE pa = pa AND PAMASK"
definition PTE_FLAGS :: "u64 \<Rightarrow> u64" where "PTE_FLAGS pte = pte AND 0xE0000000000001FF"

definition PXSHIFT :: "nat \<Rightarrow> nat" where "PXSHIFT level = 12 + 9 * level"
definition PX :: "nat \<Rightarrow> u64 \<Rightarrow> u64" where "PX level va = drop_bit (PXSHIFT level) va AND 0x1FF"

definition MAXVA :: u64 where "MAXVA = push_bit (9 + 12 - 1) 1"
definition TRAPFRAME :: u64 where "TRAPFRAME = MAXVA - PGSIZE"
definition KSTACK :: "nat \<Rightarrow> u64" where "KSTACK p = TRAPFRAME - (of_nat p + 1) * 2 * PGSIZE"

lemmas pte_bits = PTE_V_def PTE_D_def PTE_PLV_def PTE_MAT_def PTE_P_def PTE_W_def PAMASK_def

section \<open>Walking and mapping\<close>

fun walk_level :: "nat \<Rightarrow> u64 \<Rightarrow> u64 \<Rightarrow> bool \<Rightarrow> 'a kmem_scheme \<Rightarrow> u64 \<times> 'a kmem_scheme" where
  "walk_level 0 pagetable va alloc s = (pagetable + 8 * PX 0 va, s)"
| "walk_level (Suc l) pagetable va alloc s =
     (let pte = pagetable + 8 * PX (Suc l) va; e = load64 (pmem s) pte in
      if e AND PTE_V \<noteq> 0 then walk_level l (PTE2PA e OR DMWIN_MASK) va alloc s
      else if \<not> alloc then (0, s)
      else
        case kalloc s of (p, s) \<Rightarrow>
        if p = 0 then (0, s)
        else
          let s = s\<lparr>pmem := memset p 0 PGSIZE (pmem s)\<rparr>;
              s = s\<lparr>pmem := store64 (pmem s) pte (PA2PTE p OR PTE_V)\<rparr>
          in walk_level l p va alloc s)"

definition walk :: "u64 \<Rightarrow> u64 \<Rightarrow> bool \<Rightarrow> 'a kmem_scheme \<Rightarrow> (u64 \<times> 'a kmem_scheme) res" where
  "walk pagetable va alloc s =
     (if va \<ge> MAXVA then Inl (Panic ''walk'') else Inr (walk_level 3 pagetable va alloc s))"

definition walkaddr :: "u64 \<Rightarrow> u64 \<Rightarrow> 'a kmem_scheme \<Rightarrow> u64 res" where
  "walkaddr pagetable va s =
     (if va \<ge> MAXVA then Inr 0
      else kbind (walk pagetable va False s) (\<lambda>(pte, s).
        if pte = 0 then Inr 0
        else if load64 (pmem s) pte AND PTE_V = 0 then Inr 0
        else if load64 (pmem s) pte AND PTE_PLV = 0 then Inr 0
        else Inr (PTE2PA (load64 (pmem s) pte))))"

lemma walk_Inr_lt: "walk pt a al s = Inr r \<Longrightarrow> unat (a + 4096) = unat a + 4096 \<and> unat a < 0x100000"
  by (auto simp: walk_def MAXVA_def word_le_nat_alt unat_word_ariths split: if_splits)

text \<open>The loop of \<open>mappages\<close>; it ends at \<open>last\<close> (here \<open>lst\<close>), or \<open>walk\<close> panics at \<open>MAXVA\<close>.\<close>

function mappages_loop ::
  "u64 \<Rightarrow> u64 \<Rightarrow> u64 \<Rightarrow> u64 \<Rightarrow> u64 \<Rightarrow> 'a kmem_scheme \<Rightarrow> (int \<times> 'a kmem_scheme) res" where
  "mappages_loop pagetable a lst pa perm s =
     kbind (walk pagetable a True s) (\<lambda>(pte, s).
       if pte = 0 then Inr (- 1, s)
       else if load64 (pmem s) pte AND PTE_V \<noteq> 0 then Inl (Panic ''mappages: remap'')
       else
         let s = s\<lparr>pmem := store64 (pmem s) pte (PA2PTE pa OR perm OR PTE_V)\<rparr> in
         if a = lst then Inr (0, s)
         else mappages_loop pagetable (a + PGSIZE) lst (pa + PGSIZE) perm s)"
  by pat_completeness auto
termination
  by (relation "measure (\<lambda>(pt, a, l, pa, pm, s). 0x200000 - unat a)")
    (auto dest!: walk_Inr_lt simp: PGSIZE_def)

declare mappages_loop.simps [simp del]

definition mappages ::
  "u64 \<Rightarrow> u64 \<Rightarrow> u64 \<Rightarrow> u64 \<Rightarrow> u64 \<Rightarrow> 'a kmem_scheme \<Rightarrow> (int \<times> 'a kmem_scheme) res" where
  "mappages pagetable va sz pa perm s =
     (if sz = 0 then Inl (Panic ''mappages: size'')
      else mappages_loop pagetable (PGROUNDDOWN va) (PGROUNDDOWN (va + sz - 1)) pa perm s)"

function uvmunmap_loop ::
  "u64 \<Rightarrow> u64 \<Rightarrow> u64 \<Rightarrow> bool \<Rightarrow> 'a kmem_scheme \<Rightarrow> 'a kmem_scheme res" where
  "uvmunmap_loop pagetable a lim do_free s =
     (if a < lim then
        kbind (walk pagetable a False s) (\<lambda>(pte, s).
          if pte = 0 then Inl (Panic ''uvmunmap: walk'')
          else if load64 (pmem s) pte AND PTE_V = 0 then Inl (Panic ''uvmunmap: not mapped'')
          else if PTE_FLAGS (load64 (pmem s) pte) = PTE_V then Inl (Panic ''uvmunmap: not a leaf'')
          else
            kbind (if do_free then kfree (PTE2PA (load64 (pmem s) pte) OR DMWIN_MASK) s else Inr s)
              (\<lambda>s. uvmunmap_loop pagetable (a + PGSIZE) lim do_free
                     (s\<lparr>pmem := store64 (pmem s) pte 0\<rparr>)))
      else Inr s)"
  by pat_completeness auto
termination
  by (relation "measure (\<lambda>(pt, a, l, f, s). 0x200000 - unat a)")
    (auto dest!: walk_Inr_lt simp: PGSIZE_def)

declare uvmunmap_loop.simps [simp del]

definition uvmunmap :: "u64 \<Rightarrow> u64 \<Rightarrow> u64 \<Rightarrow> bool \<Rightarrow> 'a kmem_scheme \<Rightarrow> 'a kmem_scheme res" where
  "uvmunmap pagetable va npages do_free s =
     (if va mod PGSIZE \<noteq> 0 then Inl (Panic ''uvmunmap: not aligned'')
      else uvmunmap_loop pagetable va (va + npages * PGSIZE) do_free s)"

definition uvmcreate :: "'a kmem_scheme \<Rightarrow> u64 \<times> 'a kmem_scheme" where
  "uvmcreate s =
     (case kalloc s of (pagetable, s) \<Rightarrow>
      if pagetable = 0 then (0, s)
      else (pagetable, s\<lparr>pmem := memset pagetable 0 PGSIZE (pmem s)\<rparr>))"

text \<open>The page is not checked for 0 in the source: on an exhausted free list \<open>memset\<close> and
  \<open>memmove\<close> write at address 0.\<close>

definition uvminit :: "u64 \<Rightarrow> byte list \<Rightarrow> 'a kmem_scheme \<Rightarrow> 'a kmem_scheme res" where
  "uvminit pagetable src s =
     (if length src \<ge> PGSIZE then Inl (Panic ''inituvm: more than a page'')
      else case kalloc s of (p, s) \<Rightarrow>
        let s = s\<lparr>pmem := memset p 0 PGSIZE (pmem s)\<rparr> in
        kbind (mappages pagetable 0 PGSIZE p (PTE_P OR PTE_W OR PTE_PLV OR PTE_MAT) s) (\<lambda>(r, s).
        Inr (s\<lparr>pmem := store_bytes (pmem s) p src\<rparr>)))"

text \<open>\<open>npages\<close> is a C \<open>int\<close>.\<close>

definition uvmdealloc :: "u64 \<Rightarrow> u64 \<Rightarrow> u64 \<Rightarrow> 'a kmem_scheme \<Rightarrow> (u64 \<times> 'a kmem_scheme) res" where
  "uvmdealloc pagetable oldsz newsz s =
     (if newsz \<ge> oldsz then Inr (oldsz, s)
      else if PGROUNDUP newsz < PGROUNDUP oldsz then
        let npages = (ucast ((PGROUNDUP oldsz - PGROUNDUP newsz) div PGSIZE) :: u32) in
        kbind (uvmunmap pagetable (PGROUNDUP newsz) (scast npages) True s) (\<lambda>s. Inr (newsz, s))
      else Inr (newsz, s))"

lemma mappages_Inr_lt:
  assumes "mappages pt a sz pa perm s = Inr r"
  shows "unat (a + 4096) = unat a + 4096 \<and> unat a < 0x101000"
proof -
  from assms have "unat (PGROUNDDOWN a) < 0x100000"
    by (auto simp: mappages_def mappages_loop.simps [of pt "PGROUNDDOWN a"]
        dest!: walk_Inr_lt split: if_splits)
  then have "unat a div 4096 < 0x100" by (simp add: unat_PGROUNDDOWN)
  then have "unat a < 0x101000" by (simp add: div_less_iff_less_mult)
  then show ?thesis by (simp add: unat_word_ariths)
qed

text \<open>The permissions \<open>uvmalloc\<close> maps with, and its loop.\<close>

definition uvm_perm :: u64 where
  "uvm_perm = PTE_P OR PTE_W OR PTE_PLV OR PTE_MAT OR PTE_D"

function uvmalloc_loop ::
  "u64 \<Rightarrow> u64 \<Rightarrow> u64 \<Rightarrow> u64 \<Rightarrow> 'a kmem_scheme \<Rightarrow> (u64 \<times> 'a kmem_scheme) res" where
  "uvmalloc_loop pagetable a oldsz newsz s =
     (if a < newsz then
        (case kalloc s of (mem, s) \<Rightarrow>
         if mem = 0 then kbind (uvmdealloc pagetable a oldsz s) (\<lambda>(_, s). Inr (0, s))
         else
           let s = s\<lparr>pmem := memset mem 0 PGSIZE (pmem s)\<rparr> in
           kbind (mappages pagetable a PGSIZE mem uvm_perm s) (\<lambda>(r, s).
             if r \<noteq> 0 then
               kbind (kfree mem s) (\<lambda>s.
               kbind (uvmdealloc pagetable a oldsz s) (\<lambda>(_, s). Inr (0, s)))
             else uvmalloc_loop pagetable (a + PGSIZE) oldsz newsz s))
      else Inr (newsz, s))"
  by pat_completeness auto
termination
  by (relation "measure (\<lambda>(pt, a, ol, n, s). 0x200000 - unat a)")
    (auto dest!: mappages_Inr_lt simp: PGSIZE_def)

declare uvmalloc_loop.simps [simp del]

definition uvmalloc :: "u64 \<Rightarrow> u64 \<Rightarrow> u64 \<Rightarrow> 'a kmem_scheme \<Rightarrow> (u64 \<times> 'a kmem_scheme) res" where
  "uvmalloc pagetable oldsz newsz s =
     (if newsz < oldsz then Inr (oldsz, s)
      else uvmalloc_loop pagetable (PGROUNDUP oldsz) (PGROUNDUP oldsz) newsz s)"

section \<open>Freeing and copying address spaces\<close>

text \<open>
  \<open>freewalk\<close> recurses without a level argument. The fuel is the depth of the table; a
  deeper (cyclic) table would recurse forever, which is \<open>Diverge\<close>.
\<close>

definition freewalk_entry ::
  "(u64 \<Rightarrow> 'a kmem_scheme \<Rightarrow> 'a kmem_scheme res) \<Rightarrow> u64 \<Rightarrow> nat \<Rightarrow> 'a kmem_scheme \<Rightarrow> 'a kmem_scheme res" where
  "freewalk_entry recurse pagetable i s =
     (let pte = load64 (pmem s) (pagetable + of_nat (8 * i)) in
      if pte AND PTE_V \<noteq> 0 \<and> PTE_FLAGS pte = PTE_V then
        kbind (recurse (PTE2PA pte OR DMWIN_MASK) s) (\<lambda>s.
        Inr (s\<lparr>pmem := store64 (pmem s) (pagetable + of_nat (8 * i)) 0\<rparr>))
      else if pte AND PTE_V \<noteq> 0 then Inl (Panic ''freewalk: leaf'')
      else Inr s)"

primrec freewalk :: "nat \<Rightarrow> u64 \<Rightarrow> 'a kmem_scheme \<Rightarrow> 'a kmem_scheme res" where
  "freewalk 0 pagetable s = Inl Diverge"
| "freewalk (Suc n) pagetable s =
     kbind (kfor (freewalk_entry (freewalk n) pagetable) [0..<512] s) (\<lambda>s. kfree pagetable s)"

definition uvmfree :: "u64 \<Rightarrow> u64 \<Rightarrow> 'a kmem_scheme \<Rightarrow> 'a kmem_scheme res" where
  "uvmfree pagetable sz s =
     kbind (if sz > 0 then uvmunmap pagetable 0 (PGROUNDUP sz div PGSIZE) True s else Inr s)
       (\<lambda>s. freewalk 4 pagetable s)"

text \<open>\<open>flags\<close> is a 32-bit \<open>uint\<close> in the source, so the high flag bits are lost.\<close>

definition uint_flags :: "u64 \<Rightarrow> u64" where
  "uint_flags pte = ucast (ucast (PTE_FLAGS pte) :: u32)"

function uvmcopy_loop ::
  "u64 \<Rightarrow> u64 \<Rightarrow> u64 \<Rightarrow> u64 \<Rightarrow> 'a kmem_scheme \<Rightarrow> (int \<times> 'a kmem_scheme) res" where
  "uvmcopy_loop old new i sz s =
     (if i < sz then
        kbind (walk old i False s) (\<lambda>(pte, s).
          if pte = 0 then Inl (Panic ''uvmcopy: pte should exist'')
          else if load64 (pmem s) pte AND PTE_V = 0 then Inl (Panic ''uvmcopy: page not present'')
          else
            let pa = PTE2PA (load64 (pmem s) pte);
                flags = uint_flags (load64 (pmem s) pte)
            in case kalloc s of (mem, s) \<Rightarrow>
              if mem = 0 then
                kbind (uvmunmap new 0 (i div PGSIZE) True s) (\<lambda>s. Inr (- 1, s))
              else
                let s = s\<lparr>pmem := memmove mem (pa OR DMWIN_MASK) PGSIZE (pmem s)\<rparr> in
                kbind (mappages new i PGSIZE mem flags s) (\<lambda>(r, s).
                  if r \<noteq> 0 then
                    kbind (kfree mem s) (\<lambda>s.
                    kbind (uvmunmap new 0 (i div PGSIZE) True s) (\<lambda>s. Inr (- 1, s)))
                  else uvmcopy_loop old new (i + PGSIZE) sz s))
      else Inr (0, s))"
  by pat_completeness auto
termination
  by (relation "measure (\<lambda>(old, new, i, sz, s). 0x200000 - unat i)")
    (auto dest!: walk_Inr_lt simp: PGSIZE_def)

declare uvmcopy_loop.simps [simp del]

definition uvmcopy :: "u64 \<Rightarrow> u64 \<Rightarrow> u64 \<Rightarrow> 'a kmem_scheme \<Rightarrow> (int \<times> 'a kmem_scheme) res" where
  "uvmcopy old new sz s = uvmcopy_loop old new 0 sz s"

definition uvmclear :: "u64 \<Rightarrow> u64 \<Rightarrow> 'a kmem_scheme \<Rightarrow> 'a kmem_scheme res" where
  "uvmclear pagetable va s =
     kbind (walk pagetable va False s) (\<lambda>(pte, s).
       if pte = 0 then Inl (Panic ''uvmclear'')
       else Inr (s\<lparr>pmem := store64 (pmem s) pte (load64 (pmem s) pte AND NOT PTE_PLV)\<rparr>))"

section \<open>Copying between kernel and user memory\<close>

text \<open>The bytes one iteration of the copying loops moves: to the end of the page, at most
  what is left.\<close>

definition chunk :: "u64 \<Rightarrow> nat \<Rightarrow> nat" where
  "chunk va len =
     (let n = unat (PGSIZE - (va - PGROUNDDOWN va)) in if n > len then len else n)"

lemma unat_page_offset: "unat (va - PGROUNDDOWN va) = unat va mod 4096"
proof -
  have "PGROUNDDOWN va \<le> va" by (simp add: word_le_nat_alt unat_PGROUNDDOWN)
  then have "unat (va - PGROUNDDOWN va) = unat va - unat va div 4096 * 4096"
    by (simp add: unat_sub unat_PGROUNDDOWN)
  then show ?thesis by (simp add: minus_div_mult_eq_mod)
qed

lemma unat_page_rest: "unat (4096 - (va - PGROUNDDOWN va)) = 4096 - unat va mod 4096"
proof -
  have "va - PGROUNDDOWN va \<le> 4096"
    unfolding word_le_nat_alt unat_page_offset by (simp add: less_imp_le)
  then show ?thesis by (simp add: unat_sub unat_page_offset)
qed

lemma chunk_eq: "chunk va len = min (4096 - unat va mod 4096) len"
  by (simp add: chunk_def Let_def PGSIZE_def unat_page_rest min_def)

lemma chunk_pos: "0 < len \<Longrightarrow> 0 < chunk va len"
  by (simp add: chunk_eq)

function copyout ::
  "u64 \<Rightarrow> u64 \<Rightarrow> byte list \<Rightarrow> 'a kmem_scheme \<Rightarrow> (int \<times> 'a kmem_scheme) res" where
  "copyout pagetable dstva src s =
     (if src = [] then Inr (0, s)
      else
        let va0 = PGROUNDDOWN dstva in
        kbind (walkaddr pagetable va0 s) (\<lambda>pa0.
          if pa0 = 0 then Inr (- 1, s)
          else
            let n = chunk dstva (length src);
                dst = (pa0 + (dstva - va0)) OR DMWIN_MASK
            in copyout pagetable (va0 + PGSIZE) (drop n src)
                 (s\<lparr>pmem := store_bytes (pmem s) dst (take n src)\<rparr>)))"
  by pat_completeness auto
termination
  by (relation "measure (\<lambda>(pt, va, src, s). length src)") (auto simp: chunk_pos)

declare copyout.simps [simp del]

text \<open>\<open>copyin\<close> and \<open>copyinstr\<close> return the bytes they have put at \<open>dst\<close>.\<close>

function copyin ::
  "u64 \<Rightarrow> u64 \<Rightarrow> nat \<Rightarrow> 'a kmem_scheme \<Rightarrow> (int \<times> byte list) res" where
  "copyin pagetable srcva len s =
     (if len = 0 then Inr (0, [])
      else
        let va0 = PGROUNDDOWN srcva in
        kbind (walkaddr pagetable va0 s) (\<lambda>pa0.
          if pa0 = 0 then Inr (- 1, [])
          else
            let n = chunk srcva len;
                bs = load_bytes (pmem s) ((pa0 + (srcva - va0)) OR DMWIN_MASK) n
            in kbind (copyin pagetable (va0 + PGSIZE) (len - n) s) (\<lambda>(r, rest).
               Inr (r, bs @ rest))))"
  by pat_completeness auto
termination
  by (relation "measure (\<lambda>(pt, va, len, s). len)") (auto simp: chunk_pos)

declare copyin.simps [simp del]

fun copystr_chunk :: "byte list \<Rightarrow> byte list \<times> bool" where
  "copystr_chunk [] = ([], False)"
| "copystr_chunk (b # bs) =
     (if b = 0 then ([0], True)
      else case copystr_chunk bs of (ds, got_null) \<Rightarrow> (b # ds, got_null))"

function copyinstr ::
  "u64 \<Rightarrow> u64 \<Rightarrow> nat \<Rightarrow> 'a kmem_scheme \<Rightarrow> (int \<times> byte list) res" where
  "copyinstr pagetable srcva maxn s =
     (if maxn = 0 then Inr (- 1, [])
      else
        let va0 = PGROUNDDOWN srcva in
        kbind (walkaddr pagetable va0 s) (\<lambda>pa0.
          if pa0 = 0 then Inr (- 1, [])
          else
            let n = chunk srcva maxn;
                bs = load_bytes (pmem s) ((pa0 + (srcva - va0)) OR DMWIN_MASK) n
            in case copystr_chunk bs of (ds, got_null) \<Rightarrow>
               if got_null then Inr (0, ds)
               else kbind (copyinstr pagetable (va0 + PGSIZE) (maxn - n) s) (\<lambda>(r, rest).
                 Inr (r, ds @ rest))))"
  by pat_completeness auto
termination
  by (relation "measure (\<lambda>(pt, va, maxn, s). maxn)") (auto simp: chunk_pos)

declare copyinstr.simps [simp del]

section \<open>Entries that point to RAM pages\<close>

lemma ram_page_window:
  assumes "ram_page p"
  shows "p AND NOT PAMASK = DMWIN_MASK"
proof -
  have b: "0x9000000090000000 \<le> unat p" "unat p < 0x9000000098000000" "unat p mod 4096 = 0"
    using assms by (simp_all add: ram_page_def RAMBASE_num RAMSTOP_num page_aligned_def
        word_le_nat_alt word_less_nat_alt)
  have "unat (drop_bit 48 p) = unat p div 2 ^ 48"
    by (simp add: drop_bit_eq_div unat_div)
  also have "\<dots> = 0x9000" using b(1,2) by (intro div_nat_eqI) simp_all
  finally have hi: "drop_bit 48 p = 0x9000" by (simp add: word_unat_eq_iff)
  have "unat (take_bit 12 p) = 0"
    using b(3) by (simp add: take_bit_eq_mod unat_mod)
  then have lo: "take_bit 12 p = 0" by (simp only: unat_eq_0)
  show ?thesis
  proof (rule bit_word_eqI)
    fix n
    assume n: "n < LENGTH(64)"
    have P: "bit PAMASK n \<longleftrightarrow> 12 \<le> n \<and> n < 48"
    proof -
      have "PAMASK = push_bit 12 (mask 36)" by (simp add: PAMASK_def mask_eq_exp_minus_1)
      then have "bit PAMASK n \<longleftrightarrow> bit (push_bit 12 (mask 36) :: u64) n" by (simp only:)
      then show ?thesis using n by (auto simp: bit_simps)
    qed
    have D: "bit DMWIN_MASK n \<longleftrightarrow> 48 \<le> n \<and> bit (0x9000 :: u64) (n - 48)"
    proof -
      have "DMWIN_MASK = push_bit 48 0x9000" by (simp add: DMWIN_MASK_def)
      then have "bit DMWIN_MASK n \<longleftrightarrow> bit (push_bit 48 0x9000 :: u64) n" by (simp only:)
      also have "\<dots> \<longleftrightarrow> 48 \<le> n \<and> bit (0x9000 :: u64) (n - 48)"
        using n unfolding bit_push_bit_iff by auto
      finally show ?thesis .
    qed
    consider "n < 12" | "12 \<le> n \<and> n < 48" | "48 \<le> n" by linarith
    then show "bit (p AND NOT PAMASK) n \<longleftrightarrow> bit DMWIN_MASK n"
    proof cases
      case 1
      have "bit p n = bit (take_bit 12 p) n" using 1 by (simp add: bit_simps)
      with 1 P D lo show ?thesis by (simp add: bit_simps)
    next
      case 2
      with P D show ?thesis by (simp add: bit_simps)
    next
      case 3
      have "bit p n = bit (drop_bit 48 p) (n - 48)" using 3 by (simp add: bit_simps)
      with 3 P D hi n show ?thesis by (simp add: bit_simps)
    qed
  qed
qed

lemma PTE2PA_entry:
  assumes "ram_page p" "flags AND PAMASK = 0"
  shows "PTE2PA (PA2PTE p OR flags) OR DMWIN_MASK = p"
proof -
  have "PTE2PA (PA2PTE p OR flags) = p AND PAMASK OR flags AND PAMASK"
    unfolding PTE2PA_def PA2PTE_def by (auto intro!: bit_word_eqI simp: bit_simps)
  also have "\<dots> OR DMWIN_MASK = (p AND PAMASK) OR (p AND NOT PAMASK)"
    by (simp add: assms(2) ram_page_window [OF assms(1)])
  also have "\<dots> = p" by (auto intro!: bit_word_eqI simp: bit_simps)
  finally show ?thesis .
qed

lemma entry_flags: "PTE_FLAGS (PA2PTE p OR flags) = PTE_FLAGS flags"
proof -
  have "PTE_FLAGS (PA2PTE p OR flags) = p AND (PAMASK AND 0xE0000000000001FF) OR PTE_FLAGS flags"
    unfolding PTE_FLAGS_def PA2PTE_def by (auto intro!: bit_word_eqI simp: bit_simps)
  also have "PAMASK AND 0xE0000000000001FF = 0" by (simp add: PAMASK_def)
  finally show ?thesis by simp
qed

lemma PTE_V_AND: "PTE_V AND PAMASK = 0" "PTE_FLAGS PTE_V = PTE_V" "PTE_V \<noteq> 0"
  by (simp_all add: pte_bits PTE_FLAGS_def)

lemma entry_valid: "(x OR PTE_V) AND PTE_V = PTE_V"
  by (auto intro!: bit_word_eqI simp: bit_simps)

section \<open>The abstraction of a page table\<close>

text \<open>
  Virtual addresses are below \<open>MAXVA = 2 ^ 20\<close>, so the upper three levels are always indexed
  at 0 and a table is a chain of at most four pages. \<open>pte_val\<close> is the leaf entry of a
  virtual page number.
\<close>

definition next_table :: "mem \<Rightarrow> u64 \<Rightarrow> u64" where
  "next_table m pt = PTE2PA (load64 m pt) OR DMWIN_MASK"

fun pt_pages :: "nat \<Rightarrow> mem \<Rightarrow> u64 \<Rightarrow> u64 list" where
  "pt_pages 0 m pt = [pt]"
| "pt_pages (Suc l) m pt =
     pt # (if load64 m pt AND PTE_V \<noteq> 0 then pt_pages l m (next_table m pt) else [])"

fun leaf_table :: "nat \<Rightarrow> mem \<Rightarrow> u64 \<Rightarrow> u64 option" where
  "leaf_table 0 m pt = Some pt"
| "leaf_table (Suc l) m pt =
     (if load64 m pt AND PTE_V \<noteq> 0 then leaf_table l m (next_table m pt) else None)"

fun pt_ok :: "nat \<Rightarrow> mem \<Rightarrow> u64 \<Rightarrow> bool" where
  "pt_ok 0 m pt \<longleftrightarrow> ram_page pt"
| "pt_ok (Suc l) m pt \<longleftrightarrow>
     ram_page pt \<and> (\<forall>i\<in>{1..<512}. load64 m (pt + of_nat (8 * i)) = 0) \<and>
     (load64 m pt = 0 \<or>
      (\<exists>q. load64 m pt = PA2PTE q OR PTE_V \<and> ram_page q \<and> pt_ok l m q))"

definition pte_at :: "nat \<Rightarrow> mem \<Rightarrow> u64 \<Rightarrow> nat \<Rightarrow> u64" where
  "pte_at l m pt i =
     (case leaf_table l m pt of None \<Rightarrow> 0 | Some t \<Rightarrow> load64 m (t + of_nat (8 * i)))"

definition pte_val :: "mem \<Rightarrow> u64 \<Rightarrow> nat \<Rightarrow> u64" where
  "pte_val m root i = pte_at 3 m root i"

lemma next_table_entry:
  "load64 m pt = PA2PTE q OR PTE_V \<Longrightarrow> ram_page q \<Longrightarrow>
     next_table m pt = q \<and> load64 m pt AND PTE_V \<noteq> 0"
  by (simp add: next_table_def PTE2PA_entry entry_valid PTE_V_AND)

lemma pt_ok_ram: "pt_ok l m pt \<Longrightarrow> q \<in> set (pt_pages l m pt) \<Longrightarrow> ram_page q"
proof (induction l arbitrary: pt)
  case (Suc l)
  then show ?case by (auto simp: next_table_entry split: if_splits)
qed simp

lemma leaf_in_pages: "leaf_table l m pt = Some t \<Longrightarrow> t \<in> set (pt_pages l m pt)"
  by (induction l arbitrary: pt) (auto split: if_splits)

lemma pt_frame:
  assumes "\<forall>q\<in>set (pt_pages l m pt). same_page m m' q"
  shows "pt_pages l m' pt = pt_pages l m pt" "leaf_table l m' pt = leaf_table l m pt"
    "pt_ok l m pt \<Longrightarrow> pt_ok l m' pt"
  using assms
proof (induction l arbitrary: pt)
  case (Suc l)
  { case 1
    then have e: "load64 m' pt = load64 m pt" using load64_same_page [of m m' pt 0] by simp
    with 1 Suc(1) show ?case by (simp add: next_table_def) }
  { case 2
    then have e: "load64 m' pt = load64 m pt" using load64_same_page [of m m' pt 0] by simp
    with 2 Suc(2) show ?case by (simp add: next_table_def) }
  { case 3
    then have s: "same_page m m' pt" by simp
    then have e: "load64 m' pt = load64 m pt" using load64_same_page [of m m' pt 0] by simp
    have z: "load64 m' (pt + of_nat (8 * i)) = load64 m (pt + of_nat (8 * i))" if "i < 512" for i
      using load64_same_page [OF s, of "8 * i"] that by simp
    show ?case
    proof (cases "load64 m pt = 0")
      case True
      with 3 z e show ?thesis by simp
    next
      case False
      with 3 obtain q where q: "load64 m pt = PA2PTE q OR PTE_V" "ram_page q" "pt_ok l m q" by auto
      with 3(2) have "\<forall>q\<in>set (pt_pages l m q). same_page m m' q"
        using next_table_entry [OF q(1,2)] by simp
      with q Suc(3) have "pt_ok l m' q" by simp
      with 3 q z e show ?thesis by auto
    qed }
qed auto

lemma pte_at_frame:
  assumes "\<forall>q\<in>set (pt_pages l m pt). same_page m m' q" "i < 512"
  shows "pte_at l m' pt i = pte_at l m pt i"
proof (cases "leaf_table l m pt")
  case None
  with pt_frame(2) [OF assms(1)] show ?thesis by (simp add: pte_at_def)
next
  case (Some t)
  with assms have "same_page m m' t" by (simp add: leaf_in_pages)
  with Some pt_frame(2) [OF assms(1)] assms(2) load64_same_page [of m m' t "8 * i"]
  show ?thesis by (simp add: pte_at_def)
qed

lemma PX_0: "va < MAXVA \<Longrightarrow> 8 * PX 0 va = of_nat (8 * (unat va div 4096))"
proof -
  assume "va < MAXVA"
  then have lt: "unat va < 0x100000" by (simp add: MAXVA_def word_less_nat_alt)
  have "PX 0 va = take_bit 9 (drop_bit 12 va)"
    by (simp add: PX_def PXSHIFT_def take_bit_eq_mask mask_eq_exp_minus_1)
  then have "unat (PX 0 va) = unat va div 4096 mod 512"
    by (simp add: take_bit_eq_mod drop_bit_eq_div unat_mod unat_div)
  also have "\<dots> = unat va div 4096" using lt by simp
  finally have "PX 0 va = of_nat (unat va div 4096)" by (metis word_unat_eq_iff unat_of_nat_eq unsigned_less)
  then show ?thesis by simp
qed

lemma PX_Suc: "va < MAXVA \<Longrightarrow> PX (Suc l) va = 0"
proof -
  assume "va < MAXVA"
  then have lt: "unat va < 0x100000" by (simp add: MAXVA_def word_less_nat_alt)
  have "unat (drop_bit 21 va) = unat va div 2 ^ 21" by (simp add: drop_bit_eq_div unat_div)
  also have "\<dots> = 0" using lt by simp
  finally have "drop_bit 21 va = 0" by (simp only: unat_eq_0)
  then have "drop_bit (9 * l) (drop_bit 21 va) = 0" by simp
  then have "drop_bit (PXSHIFT (Suc l)) va = 0" by (simp add: PXSHIFT_def ac_simps)
  then show ?thesis by (simp add: PX_def)
qed

lemma walk_level_noalloc:
  assumes "va < MAXVA"
  shows "walk_level l pt va False s =
    (case leaf_table l (pmem s) pt of None \<Rightarrow> 0 | Some t \<Rightarrow> t + of_nat (8 * (unat va div 4096)), s)"
  by (induction l arbitrary: pt)
    (use assms in \<open>simp_all add: PX_0 PX_Suc Let_def next_table_def del: of_nat_mult\<close>)

end
