(* ===== verification/VmSafety.thy ===== *)
theory VmSafety
  imports Vm
begin

text \<open>
  The correctness of \<open>kernel/vm.c\<close>: walking with allocation adds table pages taken from the
  free list and changes no mapping; \<open>mappages\<close> sets exactly the requested entries;
  \<open>uvmalloc\<close>, \<open>uvmdealloc\<close>, \<open>uvmcopy\<close> and \<open>uvmfree\<close> keep every page either in one
  address space or on the free list; copying to user memory and back is the identity.
\<close>

section \<open>Walking with allocation\<close>

lemma bytes_word_zero [simp]: "bytes_word (replicate n 0) = 0"
  by (induction n) simp_all

lemma memset_zero_load64:
  assumes "page_aligned p" "i < 512"
  shows "load64 (memset p 0 4096 m) (p + of_nat (8 * i)) = 0"
proof -
  have "load_bytes (memset p 0 4096 m) (p + of_nat (8 * i)) 8 = replicate 8 0"
  proof (rule nth_equalityI)
    fix j
    assume "j < length (load_bytes (memset p 0 4096 m) (p + of_nat (8 * i)) 8)"
    then have j: "j < 8" by simp
    have "memset p 0 4096 m (p + of_nat (8 * i + j)) = 0"
      using assms j by (intro memset_page) simp_all
    then show "load_bytes (memset p 0 4096 m) (p + of_nat (8 * i)) 8 ! j = replicate 8 0 ! j"
      using j by (simp add: ac_simps)
  qed simp
  then show ?thesis by (simp only: load64_def bytes_word_zero)
qed

lemma zero_table:
  assumes "ram_page p" "\<forall>i<512. load64 m (p + of_nat (8 * i)) = 0"
  shows "pt_ok l m p" "pt_pages l m p = [p]" "i < 512 \<Longrightarrow> pte_at l m p i = 0"
proof -
  have "load64 m p = 0" using assms(2) [rule_format, of 0] by simp
  then show "pt_ok l m p" "pt_pages l m p = [p]" "i < 512 \<Longrightarrow> pte_at l m p i = 0"
    using assms by (cases l; simp add: pte_at_def)+
qed

lemma ram_plus_nonzero: "ram_page t \<Longrightarrow> i < 512 \<Longrightarrow> t + of_nat (8 * i) \<noteq> 0"
proof -
  assume "ram_page t" "i < 512"
  then have "unat (t + of_nat (8 * i)) = unat t + 8 * i" by (intro page_plus_no_wrap) simp_all
  moreover have "unat t \<noteq> 0" using \<open>ram_page t\<close> by (simp add: unat_eq_0)
  ultimately show ?thesis by auto
qed

lemma vpn_lt: "va < MAXVA \<Longrightarrow> unat va div 4096 < 256"
  by (simp add: MAXVA_def word_less_nat_alt div_less_iff_less_mult)

lemma walk_level_present:
  assumes "leaf_table l (pmem s) pt = Some t" "va < MAXVA"
  shows "walk_level l pt va alloc s = (t + of_nat (8 * (unat va div 4096)), s)"
  using assms(1)
  by (induction l arbitrary: pt)
    (use assms(2) in \<open>auto simp: PX_0 PX_Suc Let_def next_table_def simp del: of_nat_mult split: if_splits\<close>)

text \<open>What a walk with allocation has done to the state.\<close>

definition walked :: "nat \<Rightarrow> u64 \<Rightarrow> nat \<Rightarrow> 'a kmem_scheme \<Rightarrow> u64 list \<Rightarrow> u64 \<Rightarrow>
    'a kmem_scheme \<Rightarrow> u64 list \<Rightarrow> u64 list \<Rightarrow> bool" where
  "walked l pt vpn s ps a s' used ps' \<longleftrightarrow>
     ps = used @ ps' \<and> kmem_inv s' ps' \<and> pt_ok l (pmem s') pt \<and>
     pt_pages l (pmem s') pt = pt_pages l (pmem s) pt @ used \<and>
     (\<forall>q. page_aligned q \<and> q \<notin> set (pt_pages l (pmem s) pt) \<union> set used \<longrightarrow>
          same_page (pmem s) (pmem s') q) \<and>
     (\<forall>i<512. pte_at l (pmem s') pt i = pte_at l (pmem s) pt i) \<and>
     (if a = 0 then ps' = []
      else \<exists>t. leaf_table l (pmem s') pt = Some t \<and> a = t + of_nat (8 * vpn)) \<and>
     kmem.more s' = kmem.more s"

lemma walked_existing:
  assumes "walked l q vpn s ps a s' used ps'" "load64 (pmem s) pt = PA2PTE q OR PTE_V"
    "ram_page q" "ram_page pt" "pt \<notin> set (pt_pages l (pmem s) q)" "pt \<notin> set ps"
    "pt_ok (Suc l) (pmem s) pt"
  shows "walked (Suc l) pt vpn s ps a s' used ps'"
proof -
  from assms have same: "same_page (pmem s) (pmem s') pt" by (auto simp: walked_def)
  have ld: "load64 (pmem s') (pt + of_nat (8 * i)) = load64 (pmem s) (pt + of_nat (8 * i))"
    if "i < 512" for i
    using load64_same_page [OF same, of "8 * i"] that by simp
  have e: "load64 (pmem s') pt = PA2PTE q OR PTE_V" using ld [of 0] assms(2) by simp
  note n = next_table_entry [OF assms(2,3)] and n' = next_table_entry [OF e assms(3)]
  have ok: "pt_ok (Suc l) (pmem s') pt" using assms(1,3,7) e ld by (auto simp: walked_def)
  have pt: "pte_at (Suc l) (pmem s) pt i = pte_at l (pmem s) q i"
    "pte_at (Suc l) (pmem s') pt i = pte_at l (pmem s') q i" for i
    using n n' by (simp_all add: pte_at_def)
  show ?thesis using assms(1) n n' unfolding walked_def pt by (auto simp: ok simp del: pt_ok.simps)
qed

lemma walked_fresh:
  assumes inv: "kmem_inv s (p # ps)" and ok: "pt_ok (Suc l) (pmem s) pt"
    and dis: "pt \<notin> set (p # ps)" and z: "load64 (pmem s) pt = 0"
    and al: "kalloc s = (p, s1)"
    and s3: "s3 = s1\<lparr>pmem := store64 (memset p 0 4096 (pmem s1)) pt (PA2PTE p OR PTE_V)\<rparr>"
    and w: "walked l p vpn s3 ps a s' used ps'"
  shows "walked (Suc l) pt vpn s (p # ps) a s' (p # used) ps'"
proof -
  from inv have p: "ram_page p" by (auto dest: ka.inv_ram)
  from ok have pt: "ram_page pt" by simp
  from dis have ne: "p \<noteq> pt" by auto
  obtain a1: "\<And>q. page_aligned q \<Longrightarrow> q \<noteq> p \<Longrightarrow> same_page (pmem s) (pmem s1) q"
    using ka.alloc_some [OF inv] al by auto
  let ?m2 = "memset p 0 4096 (pmem s1)"
  have m2: "same_page (pmem s) ?m2 q" if "page_aligned q" "q \<noteq> p" for q
    using a1 [OF that] memset_other_page [OF that(1) _ that(2)] p by (blast intro: same_page_trans ram_page_aligned)
  have m3: "same_page ?m2 (pmem s3) q" if "page_aligned q" "q \<noteq> pt" for q
    using store64_other_page [OF that(1) _ that(2), of 0] pt by (simp add: s3)
  have z3: "\<forall>i<512. load64 (pmem s3) (p + of_nat (8 * i)) = 0"
  proof (intro allI impI)
    fix i :: nat
    assume "i < 512"
    then have "load64 (pmem s3) (p + of_nat (8 * i)) = load64 ?m2 (p + of_nat (8 * i))"
      using p ne by (intro load64_same_page m3) simp_all
    then show "load64 (pmem s3) (p + of_nat (8 * i)) = 0"
      using memset_zero_load64 [of p i] p \<open>i < 512\<close> by simp
  qed
  note zt = zero_table [OF p z3]
  have same: "same_page (pmem s3) (pmem s') pt"
    using w ne dis pt by (auto simp: walked_def zt(2))
  have e: "load64 (pmem s') pt = PA2PTE p OR PTE_V"
    using load64_same_page [OF same, of 0] by (simp add: s3)
  have rest: "load64 (pmem s') (pt + of_nat (8 * i)) = 0" if "i \<in> {1..<512}" for i
  proof -
    have "load64 (pmem s') (pt + of_nat (8 * i)) = load64 (pmem s3) (pt + of_nat (8 * i))"
      using that by (intro load64_same_page [OF same]) simp
    also have "\<dots> = load64 ?m2 (pt + of_nat (8 * i))"
      using load64_store64_same_page_other [of pt 0 "8 * i"] that pt by (simp add: s3)
    also have "\<dots> = load64 (pmem s) (pt + of_nat (8 * i))"
      using that pt ne by (intro load64_same_page m2) auto
    finally show ?thesis using ok that by simp
  qed
  note n' = next_table_entry [OF e p]
  have ok': "pt_ok (Suc l) (pmem s') pt" using w p pt e rest by (auto simp: walked_def)
  have pte: "pte_at (Suc l) (pmem s) pt i = 0" "pte_at (Suc l) (pmem s') pt i = pte_at l (pmem s') p i" for i
    using z n' by (simp_all add: pte_at_def)
  have fr: "same_page (pmem s) (pmem s') q"
    if "page_aligned q" "q \<noteq> pt" "q \<noteq> p" "q \<notin> set used" for q
    using m2 [OF that(1,3)] m3 [OF that(1,2)] w that
    by (auto simp: walked_def zt(2) intro: same_page_trans)
  have mo: "kmem.more s3 = kmem.more s"
    using al kalloc_some [OF inv] by (auto simp: s3)
  have lf: "leaf_table (Suc l) (pmem s') pt = leaf_table l (pmem s') p" using n' by simp
  have pg: "pt_pages (Suc l) (pmem s') pt = pt # p # used"
    "pt_pages (Suc l) (pmem s) pt = [pt]"
    using w n' z by (simp_all add: walked_def zt(2))
  show ?thesis
    using w unfolding walked_def pg pte lf mo by (auto simp: ok' fr zt(2,3) simp del: pt_ok.simps)
qed

lemma walk_level_alloc:
  assumes "va < MAXVA" "kmem_inv s ps" "pt_ok l (pmem s) pt"
    "distinct (pt_pages l (pmem s) pt @ ps)" "walk_level l pt va True s = (a, s')"
  shows "\<exists>used ps'. walked l pt (unat va div 4096) s ps a s' used ps'"
  using assms(2-)
proof (induction l arbitrary: pt s ps)
  case 0
  then have "a = pt + of_nat (8 * (unat va div 4096))" "s' = s"
    using PX_0 [OF assms(1)] by auto
  moreover have "a \<noteq> 0"
    using 0 vpn_lt [OF assms(1)] calculation(1) ram_plus_nonzero [of pt "unat va div 4096"] by simp
  ultimately have "walked 0 pt (unat va div 4096) s ps a s' [] ps"
    using 0 by (simp add: walked_def)
  then show ?case by blast
next
  case (Suc l)
  note PX_Suc [OF assms(1), of l, simp]
  show ?case
  proof (cases "load64 (pmem s) pt = 0")
    case False
    with Suc.prems(2) obtain q where
      q: "load64 (pmem s) pt = PA2PTE q OR PTE_V" "ram_page q" "pt_ok l (pmem s) q" by auto
    note n = next_table_entry [OF q(1,2)]
    from n have pg: "pt_pages (Suc l) (pmem s) pt = pt # pt_pages l (pmem s) q" by simp
    have "walk_level l q va True s = (a, s')"
      using Suc.prems(4) n by (simp add: Let_def next_table_def)
    moreover have dq: "distinct (pt # pt_pages l (pmem s) q @ ps)"
      using Suc.prems(3) unfolding pg by simp
    ultimately obtain used ps' where "walked l q (unat va div 4096) s ps a s' used ps'"
      using Suc.IH [OF Suc.prems(1) q(3)] by auto
    then have "walked (Suc l) pt (unat va div 4096) s ps a s' used ps'"
      using Suc.prems(2) dq q by (intro walked_existing) auto
    then show ?thesis by blast
  next
    case z: True
    show ?thesis
    proof (cases ps)
      case Nil
      with Suc.prems(1) have "kalloc s = (0, s)" by (auto dest: ka.alloc_none)
      with Suc.prems(4) z have "a = 0" "s' = s" by (simp_all add: Let_def)
      with Suc.prems Nil z have "walked (Suc l) pt (unat va div 4096) s ps a s' [] []"
        by (simp add: walked_def)
      then show ?thesis by blast
    next
      case (Cons p ps1)
      with Suc.prems(1) have inv: "kmem_inv s (p # ps1)" by simp
      obtain s1 where s1: "kalloc s = (p, s1)" "kmem_inv s1 ps1"
        using ka.alloc_some [OF inv] by blast
      define s3 where
        s3: "s3 = s1\<lparr>pmem := store64 (memset p 0 4096 (pmem s1)) pt (PA2PTE p OR PTE_V)\<rparr>"
      have p: "ram_page p" "p \<noteq> pt" "pt \<notin> set ps1" "ram_page pt" "p \<notin> set ps1"
        "\<forall>q\<in>set ps1. ram_page q"
        using inv Suc.prems(2,3) Cons by (auto simp: kmem_inv_def)
      have w: "walk_level l p va True s3 = (a, s')"
        using Suc.prems(4) z s1 p(1) by (simp add: Let_def s3 PGSIZE_def)
      have fr: "same_page (pmem s1) (pmem s3) q" if "page_aligned q" "q \<noteq> p" "q \<noteq> pt" for q
        using memset_other_page [of q p "pmem s1" 0] that p store64_other_page [of q pt 0]
        by (auto simp: s3 intro: same_page_trans)
      have "\<forall>q\<in>set ps1. same_page (pmem s1) (pmem s3) q"
        using fr p by (metis ram_page_aligned)
      then have inv3: "kmem_inv s3 ps1"
        using ka.inv_frame [OF s1(2), of "pmem s3"] by (simp add: s3)
      have z3: "\<forall>i<512. load64 (pmem s3) (p + of_nat (8 * i)) = 0"
      proof (intro allI impI)
        fix i :: nat
        assume i: "i < 512"
        have "same_page (memset p 0 4096 (pmem s1)) (pmem s3) p"
          using p store64_other_page [of p pt 0] by (simp add: s3)
        then have "load64 (pmem s3) (p + of_nat (8 * i)) =
            load64 (memset p 0 4096 (pmem s1)) (p + of_nat (8 * i))"
          using i by (intro load64_same_page) simp_all
        then show "load64 (pmem s3) (p + of_nat (8 * i)) = 0"
          using memset_zero_load64 [of p i] p i by simp
      qed
      note zt = zero_table [OF p(1) z3]
      have "distinct (pt_pages l (pmem s3) p @ ps1)"
        using inv by (simp add: zt(2) kmem_inv_def)
      with Suc.IH [OF inv3 zt(1) _ w] obtain used ps' where
        "walked l p (unat va div 4096) s3 ps1 a s' used ps'" by blast
      from walked_fresh [OF inv Suc.prems(2) _ z s1(1) s3 this] p show ?thesis
        unfolding Cons by auto
    qed
  qed
qed

section \<open>Updating one entry\<close>

definition vm_inv :: "'a kmem_scheme \<Rightarrow> u64 \<Rightarrow> u64 list \<Rightarrow> bool" where
  "vm_inv s root ps \<longleftrightarrow>
     kmem_inv s ps \<and> pt_ok 3 (pmem s) root \<and> distinct (pt_pages 3 (pmem s) root @ ps)"

abbreviation tables :: "'a kmem_scheme \<Rightarrow> u64 \<Rightarrow> u64 list" where
  "tables s root \<equiv> pt_pages 3 (pmem s) root"

lemma store64_tables:
  assumes "pt_ok l m pt" "distinct (pt_pages l m pt)" "leaf_table l m pt = Some t" "i < 512"
  shows "pt_pages l (store64 m (t + of_nat (8 * i)) v) pt = pt_pages l m pt \<and>
    leaf_table l (store64 m (t + of_nat (8 * i)) v) pt = Some t \<and>
    pt_ok l (store64 m (t + of_nat (8 * i)) v) pt"
  using assms(1-3)
proof (induction l arbitrary: pt)
  case (Suc l)
  let ?m' = "store64 m (t + of_nat (8 * i)) v"
  from Suc.prems(1,3) obtain q where
    q: "load64 m pt = PA2PTE q OR PTE_V" "ram_page q" "pt_ok l m q"
    by (auto split: if_splits)
  note n = next_table_entry [OF q(1,2)]
  from n Suc.prems have pg: "pt_pages (Suc l) m pt = pt # pt_pages l m q"
    and d: "distinct (pt # pt_pages l m q)" and t: "leaf_table l m q = Some t" by simp_all
  have "t \<in> set (pt_pages l m q)" using t by (rule leaf_in_pages)
  then have ne: "pt \<noteq> t" "ram_page t" using d q(3) by (auto intro: pt_ok_ram)
  have pt: "ram_page pt" using Suc.prems(1) by simp
  have ld: "load64 ?m' (pt + of_nat (8 * j)) = load64 m (pt + of_nat (8 * j))" if "j < 512" for j
    using ne pt assms(4) that
    by (intro load64_same_page store64_other_page) simp_all
  have e: "load64 ?m' pt = PA2PTE q OR PTE_V" using ld [of 0] q(1) by simp
  note n' = next_table_entry [OF e q(2)]
  have ih: "pt_pages l ?m' q = pt_pages l m q" "leaf_table l ?m' q = Some t" "pt_ok l ?m' q"
    using Suc.IH [OF q(3) _ t] d by simp_all
  have "pt_pages (Suc l) ?m' pt = pt # pt_pages l m q" using n' ih by simp
  moreover have "leaf_table (Suc l) ?m' pt = Some t" using n' ih by simp
  moreover have "\<forall>j\<in>{1..<512}. load64 ?m' (pt + of_nat (8 * j)) = 0"
    using ld Suc.prems(1) by auto
  then have "pt_ok (Suc l) ?m' pt" using pt q(2) ih(3) e by auto
  ultimately show ?case using pg by simp
qed simp

lemma set_pte:
  assumes inv: "vm_inv s root ps" and t: "leaf_table 3 (pmem s) root = Some t" and i: "i < 512"
    and s': "s' = s\<lparr>pmem := store64 (pmem s) (t + of_nat (8 * i)) v\<rparr>"
  shows "vm_inv s' root ps" "leaf_table 3 (pmem s') root = Some t" "tables s' root = tables s root"
    "\<forall>j<512. pte_val (pmem s') root j = (if j = i then v else pte_val (pmem s) root j)"
    "\<forall>q. page_aligned q \<and> q \<notin> set (tables s root) \<longrightarrow> same_page (pmem s) (pmem s') q"
proof -
  have tin: "t \<in> set (tables s root)" using t by (rule leaf_in_pages)
  then have tr: "ram_page t" using inv by (auto simp: vm_inv_def intro: pt_ok_ram)
  from store64_tables [of 3 "pmem s" root t i v] inv t i
  show tb: "tables s' root = tables s root" and lf: "leaf_table 3 (pmem s') root = Some t"
    by (simp_all add: vm_inv_def s')
  have ok: "pt_ok 3 (pmem s') root"
    using store64_tables [of 3 "pmem s" root t i v] inv t i by (simp add: vm_inv_def s')
  have fr: "same_page (pmem s) (pmem s') q" if "page_aligned q" "q \<noteq> t" for q
    using that tr i unfolding s' by (auto intro!: store64_other_page simp del: of_nat_mult)
  then show "\<forall>q. page_aligned q \<and> q \<notin> set (tables s root) \<longrightarrow> same_page (pmem s) (pmem s') q"
    using tin by auto
  have "t \<notin> set ps" "\<forall>q\<in>set ps. ram_page q"
    using inv tin by (auto simp: vm_inv_def kmem_inv_def)
  then have "\<forall>q\<in>set ps. same_page (pmem s) (pmem s') q"
    using fr by (metis ram_page_aligned)
  then have "kmem_inv s' ps"
    using ka.inv_frame [of s ps "pmem s'"] inv by (simp add: vm_inv_def s')
  then show "vm_inv s' root ps" using ok inv tb by (simp add: vm_inv_def)
  show "\<forall>j<512. pte_val (pmem s') root j = (if j = i then v else pte_val (pmem s) root j)"
  proof (intro allI impI)
    fix j :: nat
    assume j: "j < 512"
    have "load64 (pmem s') (t + of_nat (8 * j)) = load64 (pmem s) (t + of_nat (8 * j))" if "j \<noteq> i"
      unfolding s' using load64_store64_same_page_other [of t "8 * i" "8 * j"] that tr i j
      by (auto simp: linorder_neq_iff)
    moreover have "load64 (pmem s') (t + of_nat (8 * i)) = v" by (simp add: s')
    ultimately show "pte_val (pmem s') root j = (if j = i then v else pte_val (pmem s) root j)"
      using t lf by (auto simp: pte_val_def pte_at_def)
  qed
qed

section \<open>User address spaces\<close>

declare of_nat_mult [simp del]

text \<open>
  \<open>uvm_inv s root D ps\<close>: the tables below \<open>root\<close> map exactly the virtual pages \<open>D\<close> (and
  possibly the trapframe page, number 255) to distinct pages of RAM, which are neither
  table pages nor on the free list \<open>ps\<close>. \<open>uvm_step\<close> is what an operation on the address
  space leaves: no page is lost or gained, pages of others are untouched, and the
  mappings and contents of the virtual pages \<open>K\<close> are kept.
\<close>

definition upage :: "'a kmem_scheme \<Rightarrow> u64 \<Rightarrow> nat \<Rightarrow> u64" where
  "upage s root i = PTE2PA (pte_val (pmem s) root i) OR DMWIN_MASK"

definition uvm_inv :: "'a kmem_scheme \<Rightarrow> u64 \<Rightarrow> nat set \<Rightarrow> u64 list \<Rightarrow> bool" where
  "uvm_inv s root D ps \<longleftrightarrow>
     vm_inv s root ps \<and> D \<subseteq> {..<255} \<and> inj_on (upage s root) D \<and>
     (\<forall>i\<in>D. pte_val (pmem s) root i AND PTE_V \<noteq> 0 \<and> PTE_FLAGS (pte_val (pmem s) root i) \<noteq> PTE_V \<and>
        ram_page (upage s root i) \<and> upage s root i \<notin> set (tables s root) \<union> set ps) \<and>
     (\<forall>i<512. i \<notin> D \<and> i \<noteq> 255 \<longrightarrow> pte_val (pmem s) root i = 0)"

definition owned :: "'a kmem_scheme \<Rightarrow> u64 \<Rightarrow> nat set \<Rightarrow> u64 list \<Rightarrow> u64 set" where
  "owned s root D ps = set (tables s root) \<union> upage s root ` D \<union> set ps"

definition uvm_step :: "u64 \<Rightarrow> nat set \<Rightarrow> 'a kmem_scheme \<Rightarrow> nat set \<Rightarrow> u64 list \<Rightarrow>
    'a kmem_scheme \<Rightarrow> nat set \<Rightarrow> u64 list \<Rightarrow> bool" where
  "uvm_step root K s D ps s' D' ps' \<longleftrightarrow>
     uvm_inv s' root D' ps' \<and> owned s' root D' ps' = owned s root D ps \<and>
     (\<forall>q. page_aligned q \<and> q \<notin> owned s root D ps \<longrightarrow> same_page (pmem s) (pmem s') q) \<and>
     (\<forall>i\<in>K. pte_val (pmem s') root i = pte_val (pmem s) root i \<and>
        same_page (pmem s) (pmem s') (upage s root i)) \<and>
     pte_val (pmem s') root 255 = pte_val (pmem s) root 255 \<and>
     kmem.more s' = kmem.more s"

lemma uvm_step_refl: "uvm_inv s root D ps \<Longrightarrow> uvm_step root K s D ps s D ps"
  by (simp add: uvm_step_def)

lemma uvm_step_trans:
  assumes "uvm_step root K s D ps s1 D1 ps1" "uvm_step root K' s1 D1 ps1 s2 D2 ps2" "K'' \<subseteq> K \<inter> K'"
  shows "uvm_step root K'' s D ps s2 D2 ps2"
proof -
  have up: "upage s1 root i = upage s root i" if "i \<in> K" for i
    using assms(1) that by (simp add: uvm_step_def upage_def)
  show ?thesis
    using assms unfolding uvm_step_def
    by (auto intro: same_page_trans simp: up subset_iff)
      (metis up same_page_trans uvm_step_def)+
qed

lemma vpn_addr:
  assumes "i < 256"
  shows "unat (of_nat (4096 * i) :: u64) = 4096 * i" "(of_nat (4096 * i) :: u64) < MAXVA"
    "unat (of_nat (4096 * i) :: u64) div 4096 = i"
    "page_aligned (of_nat (4096 * i))" "PGROUNDDOWN (of_nat (4096 * i)) = of_nat (4096 * i)"
proof -
  show u: "unat (of_nat (4096 * i) :: u64) = 4096 * i"
    using assms by (intro unat_of_nat_eq) simp
  then show "(of_nat (4096 * i) :: u64) < MAXVA"
    using assms by (simp add: MAXVA_def word_less_nat_alt)
  show "unat (of_nat (4096 * i) :: u64) div 4096 = i" unfolding u by simp
  show al: "page_aligned (of_nat (4096 * i))" unfolding page_aligned_def u by simp
  show "PGROUNDDOWN (of_nat (4096 * i)) = of_nat (4096 * i)" using al by (rule PGROUNDDOWN_aligned)
qed

lemma PGROUNDDOWN_last:
  assumes "i < 256"
  shows "PGROUNDDOWN (of_nat (4096 * i) + 4096 - 1) = of_nat (4096 * i)"
  using PGROUNDDOWN_page_plus [OF vpn_addr(4) [OF assms], of 4095]
  by (simp add: algebra_simps)

text \<open>\<open>mappages\<close> of one page.\<close>

lemma mappages_one:
  assumes inv: "vm_inv s root ps" and i: "i < 256" and free: "pte_val (pmem s) root i AND PTE_V = 0"
  shows "\<exists>r s' used ps'. mappages root (of_nat (4096 * i)) 4096 p perm s = Inr (r, s') \<and>
     ps = used @ ps' \<and> vm_inv s' root ps' \<and> tables s' root = tables s root @ used \<and>
     (\<forall>q. page_aligned q \<and> q \<notin> set (tables s root) \<union> set ps \<longrightarrow> same_page (pmem s) (pmem s') q) \<and>
     kmem.more s' = kmem.more s \<and>
     (r = 0 \<and> (\<forall>j<512. pte_val (pmem s') root j =
         (if j = i then PA2PTE p OR perm OR PTE_V else pte_val (pmem s) root j)) \<or>
      r = - 1 \<and> ps' = [] \<and> (\<forall>j<512. pte_val (pmem s') root j = pte_val (pmem s) root j))"
proof -
  let ?a = "of_nat (4096 * i) :: u64"
  note va = vpn_addr [OF i]
  obtain a s1 where w: "walk_level 3 root ?a True s = (a, s1)" by force
  with walk_level_alloc [OF va(2), of s ps 3 root a s1] inv obtain used ps' where
    wd: "walked 3 root i s ps a s1 used ps'" by (auto simp: vm_inv_def va(3))
  then have inv1: "vm_inv s1 root ps'" using inv by (auto simp: walked_def vm_inv_def)
  have m: "mappages root ?a 4096 p perm s = mappages_loop root ?a ?a p perm s"
    using PGROUNDDOWN_last [OF i] va(5) by (simp add: mappages_def)
  have walk: "walk root ?a True s = Inr (a, s1)"
    using va(2) w by (simp add: walk_def)
  show ?thesis
  proof (cases "a = 0")
    case True
    then have "mappages root ?a 4096 p perm s = Inr (- 1, s1)"
      using walk by (simp add: m mappages_loop.simps)
    then show ?thesis using True wd inv1 unfolding walked_def pte_val_def
      by (intro exI [of _ "- 1"] exI [of _ s1] exI [of _ used] exI [of _ ps']) auto
  next
    case False
    then obtain t where t: "leaf_table 3 (pmem s1) root = Some t" "a = t + of_nat (8 * i)"
      using wd by (auto simp: walked_def)
    have pv: "\<forall>j<512. pte_val (pmem s1) root j = pte_val (pmem s) root j"
      using wd by (simp add: walked_def pte_val_def)
    then have "load64 (pmem s1) a AND PTE_V = 0"
      using free t i by (auto simp: pte_val_def pte_at_def dest!: spec [of _ i])
    define s2 where s2: "s2 = s1\<lparr>pmem := store64 (pmem s1) (t + of_nat (8 * i)) (PA2PTE p OR perm OR PTE_V)\<rparr>"
    have "mappages root ?a 4096 p perm s = Inr (0, s2)"
      using walk False \<open>load64 (pmem s1) a AND PTE_V = 0\<close> t(2)
      by (simp add: m mappages_loop.simps s2 Let_def)
    moreover note st = set_pte [OF inv1 t(1) _ s2]
    ultimately show ?thesis using wd i pv unfolding walked_def
      by (intro exI [of _ 0] exI [of _ s2] exI [of _ used] exI [of _ ps'])
        (auto simp: s2 intro: same_page_trans)
  qed
qed

text \<open>Allocating a page, filling it, and mapping it; on failure the page goes back.\<close>

lemma alloc_map:
  assumes inv: "uvm_inv s root D (p # ps)" and al: "kalloc s = (p, s1)"
    and fill: "\<forall>q. page_aligned q \<and> q \<noteq> p \<longrightarrow> same_page (pmem s1) m1 q"
    and i: "i < 255" "i \<notin> D"
    and perm: "perm AND PAMASK = 0" "PTE_FLAGS (perm OR PTE_V) \<noteq> PTE_V"
  shows "\<exists>r s2 ps2. mappages root (of_nat (4096 * i)) 4096 p perm (s1\<lparr>pmem := m1\<rparr>) = Inr (r, s2) \<and>
    (r = 0 \<and> uvm_step root D s D (p # ps) s2 (insert i D) ps2 \<and>
       pte_val (pmem s2) root i = PA2PTE p OR perm OR PTE_V \<and> upage s2 root i = p \<and>
       same_page m1 (pmem s2) p \<or>
     r = - 1 \<and> (\<exists>s3. kfree p s2 = Inr s3 \<and> uvm_step root D s D (p # ps) s3 D [p]))"
proof -
  let ?s1 = "s1\<lparr>pmem := m1\<rparr>"
  have kinv: "kmem_inv s (p # ps)" and pt: "pt_ok 3 (pmem s) root"
    and dis: "distinct (tables s root @ p # ps)" and v: "vm_inv s root (p # ps)"
    using inv by (auto simp: uvm_inv_def vm_inv_def)
  have p: "ram_page p" "p \<notin> set ps" "p \<notin> set (tables s root)"
    using kinv dis by (auto simp: kmem_inv_def)
  have psr: "\<forall>q\<in>set ps. ram_page q" and tr: "\<forall>q\<in>set (tables s root). ram_page q"
    using kinv pt by (auto simp: kmem_inv_def intro: pt_ok_ram)
  obtain inv1: "kmem_inv s1 ps"
    and fr1: "\<And>q. page_aligned q \<Longrightarrow> q \<noteq> p \<Longrightarrow> same_page (pmem s) (pmem s1) q"
    using ka.alloc_some [OF kinv] al by auto
  have fr: "same_page (pmem s) m1 q" if "page_aligned q" "q \<noteq> p" for q
    using fr1 [OF that] fill that by (blast intro: same_page_trans)
  have mo: "kmem.more ?s1 = kmem.more s" using al kalloc_some [OF kinv] by auto
  have tsame: "\<forall>q\<in>set (tables s root). same_page (pmem s) (pmem ?s1) q"
    using fr tr p by (metis kmem.select_convs(1) kmem.surjective kmem.update_convs(1) ram_page_aligned)
  note tf = pt_frame [OF tsame]
  have pv1: "pte_val (pmem ?s1) root j = pte_val (pmem s) root j" if "j < 512" for j
    using pte_at_frame [OF tsame that] by (simp add: pte_val_def)
  have "\<forall>q\<in>set ps. same_page (pmem s1) m1 q" using fill p psr by (metis ram_page_aligned)
  then have "kmem_inv ?s1 ps" using ka.inv_frame [OF inv1] by simp
  then have v1: "vm_inv ?s1 root ps" using tf(1) tf(3) [OF pt] dis by (simp add: vm_inv_def)
  have "pte_val (pmem ?s1) root i AND PTE_V = 0" using inv i pv1 [of i] by (simp add: uvm_inv_def)
  with mappages_one [OF v1, of i p perm] i obtain r s2 used ps2 where
    r: "mappages root (of_nat (4096 * i)) 4096 p perm ?s1 = Inr (r, s2)" and
    ps: "ps = used @ ps2" and v2: "vm_inv s2 root ps2" and t2: "tables s2 root = tables s root @ used" and
    fr2: "\<forall>q. page_aligned q \<and> q \<notin> set (tables s root) \<union> set ps \<longrightarrow> same_page m1 (pmem s2) q" and
    mo2: "kmem.more s2 = kmem.more s" and
    res: "r = 0 \<and> (\<forall>j<512. pte_val (pmem s2) root j =
         (if j = i then PA2PTE p OR perm OR PTE_V else pte_val m1 root j)) \<or>
      r = - 1 \<and> ps2 = [] \<and> (\<forall>j<512. pte_val (pmem s2) root j = pte_val m1 root j)"
    using tf(1) mo by auto
  have pv: "pte_val m1 root j = pte_val (pmem s) root j" if "j < 512" for j
    using pv1 [OF that] by simp
  have Dlt: "j < 512" "j \<noteq> 255" if "j \<in> D" for j using inv that by (auto simp: uvm_inv_def)
  have D: "ram_page (upage s root j)" "upage s root j \<notin> set (tables s root)" "upage s root j \<noteq> p"
    "upage s root j \<notin> set ps" if "j \<in> D" for j
    using inv that by (auto simp: uvm_inv_def)
  have keep: "same_page (pmem s) (pmem s2) q"
    if "page_aligned q" "q \<notin> set (tables s root)" "q \<notin> set ps" "q \<noteq> p" for q
    using fr [OF that(1,4)] fr2 that by (auto intro: same_page_trans)
  show ?thesis
  proof (cases "r = 0")
    case True
    with res have pv2: "pte_val (pmem s2) root j =
        (if j = i then PA2PTE p OR perm OR PTE_V else pte_val (pmem s) root j)" if "j < 512" for j
      using pv that by simp
    have upi: "upage s2 root i = p"
      using pv2 [of i] i PTE2PA_entry [OF p(1), of "perm OR PTE_V"] perm(1) PTE_V_AND(1)
      by (simp add: upage_def or.assoc bit.conj_disj_distrib2)
    have up: "upage s2 root j = upage s root j" if "j \<in> D" for j
      using pv2 [of j] Dlt [OF that] that i by (auto simp: upage_def)
    have inv2: "uvm_inv s2 root (insert i D) ps2"
      unfolding uvm_inv_def
    proof (intro conjI ballI allI impI)
      show "vm_inv s2 root ps2" by (rule v2)
      show "insert i D \<subseteq> {..<255}" using inv i by (auto simp: uvm_inv_def)
      show "inj_on (upage s2 root) (insert i D)"
      proof -
        have "inj_on (upage s2 root) D"
          using inv up inj_on_cong [of D "upage s2 root" "upage s root"] by (simp add: uvm_inv_def)
        moreover have "p \<notin> upage s2 root ` D" using up D(3) by fastforce
        ultimately show ?thesis using i(2) upi by (simp add: inj_on_insert)
      qed
    next
      fix j
      assume j: "j \<in> insert i D"
      show "pte_val (pmem s2) root j AND PTE_V \<noteq> 0"
        using j pv2 [of j] i inv Dlt by (auto simp: uvm_inv_def entry_valid PTE_V_AND or.assoc [symmetric] split: if_splits)
      show "PTE_FLAGS (pte_val (pmem s2) root j) \<noteq> PTE_V"
        using j pv2 [of j] i inv Dlt perm(2) by (auto simp: uvm_inv_def or.assoc entry_flags split: if_splits)
      show "ram_page (upage s2 root j)" using j upi p up D by auto
      show "upage s2 root j \<notin> set (tables s2 root) \<union> set ps2"
        using j upi p up D by (auto simp: t2 ps)
    next
      fix j :: nat
      assume "j < 512" "j \<notin> insert i D \<and> j \<noteq> 255"
      then show "pte_val (pmem s2) root j = 0" using inv pv2 [of j] by (auto simp: uvm_inv_def)
    qed
    have "owned s2 root (insert i D) ps2 = owned s root D (p # ps)"
      using up upi by (auto simp: owned_def t2 ps)
    moreover have "\<forall>q. page_aligned q \<and> q \<notin> owned s root D (p # ps) \<longrightarrow> same_page (pmem s) (pmem s2) q"
      using keep by (auto simp: owned_def)
    ultimately have "uvm_step root D s D (p # ps) s2 (insert i D) ps2"
      using inv2 mo2 keep D pv2 Dlt i by (auto simp: uvm_step_def)
    moreover have "same_page m1 (pmem s2) p" using fr2 p by simp
    ultimately show ?thesis using r True pv2 [of i] i upi by auto
  next
    case False
    with res have rm: "r = - 1" "ps2 = []"
      and pv2: "\<And>j. j < 512 \<Longrightarrow> pte_val (pmem s2) root j = pte_val (pmem s) root j"
      using pv by auto
    have up: "upage s2 root j = upage s root j" if "j \<in> D" for j
      using pv2 [of j] Dlt [OF that] by (simp add: upage_def)
    have kinv2: "kmem_inv s2 []" and pt2: "pt_ok 3 (pmem s2) root"
      using v2 rm by (simp_all add: vm_inv_def)
    obtain s3 where s3: "kfree p s2 = Inr s3" "kmem_inv s3 [p]"
      "\<forall>q. page_aligned q \<and> q \<noteq> p \<longrightarrow> same_page (pmem s2) (pmem s3) q"
      using ka.free_ok [OF kinv2 p(1)] by auto
    have mo3: "kmem.more s3 = kmem.more s2" using s3(1) kfree_eq [OF p(1), of s2] by auto
    have "\<forall>q\<in>set (tables s2 root). ram_page q \<and> q \<noteq> p"
      using pt_ok_ram [OF pt2] t2 p ps by auto
    then have t3: "\<forall>q\<in>set (tables s2 root). same_page (pmem s2) (pmem s3) q"
      using s3(3) ram_page_aligned by blast
    note tf3 = pt_frame [OF t3]
    have pv3: "pte_val (pmem s3) root j = pte_val (pmem s) root j" if "j < 512" for j
      using pte_at_frame [OF t3 that] pv2 [OF that] by (simp add: pte_val_def)
    have up3: "upage s3 root j = upage s root j" if "j \<in> D" for j
      using pv3 [of j] Dlt [OF that] by (simp add: upage_def)
    have "distinct (tables s3 root @ [p])" using dis p by (auto simp: tf3(1) t2 ps rm)
    then have v3: "vm_inv s3 root [p]" using s3(2) tf3(3) [OF pt2] by (simp add: vm_inv_def)
    have inv3: "uvm_inv s3 root D [p]"
      using inv v3 up3 pv3 D Dlt
      by (auto simp: uvm_inv_def inj_on_def tf3(1) t2 ps rm)
    have "owned s3 root D [p] = owned s root D (p # ps)"
      using up3 by (auto simp: owned_def tf3(1) t2 ps rm)
    moreover have k3: "same_page (pmem s) (pmem s3) q"
      if "page_aligned q" "q \<notin> set (tables s root)" "q \<notin> set ps" "q \<noteq> p" for q
      using keep [OF that] s3(3) that by (auto intro: same_page_trans)
    ultimately have "uvm_step root D s D (p # ps) s3 D [p]"
      using inv3 mo2 mo3 D pv3 Dlt by (auto simp: uvm_step_def owned_def)
    then show ?thesis using r rm s3(1) by auto
  qed
qed

lemma uvm_leaf:
  assumes "uvm_inv s root D ps" "i \<in> D"
  shows "\<exists>t. leaf_table 3 (pmem s) root = Some t \<and> ram_page t \<and>
    load64 (pmem s) (t + of_nat (8 * i)) = pte_val (pmem s) root i"
proof (cases "leaf_table 3 (pmem s) root")
  case None
  then have "pte_val (pmem s) root i = 0" by (simp add: pte_val_def pte_at_def)
  with assms show ?thesis by (auto simp: uvm_inv_def)
next
  case (Some t)
  with assms have "ram_page t"
    by (auto simp: uvm_inv_def vm_inv_def intro: pt_ok_ram leaf_in_pages)
  with Some show ?thesis by (simp add: pte_val_def pte_at_def)
qed

lemma unmap_one:
  assumes inv: "uvm_inv s root D ps" and i: "i \<in> D"
    and t: "leaf_table 3 (pmem s) root = Some t"
  shows "\<exists>s1. kfree (upage s root i) s = Inr s1 \<and>
    uvm_step root (D - {i}) s D ps (s1\<lparr>pmem := store64 (pmem s1) (t + of_nat (8 * i)) 0\<rparr>)
      (D - {i}) (upage s root i # ps)"
proof -
  let ?p = "upage s root i"
  have p: "ram_page ?p" "?p \<notin> set ps" "?p \<notin> set (tables s root)"
    and kinv: "kmem_inv s ps" and pt: "pt_ok 3 (pmem s) root"
    and dis: "distinct (tables s root @ ps)"
    and Dlt: "\<And>j. j \<in> D \<Longrightarrow> j < 512 \<and> j \<noteq> 255"
    using inv i by (auto simp: uvm_inv_def vm_inv_def)
  obtain s1 where s1: "kfree ?p s = Inr s1" "kmem_inv s1 (?p # ps)"
    "\<forall>q. page_aligned q \<and> q \<noteq> ?p \<longrightarrow> same_page (pmem s) (pmem s1) q"
    using ka.free_ok [OF kinv p(1,2)] by auto
  have mo: "kmem.more s1 = kmem.more s" using s1(1) kfree_eq [OF p(1), of s] by auto
  have "\<forall>q\<in>set (tables s root). ram_page q \<and> q \<noteq> ?p" using pt_ok_ram [OF pt] p by auto
  then have tsame: "\<forall>q\<in>set (tables s root). same_page (pmem s) (pmem s1) q"
    using s1(3) ram_page_aligned by blast
  note tf = pt_frame [OF tsame]
  have pv1: "pte_val (pmem s1) root j = pte_val (pmem s) root j" if "j < 512" for j
    using pte_at_frame [OF tsame that] by (simp add: pte_val_def)
  have v1: "vm_inv s1 root (?p # ps)"
    using s1(2) tf(1) tf(3) [OF pt] dis p by (auto simp: vm_inv_def)
  define s2 where s2: "s2 = s1\<lparr>pmem := store64 (pmem s1) (t + of_nat (8 * i)) 0\<rparr>"
  have "leaf_table 3 (pmem s1) root = Some t" using tf(2) t by simp
  note st = set_pte [OF v1 this _ s2]
  have i512: "i < 512" using Dlt i by simp
  have pv2: "pte_val (pmem s2) root j = (if j = i then 0 else pte_val (pmem s) root j)"
    if "j < 512" for j
    using st(4) [OF i512] pv1 that by simp
  have up: "upage s2 root j = upage s root j" if "j \<in> D - {i}" for j
    using pv2 [of j] Dlt [of j] that by (simp add: upage_def)
  have t2: "tables s2 root = tables s root" using st(3) [OF i512] tf(1) by simp
  have D: "ram_page (upage s root j)" "upage s root j \<notin> set (tables s root)"
    "upage s root j \<notin> set ps" "upage s root j \<noteq> ?p" if "j \<in> D - {i}" for j
    using inv that i by (auto simp: uvm_inv_def inj_on_def)
  have inj: "inj_on (upage s2 root) (D - {i})"
    using inv up inj_on_cong [of "D - {i}" "upage s2 root" "upage s root"]
    by (auto simp: uvm_inv_def intro: inj_on_subset)
  have inv2: "uvm_inv s2 root (D - {i}) (?p # ps)"
    unfolding uvm_inv_def
  proof (intro conjI ballI allI impI)
    show "vm_inv s2 root (?p # ps)" by (rule st(1) [OF i512])
    show "D - {i} \<subseteq> {..<255}" using inv by (auto simp: uvm_inv_def)
    show "inj_on (upage s2 root) (D - {i})" by (rule inj)
  next
    fix j
    assume j: "j \<in> D - {i}"
    then show "pte_val (pmem s2) root j AND PTE_V \<noteq> 0"
      "PTE_FLAGS (pte_val (pmem s2) root j) \<noteq> PTE_V"
      using pv2 [of j] Dlt [of j] inv by (auto simp: uvm_inv_def)
    show "ram_page (upage s2 root j)" using j up D by simp
    show "upage s2 root j \<notin> set (tables s2 root) \<union> set (?p # ps)"
      using j up [OF j] D [OF j] by (simp add: t2)
  next
    fix j :: nat
    assume "j < 512" "j \<notin> D - {i} \<and> j \<noteq> 255"
    then show "pte_val (pmem s2) root j = 0" using inv pv2 [of j] by (auto simp: uvm_inv_def)
  qed
  have keep: "same_page (pmem s) (pmem s2) q"
    if "page_aligned q" "q \<notin> set (tables s root)" "q \<noteq> ?p" for q
    using st(5) [OF i512] s1(3) that tf(1) by (auto intro: same_page_trans)
  have "owned s2 root (D - {i}) (?p # ps) = owned s root D ps"
    using up i by (auto simp: owned_def t2)
  moreover have "\<forall>q. page_aligned q \<and> q \<notin> owned s root D ps \<longrightarrow> same_page (pmem s) (pmem s2) q"
    using keep i by (auto simp: owned_def)
  moreover have "\<forall>j\<in>D - {i}. same_page (pmem s) (pmem s2) (upage s root j)"
    using keep D ram_page_aligned by blast
  moreover have "\<forall>j\<in>D - {i}. pte_val (pmem s2) root j = pte_val (pmem s) root j"
    using pv2 Dlt by auto
  moreover have "pte_val (pmem s2) root 255 = pte_val (pmem s) root 255"
    using pv2 [of 255] Dlt [OF i] by simp
  ultimately have "uvm_step root (D - {i}) s D ps s2 (D - {i}) (?p # ps)"
    using inv2 mo by (simp add: uvm_step_def s2)
  then show ?thesis using s1(1) unfolding s2 by blast
qed

lemma uvmunmap_loop_spec:
  assumes "uvm_inv s root D ps" "{i..<j} \<subseteq> D" "i \<le> j" "j \<le> 255"
  shows "\<exists>s' ps'. uvmunmap_loop root (of_nat (4096 * i)) (of_nat (4096 * j)) True s = Inr s' \<and>
     uvm_step root (D - {i..<j}) s D ps s' (D - {i..<j}) ps'"
  using assms
proof (induction "j - i" arbitrary: i s D ps)
  case 0
  then show ?case using uvm_step_refl [OF 0(2)] by (auto simp: uvmunmap_loop.simps)
next
  case (Suc k)
  then have i: "i < 256" "i < 255" "i < j" "i \<in> D" by auto
  have lt: "(of_nat (4096 * i) :: u64) < of_nat (4096 * j)"
    using i Suc.prems vpn_addr(1) [of i] vpn_addr(1) [of j] by (simp add: word_less_nat_alt)
  obtain t where t: "leaf_table 3 (pmem s) root = Some t" "ram_page t"
    "load64 (pmem s) (t + of_nat (8 * i)) = pte_val (pmem s) root i"
    using uvm_leaf [OF Suc.prems(1) i(4)] by blast
  have w: "walk root (of_nat (4096 * i)) False s = Inr (t + of_nat (8 * i), s)"
    using walk_level_present [OF t(1) vpn_addr(2) [OF i(1)]] vpn_addr(2,3) [OF i(1)]
    by (simp add: walk_def)
  obtain s1 where s1: "kfree (upage s root i) s = Inr s1"
    "uvm_step root (D - {i}) s D ps (s1\<lparr>pmem := store64 (pmem s1) (t + of_nat (8 * i)) 0\<rparr>)
      (D - {i}) (upage s root i # ps)"
    using unmap_one [OF Suc.prems(1) i(4) t(1)] by blast
  let ?s2 = "s1\<lparr>pmem := store64 (pmem s1) (t + of_nat (8 * i)) 0\<rparr>"
  have "uvm_inv ?s2 root (D - {i}) (upage s root i # ps)" using s1(2) by (simp add: uvm_step_def)
  then have "\<exists>s' ps'.
      uvmunmap_loop root (of_nat (4096 * Suc i)) (of_nat (4096 * j)) True ?s2 = Inr s' \<and>
      uvm_step root (D - {i} - {Suc i..<j}) ?s2 (D - {i}) (upage s root i # ps)
        s' (D - {i} - {Suc i..<j}) ps'"
    using Suc.hyps(2) Suc.prems(2,4) i by (intro Suc.hyps(1)) auto
  then obtain s' ps' where
    r: "uvmunmap_loop root (of_nat (4096 * Suc i)) (of_nat (4096 * j)) True ?s2 = Inr s'"
    "uvm_step root (D - {i} - {Suc i..<j}) ?s2 (D - {i}) (upage s root i # ps)
       s' (D - {i} - {Suc i..<j}) ps'" by blast
  have eq: "D - {i} - {Suc i..<j} = D - {i..<j}" using i by auto
  have valid: "pte_val (pmem s) root i AND PTE_V \<noteq> 0" "PTE_FLAGS (pte_val (pmem s) root i) \<noteq> PTE_V"
    using Suc.prems(1) i by (auto simp: uvm_inv_def)
  have nz: "t + of_nat (8 * i) \<noteq> 0" using t(2) i by (intro ram_plus_nonzero) simp_all
  have nxt: "(of_nat (4096 * i) :: u64) + 4096 = of_nat (4096 * Suc i)"
    by (simp add: of_nat_mult algebra_simps)
  have "uvmunmap_loop root (of_nat (4096 * i)) (of_nat (4096 * j)) True s = Inr s'"
    using lt w nz valid s1(1) r(1)
    by (simp add: uvmunmap_loop.simps [of root "of_nat (4096 * i)"] t(3) upage_def PGSIZE_def nxt)
  then show ?case using uvm_step_trans [OF s1(2) r(2), of "D - {i..<j}"] eq by auto
qed

section \<open>Growing and shrinking\<close>

definition npg :: "u64 \<Rightarrow> nat" where
  "npg sz = (unat sz + 4095) div 4096"

lemma PGROUNDUP_npg:
  assumes "unat sz \<le> 255 * 4096"
  shows "npg sz \<le> 255" "PGROUNDUP sz = of_nat (4096 * npg sz)"
proof -
  show n: "npg sz \<le> 255" using assms unfolding npg_def by (simp add: less_Suc_eq_le [symmetric] div_less_iff_less_mult)
  have "unat (PGROUNDUP sz) = unat (of_nat (4096 * npg sz) :: u64)"
    using assms n vpn_addr(1) [of "npg sz"] by (simp add: unat_PGROUNDUP npg_def mult.commute)
  then show "PGROUNDUP sz = of_nat (4096 * npg sz)" by (simp only: word_unat_eq_iff)
qed

lemma npg_mono: "a \<le> b \<Longrightarrow> npg a \<le> npg b"
  by (simp add: npg_def word_le_nat_alt div_le_mono)

lemma lt_npg: "i \<le> 255 \<Longrightarrow> (of_nat (4096 * i) :: u64) < sz \<longleftrightarrow> i < npg sz"
  using vpn_addr(1) [of i] by (simp add: word_less_nat_alt npg_def less_eq_div_iff_mult_less_eq Suc_le_eq [symmetric] del: Suc_le_eq) linarith

lemma int_npages:
  assumes "k \<le> 255"
  shows "scast (ucast (of_nat k :: u64) :: u32) = (of_nat k :: u64)"
proof -
  have "take_bit 64 k = k" using assms by (simp add: take_bit_nat_eq_self)
  then have "ucast (of_nat k :: u64) = (of_nat k :: u32)" by (simp add: unsigned_of_nat)
  moreover have "sint (of_nat k :: u32) = int k"
    using assms by (simp add: signed_of_nat signed_take_bit_int_eq_self)
  ultimately show ?thesis by (simp add: scast_eq)
qed

lemma of_nat_pages_diff:
  assumes "i \<le> j" "j \<le> 255"
  shows "((of_nat (4096 * j) :: u64) - of_nat (4096 * i)) div 4096 = of_nat (j - i)"
proof -
  have d1: "(of_nat (4096 * j) :: u64) - of_nat (4096 * i) = of_nat (4096 * (j - i))"
    using assms by (simp add: diff_mult_distrib2 of_nat_diff)
  have d2: "unat ((of_nat (4096 * (j - i)) :: u64) div 4096) = j - i"
    using assms vpn_addr(1) [of "j - i"] by (simp add: unat_div)
  have d3: "unat (of_nat (j - i) :: u64) = j - i" using assms by (intro unat_of_nat_eq) simp
  show ?thesis unfolding d1 by (rule word_unat_eq_iff [THEN iffD2]) (simp only: d2 d3)
qed

lemma uvmunmap_spec:
  assumes "uvm_inv s root D ps" "{i..<j} \<subseteq> D" "i \<le> j" "j \<le> 255"
  shows "\<exists>s' ps'. uvmunmap root (of_nat (4096 * i)) (of_nat (j - i)) True s = Inr s' \<and>
     uvm_step root (D - {i..<j}) s D ps s' (D - {i..<j}) ps'"
proof -
  have "(of_nat (4096 * i) :: u64) + of_nat (j - i) * 4096 = of_nat (4096 * j)"
    using assms(3) by (simp add: of_nat_mult of_nat_diff algebra_simps)
  moreover have "page_aligned (of_nat (4096 * i))" using assms by (intro vpn_addr) simp
  ultimately show ?thesis
    using uvmunmap_loop_spec [OF assms] by (simp add: uvmunmap_def PGSIZE_def mod_4096_aligned)
qed

lemma uvmdealloc_spec:
  assumes inv: "uvm_inv s root D ps" and R: "{npg newsz..<npg oldsz} \<subseteq> D"
    and le: "newsz \<le> oldsz" "unat oldsz \<le> 255 * 4096"
  shows "\<exists>s' ps'. uvmdealloc root oldsz newsz s = Inr (newsz, s') \<and>
     uvm_step root (D - {npg newsz..<npg oldsz}) s D ps s' (D - {npg newsz..<npg oldsz}) ps'"
proof (cases "npg newsz < npg oldsz")
  case False
  then have eq: "npg newsz = npg oldsz" using npg_mono [OF le(1)] by simp
  have "unat newsz \<le> 255 * 4096" using le by (simp add: word_le_nat_alt)
  with eq le have "\<not> PGROUNDUP newsz < PGROUNDUP oldsz" by (simp add: PGROUNDUP_npg)
  then show ?thesis using le eq uvm_step_refl [OF inv, of D]
    by (auto simp: uvmdealloc_def)
next
  case True
  then have ne: "\<not> newsz \<ge> oldsz" using npg_mono [of oldsz newsz] by auto
  have nn: "unat newsz \<le> 255 * 4096" using le by (simp add: word_le_nat_alt)
  note P = PGROUNDUP_npg [OF nn] PGROUNDUP_npg [OF le(2)]
  have lt: "PGROUNDUP newsz < PGROUNDUP oldsz"
    using True vpn_addr(1) [of "npg newsz"] vpn_addr(1) [of "npg oldsz"] P(1,3)
    by (simp add: P(2,4) word_less_nat_alt)
  have np: "scast (ucast ((PGROUNDUP oldsz - PGROUNDUP newsz) div PGSIZE) :: u32) =
      (of_nat (npg oldsz - npg newsz) :: u64)"
    using True P(1,3) by (simp add: P(2,4) PGSIZE_def of_nat_pages_diff int_npages del: of_nat_diff)
  have "\<exists>s' ps'. uvmunmap root (of_nat (4096 * npg newsz)) (of_nat (npg oldsz - npg newsz)) True s
        = Inr s' \<and> uvm_step root (D - {npg newsz..<npg oldsz}) s D ps s' (D - {npg newsz..<npg oldsz}) ps'"
    using True P(3) by (intro uvmunmap_spec inv R) simp_all
  then obtain s' ps' where
    u: "uvmunmap root (of_nat (4096 * npg newsz)) (of_nat (npg oldsz - npg newsz)) True s = Inr s'"
      "uvm_step root (D - {npg newsz..<npg oldsz}) s D ps s' (D - {npg newsz..<npg oldsz}) ps'"
    by blast
  have "uvmdealloc root oldsz newsz s = Inr (newsz, s')"
    using ne lt u(1) [folded P(2)] by (simp add: uvmdealloc_def Let_def np)
  then show ?thesis using u(2) by blast
qed

lemma uvm_perm_ok: "uvm_perm AND PAMASK = 0" "PTE_FLAGS (uvm_perm OR PTE_V) \<noteq> PTE_V"
  "uvm_perm AND PTE_PLV \<noteq> 0"
  by (simp_all add: uvm_perm_def pte_bits PTE_FLAGS_def)

definition zero_page :: "mem \<Rightarrow> u64 \<Rightarrow> bool" where
  "zero_page m p \<longleftrightarrow> (\<forall>i<4096. m (p + of_nat i) = 0)"

lemma zero_page_same: "zero_page m p \<Longrightarrow> same_page m m' p \<Longrightarrow> zero_page m' p"
  by (simp add: zero_page_def same_page_def)

definition fresh_pages :: "'a kmem_scheme \<Rightarrow> u64 \<Rightarrow> nat set \<Rightarrow> bool" where
  "fresh_pages s root N \<longleftrightarrow> (\<forall>j\<in>N. zero_page (pmem s) (upage s root j) \<and>
     (\<exists>p. pte_val (pmem s) root j = PA2PTE p OR uvm_perm OR PTE_V))"

lemma fresh_pages_Un: "fresh_pages s root (M \<union> N) \<longleftrightarrow> fresh_pages s root M \<and> fresh_pages s root N"
  by (auto simp: fresh_pages_def)

lemma fresh_pages_step:
  assumes "fresh_pages s root N" "uvm_step root K s D ps s' D' ps'" "N \<subseteq> K"
  shows "fresh_pages s' root N"
  using assms by (auto simp: fresh_pages_def uvm_step_def upage_def subset_iff intro: zero_page_same)

text \<open>Page accounting: an address space has at most four table pages.\<close>

lemma length_pt_pages: "length (pt_pages l m pt) \<le> Suc l"
  by (induction l arbitrary: pt) auto

lemma card_owned_le:
  assumes "D \<subseteq> {..<i}"
  shows "card (owned s root D ps) \<le> 4 + i + length ps"
proof -
  have f: "finite D" and "card D \<le> i"
    using assms card_mono [OF finite_lessThan assms] by (auto intro: finite_subset)
  have "card (set (tables s root)) \<le> 4"
    using card_length [of "tables s root"] length_pt_pages [of 3 "pmem s" root] by simp
  moreover have "card (upage s root ` D) \<le> i" using card_image_le [OF f] \<open>card D \<le> i\<close> le_trans by blast
  moreover have "card (owned s root D ps) \<le> card (set (tables s root)) + card (upage s root ` D) + card (set ps)"
    unfolding owned_def by (metis (no_types) card_Un_le add_le_mono1 le_trans)
  ultimately show ?thesis using card_length [of ps] by linarith
qed

lemma card_owned_ge:
  assumes "uvm_inv s root {..<n} ps"
  shows "n + length ps < card (owned s root {..<n} ps)"
proof -
  have inj: "inj_on (upage s root) {..<n}" and d: "distinct ps" "root \<notin> set ps"
    and r: "\<forall>i<n. upage s root i \<notin> insert root (set ps)"
    using assms by (auto simp: uvm_inv_def vm_inv_def numeral_3_eq_3)
  have "card (upage s root ` {..<n} \<union> set ps) = n + length ps"
    using inj d r by (subst card_Un_disjoint) (auto simp: card_image distinct_card)
  moreover have "root \<notin> upage s root ` {..<n} \<union> set ps" using d r by auto
  ultimately have "card (insert root (upage s root ` {..<n} \<union> set ps)) = Suc (n + length ps)" by simp
  moreover have "insert root (upage s root ` {..<n} \<union> set ps) \<subseteq> owned s root {..<n} ps"
    by (auto simp: owned_def numeral_3_eq_3)
  then have "card (insert root (upage s root ` {..<n} \<union> set ps)) \<le> card (owned s root {..<n} ps)"
    by (rule card_mono [rotated]) (simp add: owned_def)
  ultimately show ?thesis by simp
qed

lemma uvmalloc_loop_spec:
  assumes "uvm_inv s root D ps" "n \<le> i" "i \<le> 255" "{n..<i} \<subseteq> D" "D \<subseteq> {..<i}"
    "unat newsz \<le> 255 * 4096"
  shows "\<exists>r s' ps'. uvmalloc_loop root (of_nat (4096 * i)) (of_nat (4096 * n)) newsz s = Inr (r, s') \<and>
    (r = newsz \<and> uvm_step root D s D ps s' (D \<union> {i..<npg newsz}) ps' \<and>
       fresh_pages s' root {i..<npg newsz} \<or>
     r = 0 \<and> uvm_step root (D - {n..<i}) s D ps s' (D - {n..<i}) ps' \<and>
       card (owned s root D ps) \<le> npg newsz + 4)"
  using assms
proof (induction "npg newsz - i" arbitrary: i s D ps)
  case 0
  then have "\<not> (of_nat (4096 * i) :: u64) < newsz" using lt_npg by simp
  then show ?case using 0 uvm_step_refl [OF 0(2), of D]
    by (auto simp: uvmalloc_loop.simps fresh_pages_def)
next
  case (Suc k)
  let ?a = "of_nat (4096 * i) :: u64" and ?n = "of_nat (4096 * n) :: u64"
  have i: "i < npg newsz" "i < 255" "i < 256" "i \<notin> D"
    using Suc.hyps(2) Suc.prems PGROUNDUP_npg(1) [OF Suc.prems(6)] by auto
  have lt: "?a < newsz" using i lt_npg by simp
  have npa: "npg ?a = i" "npg ?n = n" "?n \<le> ?a" "unat ?a \<le> 255 * 4096"
    using i Suc.prems(2,3) vpn_addr(1) [of i] vpn_addr(1) [of n]
    by (simp_all add: npg_def word_le_nat_alt)
  show ?case
  proof (cases ps)
    case Nil
    then have al: "kalloc s = (0, s)"
      using Suc.prems(1) by (auto simp: uvm_inv_def vm_inv_def dest: ka.alloc_none)
    obtain s' ps' where d: "uvmdealloc root ?a ?n s = Inr (?n, s')"
      "uvm_step root (D - {n..<i}) s D ps s' (D - {n..<i}) ps'"
      using uvmdealloc_spec [OF Suc.prems(1), of ?n ?a] npa Suc.prems(4) by auto
    then have "uvmalloc_loop root ?a ?n newsz s = Inr (0, s')"
      using lt al by (simp add: uvmalloc_loop.simps [of root ?a])
    then show ?thesis using d(2) card_owned_le [OF Suc.prems(5), of s root ps] i(1) Nil by auto
  next
    case (Cons p ps1)
    then have inv: "uvm_inv s root D (p # ps1)" using Suc.prems(1) by simp
    then have "kmem_inv s (p # ps1)" by (simp add: uvm_inv_def vm_inv_def)
    then obtain s1 where al: "kalloc s = (p, s1)" using ka.alloc_some by blast
    have p: "ram_page p" using inv by (auto simp: uvm_inv_def vm_inv_def kmem_inv_def)
    let ?m1 = "memset p 0 4096 (pmem s1)"
    have fill: "\<forall>q. page_aligned q \<and> q \<noteq> p \<longrightarrow> same_page (pmem s1) ?m1 q"
      using p memset_other_page by auto
    from alloc_map [OF inv al fill i(2,4) uvm_perm_ok(1,2)] obtain r s2 ps2 where
      m: "mappages root ?a 4096 p uvm_perm (s1\<lparr>pmem := ?m1\<rparr>) = Inr (r, s2)" and
      c: "r = 0 \<and> uvm_step root D s D (p # ps1) s2 (insert i D) ps2 \<and>
       pte_val (pmem s2) root i = PA2PTE p OR uvm_perm OR PTE_V \<and> upage s2 root i = p \<and>
       same_page ?m1 (pmem s2) p \<or>
       r = - 1 \<and> (\<exists>s3. kfree p s2 = Inr s3 \<and> uvm_step root D s D (p # ps1) s3 D [p])"
      by blast
    from c show ?thesis
    proof (elim disjE conjE exE)
      assume r: "r = 0" and st: "uvm_step root D s D (p # ps1) s2 (insert i D) ps2"
        and e: "pte_val (pmem s2) root i = PA2PTE p OR uvm_perm OR PTE_V"
          "upage s2 root i = p" "same_page ?m1 (pmem s2) p"
      have "zero_page ?m1 p" using p by (simp add: zero_page_def memset_page)
      then have z: "fresh_pages s2 root {i}" using e by (auto simp: fresh_pages_def intro: zero_page_same)
      have nxt: "?a + 4096 = of_nat (4096 * Suc i)" by (simp add: of_nat_mult algebra_simps)
      have eq: "uvmalloc_loop root ?a ?n newsz s = uvmalloc_loop root (of_nat (4096 * Suc i)) ?n newsz s2"
        using lt al p m r by (simp add: uvmalloc_loop.simps [of root ?a] PGSIZE_def Let_def nxt)
      have sub: "{n..<Suc i} \<subseteq> insert i D" using Suc.prems(4) by (auto simp: less_Suc_eq subset_iff)
      have "uvm_inv s2 root (insert i D) ps2" using st by (simp add: uvm_step_def)
      then have "\<exists>r s' ps'. uvmalloc_loop root (of_nat (4096 * Suc i)) ?n newsz s2 = Inr (r, s') \<and>
        (r = newsz \<and> uvm_step root (insert i D) s2 (insert i D) ps2 s' (insert i D \<union> {Suc i..<npg newsz}) ps' \<and>
           fresh_pages s' root {Suc i..<npg newsz} \<or>
         r = 0 \<and> uvm_step root (insert i D - {n..<Suc i}) s2 (insert i D) ps2 s' (insert i D - {n..<Suc i}) ps' \<and>
           card (owned s2 root (insert i D) ps2) \<le> npg newsz + 4)"
        using Suc.hyps(2) Suc.prems i sub by (intro Suc.hyps(1)) auto
      then obtain r' s' ps' where
        l: "uvmalloc_loop root (of_nat (4096 * Suc i)) ?n newsz s2 = Inr (r', s')" and
        cc: "r' = newsz \<and> uvm_step root (insert i D) s2 (insert i D) ps2 s' (insert i D \<union> {Suc i..<npg newsz}) ps' \<and>
           fresh_pages s' root {Suc i..<npg newsz} \<or>
         r' = 0 \<and> uvm_step root (insert i D - {n..<Suc i}) s2 (insert i D) ps2 s' (insert i D - {n..<Suc i}) ps' \<and>
           card (owned s2 root (insert i D) ps2) \<le> npg newsz + 4"
        by blast
      have se: "insert i D \<union> {Suc i..<npg newsz} = D \<union> {i..<npg newsz}"
        "insert i D - {n..<Suc i} = D - {n..<i}"
        using i Suc.prems(2) by (auto simp: less_Suc_eq)
      from cc show ?thesis
      proof (elim disjE conjE)
        assume "r' = newsz" and st': "uvm_step root (insert i D) s2 (insert i D) ps2 s' (insert i D \<union> {Suc i..<npg newsz}) ps'"
          and f: "fresh_pages s' root {Suc i..<npg newsz}"
        have "fresh_pages s' root {i}" using fresh_pages_step [OF z st'] by simp
        with f have "fresh_pages s' root ({i} \<union> {Suc i..<npg newsz})"
          by (simp only: fresh_pages_Un)
        moreover have "{i} \<union> {Suc i..<npg newsz} = {i..<npg newsz}" using i(1) by auto
        ultimately have "fresh_pages s' root {i..<npg newsz}" by simp
        moreover have "uvm_step root D s D ps s' (D \<union> {i..<npg newsz}) ps'"
          using uvm_step_trans [OF st st' [unfolded se], of D] Cons by auto
        moreover have "uvmalloc_loop root ?a ?n newsz s = Inr (newsz, s')"
          using l eq \<open>r' = newsz\<close> by simp
        ultimately show ?thesis by blast
      next
        assume "r' = 0" and st': "uvm_step root (insert i D - {n..<Suc i}) s2 (insert i D) ps2 s' (insert i D - {n..<Suc i}) ps'"
          and ca: "card (owned s2 root (insert i D) ps2) \<le> npg newsz + 4"
        have "uvm_step root (D - {n..<i}) s D ps s' (D - {n..<i}) ps'"
          using uvm_step_trans [OF st st' [unfolded se], of "D - {n..<i}"] Cons by auto
        moreover have "uvmalloc_loop root ?a ?n newsz s = Inr (0, s')" using l eq \<open>r' = 0\<close> by simp
        moreover have "card (owned s root D ps) \<le> npg newsz + 4"
          using ca st Cons by (simp add: uvm_step_def)
        ultimately show ?thesis by blast
      qed
    next
      fix s3
      assume r: "r = - 1" and k: "kfree p s2 = Inr s3" and st: "uvm_step root D s D (p # ps1) s3 D [p]"
      have inv3: "uvm_inv s3 root D [p]" using st by (simp add: uvm_step_def)
      obtain s' ps' where d: "uvmdealloc root ?a ?n s3 = Inr (?n, s')"
        "uvm_step root (D - {n..<i}) s3 D [p] s' (D - {n..<i}) ps'"
        using uvmdealloc_spec [OF inv3, of ?n ?a] npa Suc.prems(4) by auto
      have "uvmalloc_loop root ?a ?n newsz s = Inr (0, s')"
        using lt al p m r k d(1) by (simp add: uvmalloc_loop.simps [of root ?a] PGSIZE_def Let_def)
      moreover have "card (owned s root D ps) \<le> npg newsz + 4"
        using card_owned_le [OF Suc.prems(5), of s3 root "[p]"] i(1) st Cons by (simp add: uvm_step_def)
      ultimately show ?thesis using uvm_step_trans [OF st d(2), of "D - {n..<i}"] unfolding Cons by blast
    qed
  qed
qed

lemma uvmalloc_spec:
  assumes inv: "uvm_inv s root {..<npg oldsz} ps" and le: "oldsz \<le> newsz" "unat newsz \<le> 255 * 4096"
  shows "\<exists>r s' ps'. uvmalloc root oldsz newsz s = Inr (r, s') \<and>
    (r = newsz \<and> uvm_step root {..<npg oldsz} s {..<npg oldsz} ps s' {..<npg newsz} ps' \<and>
       fresh_pages s' root {npg oldsz..<npg newsz} \<or>
     r = 0 \<and> uvm_step root {..<npg oldsz} s {..<npg oldsz} ps s' {..<npg oldsz} ps' \<and>
       length ps + npg oldsz < npg newsz + 4)"
proof -
  have ol: "unat oldsz \<le> 255 * 4096" using le by (simp add: word_le_nat_alt)
  note P = PGROUNDUP_npg [OF ol]
  have eq: "uvmalloc root oldsz newsz s =
      uvmalloc_loop root (of_nat (4096 * npg oldsz)) (of_nat (4096 * npg oldsz)) newsz s"
    using le(1) leD [OF le(1)] by (simp add: uvmalloc_def P(2))
  have se: "{..<npg oldsz} \<union> {npg oldsz..<npg newsz} = {..<npg newsz}"
    using npg_mono [OF le(1)] by auto
  show ?thesis
    using uvmalloc_loop_spec [OF inv, of "npg oldsz" "npg oldsz" newsz] P(1) le(2)
      card_owned_ge [OF inv] unfolding eq se by fastforce
qed

lemma uvmcreate_spec:
  assumes "kmem_inv s (p # ps)"
  shows "\<exists>s'. uvmcreate s = (p, s') \<and> uvm_inv s' p {} ps \<and> owned s' p {} ps = set (p # ps) \<and>
    (\<forall>i<512. pte_val (pmem s') p i = 0) \<and> kmem.more s' = kmem.more s \<and>
    (\<forall>q. page_aligned q \<and> q \<noteq> p \<longrightarrow> same_page (pmem s) (pmem s') q)"
proof -
  obtain s1 where s1: "kalloc s = (p, s1)" "kmem_inv s1 ps"
    "\<forall>q. page_aligned q \<and> q \<noteq> p \<longrightarrow> same_page (pmem s) (pmem s1) q"
    using ka.alloc_some [OF assms] by blast
  have p: "ram_page p" "p \<notin> set ps" "distinct ps" "\<forall>q\<in>set ps. ram_page q"
    using assms by (auto simp: kmem_inv_def)
  let ?s' = "s1\<lparr>pmem := memset p 0 4096 (pmem s1)\<rparr>"
  have fr: "same_page (pmem s1) (pmem ?s') q" if "page_aligned q" "q \<noteq> p" for q
    using memset_other_page [OF that(1) _ that(2)] p(1) by simp
  have "\<forall>q\<in>set ps. same_page (pmem s1) (pmem ?s') q" using fr p by (metis ram_page_aligned)
  then have "kmem_inv ?s' ps" using ka.inv_frame [OF s1(2), of "pmem ?s'"] by simp
  moreover have "\<forall>i<512. load64 (pmem ?s') (p + of_nat (8 * i)) = 0"
    using memset_zero_load64 p(1) by simp
  note zt = zero_table [OF p(1) this]
  moreover have "kmem.more ?s' = kmem.more s" using s1(1) kalloc_some [OF assms] by auto
  moreover have "\<forall>q. page_aligned q \<and> q \<noteq> p \<longrightarrow> same_page (pmem s) (pmem ?s') q"
    using s1(3) fr by (blast intro: same_page_trans)
  ultimately show ?thesis
    using p s1(1) by (intro exI [of _ ?s'])
      (simp add: uvmcreate_def PGSIZE_def uvm_inv_def vm_inv_def owned_def pte_val_def)
qed

text \<open>Booting the allocator and creating a page table gives an empty address space.\<close>

lemma boot_uvm:
  "\<exists>s root s1 ps. kinit \<lparr>pmem = (\<lambda>_. 0), freelist = 0\<rparr> = Inr s \<and> uvmcreate s = (root, s1) \<and>
     uvm_inv s1 root {} ps \<and> length ps = 32767 \<and> (\<forall>i<512. pte_val (pmem s1) root i = 0)"
proof -
  obtain s qs where s: "kinit \<lparr>pmem = (\<lambda>_. 0), freelist = 0\<rparr> = Inr s" "kmem_inv s qs"
    "length qs = 32768"
    using kinit_spec [of "\<lparr>pmem = (\<lambda>_. 0), freelist = 0\<rparr>"] by auto
  then obtain p ps where qs: "qs = p # ps" by (cases qs) auto
  then show ?thesis using s uvmcreate_spec [of s p ps] by auto
qed

section \<open>Properties\<close>

text \<open>C15: Walking a page table with allocation takes the missing table pages from the front of
  the free list, changes no mapping of any virtual page and no page that is neither a table
  of this address space nor was free, and fails only when the free list is used up. Otherwise
  the entry it returns lies in the leaf table at the index of the virtual page.\<close>

theorem walk_alloc_keeps_mappings:
  assumes "vm_inv s root ps" "va < MAXVA" "walk root va True s = Inr (a, s')"
  shows "\<exists>used ps'. ps = used @ ps' \<and> vm_inv s' root ps' \<and> tables s' root = tables s root @ used \<and>
    (\<forall>i<512. pte_val (pmem s') root i = pte_val (pmem s) root i) \<and>
    (\<forall>q. page_aligned q \<and> q \<notin> set (tables s root) \<union> set used \<longrightarrow> same_page (pmem s) (pmem s') q) \<and>
    (a = 0 \<longrightarrow> ps' = []) \<and>
    (a \<noteq> 0 \<longrightarrow> load64 (pmem s') a = pte_val (pmem s') root (unat va div 4096))"
proof -
  have "walk_level 3 root va True s = (a, s')" using assms(2,3) by (simp add: walk_def linorder_not_le [symmetric] del: linorder_not_le)
  with walk_level_alloc [OF assms(2), of s ps 3 root a s'] assms(1) obtain used ps' where
    "walked 3 root (unat va div 4096) s ps a s' used ps'" by (auto simp: vm_inv_def)
  then show ?thesis using assms(1)
    by (intro exI [of _ used] exI [of _ ps'])
      (auto simp: walked_def vm_inv_def pte_val_def pte_at_def split: if_splits)
qed

theorem walk_alloc_keeps_mappings_witness:
  "\<exists>(s :: kmem) root ps a s' used ps'. vm_inv s root ps \<and> walk root 0x5000 True s = Inr (a, s') \<and>
     ps = used @ ps' \<and> vm_inv s' root ps' \<and> tables s' root = tables s root @ used \<and>
     (\<forall>i<512. pte_val (pmem s') root i = 0)"
proof -
  obtain s :: kmem and root ps where u: "uvm_inv s root {} ps" "\<forall>i<512. pte_val (pmem s) root i = 0"
    using boot_uvm by blast
  then have inv: "vm_inv s root ps" by (simp add: uvm_inv_def)
  have va: "(0x5000 :: u64) < MAXVA" by (simp add: MAXVA_def)
  obtain a s' where w: "walk root 0x5000 True s = Inr (a, s')"
    by (cases "walk_level 3 root 0x5000 True s") (simp add: walk_def MAXVA_def)
  show ?thesis using walk_alloc_keeps_mappings [OF inv va w] inv w u(2) by metis
qed

text \<open>C5: Growing an address space from \<open>oldsz\<close> to \<open>newsz\<close> (below the trapframe) either maps every
  new page to a zeroed page of RAM of its own, or returns 0 and leaves the address space with
  exactly the old mappings, which happens only when free memory does not suffice. In both
  cases the old pages keep their mapping and contents, no page is leaked or shared, and
  pages of other owners are untouched.\<close>

theorem uvmalloc_grows_or_restores:
  assumes "uvm_inv s root {..<npg oldsz} ps" "oldsz \<le> newsz" "newsz \<le> TRAPFRAME"
  shows "\<exists>r s' ps'. uvmalloc root oldsz newsz s = Inr (r, s') \<and>
    (r = newsz \<and> uvm_step root {..<npg oldsz} s {..<npg oldsz} ps s' {..<npg newsz} ps' \<and>
       fresh_pages s' root {npg oldsz..<npg newsz} \<or>
     r = 0 \<and> uvm_step root {..<npg oldsz} s {..<npg oldsz} ps s' {..<npg oldsz} ps' \<and>
       length ps + npg oldsz < npg newsz + 4)"
proof -
  have "unat newsz \<le> 255 * 4096"
    using assms(3) by (simp add: TRAPFRAME_def MAXVA_def PGSIZE_def word_le_nat_alt)
  then show ?thesis using uvmalloc_spec assms(1,2) by blast
qed

theorem uvmalloc_grows_or_restores_witness:
  "\<exists>(s :: kmem) root ps s' ps'. uvm_inv s root {..<npg 0} ps \<and> uvmalloc root 0 0x2001 s = Inr (0x2001, s') \<and>
     uvm_step root {} s {} ps s' {..<3} ps' \<and> fresh_pages s' root {0..<3}"
proof -
  obtain s :: kmem and root ps where u: "uvm_inv s root {..<npg 0} ps" "length ps = 32767"
    using boot_uvm by (auto simp: npg_def)
  have n: "npg 0 = 0" "npg 0x2001 = 3" by (simp_all add: npg_def)
  have "(0x2001 :: u64) \<le> TRAPFRAME" by (simp add: TRAPFRAME_def MAXVA_def PGSIZE_def)
  from uvmalloc_grows_or_restores [OF u(1) _ this] obtain s' ps' where
    "uvmalloc root 0 0x2001 s = Inr (0x2001, s')" "uvm_step root {} s {} ps s' {..<3} ps'"
    "fresh_pages s' root {0..<3}"
    using u(2) by (auto simp: n)
  then show ?thesis using u(1) by blast
qed

text \<open>C16: Shrinking an address space returns exactly the pages above the new size to the
  free list and keeps the mappings and contents of all others.\<close>

theorem uvmdealloc_releases:
  assumes "uvm_inv s root {..<npg oldsz} ps" "newsz \<le> oldsz" "oldsz \<le> TRAPFRAME"
  shows "\<exists>s' ps'. uvmdealloc root oldsz newsz s = Inr (newsz, s') \<and>
    uvm_step root {..<npg newsz} s {..<npg oldsz} ps s' {..<npg newsz} ps'"
proof -
  have "unat oldsz \<le> 255 * 4096"
    using assms(3) by (simp add: TRAPFRAME_def MAXVA_def PGSIZE_def word_le_nat_alt)
  moreover have "{..<npg oldsz} - {npg newsz..<npg oldsz} = {..<npg newsz}"
    using npg_mono [OF assms(2)] by auto
  moreover have "{npg newsz..<npg oldsz} \<subseteq> {..<npg oldsz}" by auto
  ultimately show ?thesis using uvmdealloc_spec [OF assms(1) _ assms(2)] by metis
qed

theorem uvmdealloc_releases_witness:
  "\<exists>(s :: kmem) root ps s' ps'. uvm_inv s root {..<npg 0x2001} ps \<and>
     uvmdealloc root 0x2001 0x1000 s = Inr (0x1000, s') \<and> uvm_step root {..<1} s {..<3} ps s' {..<1} ps'"
proof -
  obtain s :: kmem and root ps where u: "uvm_inv s root {..<npg 0} ps" "length ps = 32767"
    using boot_uvm by (auto simp: npg_def)
  have n: "npg 0 = 0" "npg 0x2001 = 3" "npg 0x1000 = 1" by (simp_all add: npg_def)
  obtain s' ps' where "uvm_step root {} s {} ps s' {..<npg 0x2001} ps'"
    using uvmalloc_spec [OF u(1), of "0x2001"] u(2) by (auto simp: n)
  then have "uvm_inv s' root {..<npg 0x2001} ps'" by (simp add: uvm_step_def)
  moreover have "(0x1000 :: u64) \<le> 0x2001" "(0x2001 :: u64) \<le> TRAPFRAME"
    by (simp_all add: TRAPFRAME_def MAXVA_def PGSIZE_def)
  ultimately show ?thesis using uvmdealloc_releases [of s' root "0x2001" ps' "0x1000"] n by metis
qed

declare of_nat_mult [simp]

end
