(* ===== verification/VmCopy.thy ===== *)
theory VmCopy
  imports VmSafety
begin

text \<open>
  The rest of \<open>kernel/vm.c\<close>: freeing a whole address space (\<open>uvmfree\<close>, \<open>freewalk\<close>), copying
  one for \<open>fork\<close> (\<open>uvmcopy\<close>), and moving bytes between kernel and user memory
  (\<open>copyout\<close>, \<open>copyin\<close>, \<open>copyinstr\<close>). \<open>umem\<close> is the user's view of memory: the byte a
  virtual address holds.
\<close>

declare of_nat_mult [simp del]

section \<open>Freeing\<close>

lemma kfor_skip: "(\<And>i. i \<in> set xs \<Longrightarrow> body i s = Inr s) \<Longrightarrow> kfor body xs s = Inr s"
  by (induction xs) auto

lemma upt_512: "[0..<512] = 0 # [1..<512]"
  by (simp only: upt_conv_Cons zero_less_numeral One_nat_def)

lemma entry_skip:
  "load64 (pmem s) (pt + of_nat (8 * i)) = 0 \<Longrightarrow> freewalk_entry r pt i s = Inr s"
  by (simp add: freewalk_entry_def Let_def)

lemma freewalk_spec:
  assumes "kmem_inv s ps" "pt_ok l (pmem s) pt" "distinct (pt_pages l (pmem s) pt @ ps)"
    "\<forall>i<512. pte_at l (pmem s) pt i = 0"
  shows "\<exists>s'. freewalk (Suc l) pt s = Inr s' \<and> kmem_inv s' (pt_pages l (pmem s) pt @ ps) \<and>
    (\<forall>q. page_aligned q \<and> q \<notin> set (pt_pages l (pmem s) pt) \<longrightarrow> same_page (pmem s) (pmem s') q) \<and>
    kmem.more s' = kmem.more s"
  using assms
proof (induction l arbitrary: pt s)
  case 0
  then have "\<forall>i<512. load64 (pmem s) (pt + of_nat (8 * i)) = 0" by (simp add: pte_at_def)
  then have "kfor (freewalk_entry (freewalk 0) pt) [0..<512] s = Inr s"
    by (intro kfor_skip entry_skip) auto
  moreover have pt: "ram_page pt" "pt \<notin> set ps" using 0 by simp_all
  obtain s' where "kfree pt s = Inr s'" "kmem_inv s' (pt # ps)"
    "\<forall>q. page_aligned q \<and> q \<noteq> pt \<longrightarrow> same_page (pmem s) (pmem s') q"
    using ka.free_ok [OF 0(1) pt] by blast
  moreover have "kmem.more s' = kmem.more s" using calculation(2) kfree_eq [OF pt(1), of s] by auto
  ultimately show ?case by simp
next
  case (Suc l)
  have pt: "ram_page pt" and z: "\<forall>i\<in>{1..<512}. load64 (pmem s) (pt + of_nat (8 * i)) = 0"
    using Suc.prems(2) by simp_all
  have "\<exists>s2. kfor (freewalk_entry (freewalk (Suc l)) pt) [0..<512] s = Inr s2 \<and>
      kmem_inv s2 (tl (pt_pages (Suc l) (pmem s) pt) @ ps) \<and>
      (\<forall>q. page_aligned q \<and> q \<notin> set (pt_pages (Suc l) (pmem s) pt) \<longrightarrow> same_page (pmem s) (pmem s2) q) \<and>
      kmem.more s2 = kmem.more s"
  proof (cases "load64 (pmem s) pt = 0")
    case True
    then have "load64 (pmem s) (pt + of_nat (8 * i)) = 0" if "i < 512" for i
      using z that by (cases "i = 0") auto
    then have "kfor (freewalk_entry (freewalk (Suc l)) pt) [0..<512] s = Inr s"
      by (intro kfor_skip entry_skip) auto
    then show ?thesis using True Suc.prems(1) by simp
  next
    case False
    with Suc.prems(2) obtain q where
      q: "load64 (pmem s) pt = PA2PTE q OR PTE_V" "ram_page q" "pt_ok l (pmem s) q" by auto
    note n = next_table_entry [OF q(1,2)]
    from n have pg: "pt_pages (Suc l) (pmem s) pt = pt # pt_pages l (pmem s) q" by simp
    have dq: "distinct (pt # pt_pages l (pmem s) q @ ps)" using Suc.prems(3) unfolding pg by simp
    have "\<forall>i<512. pte_at l (pmem s) q i = 0" using Suc.prems(4) n by (simp add: pte_at_def)
    with Suc.IH [OF Suc.prems(1) q(3)] dq obtain s1 where
      s1: "freewalk (Suc l) q s = Inr s1" "kmem_inv s1 (pt_pages l (pmem s) q @ ps)"
      "\<forall>p. page_aligned p \<and> p \<notin> set (pt_pages l (pmem s) q) \<longrightarrow> same_page (pmem s) (pmem s1) p"
      "kmem.more s1 = kmem.more s" by auto
    define s2 where s2: "s2 = s1\<lparr>pmem := store64 (pmem s1) (pt + of_nat 0) 0\<rparr>"
    have ef: "PTE_FLAGS (load64 (pmem s) pt) = PTE_V" using q(1) entry_flags PTE_V_AND(2) by simp
    have e0: "freewalk_entry (freewalk (Suc l)) pt 0 s = Inr s2"
      using n ef s1(1) by (simp add: freewalk_entry_def next_table_def [symmetric] s2 del: freewalk.simps)
    have fr: "same_page (pmem s1) (pmem s2) p" if "page_aligned p" "p \<noteq> pt" for p
      using store64_other_page [OF that(1) _ that(2), of 0] pt by (simp add: s2)
    have "same_page (pmem s) (pmem s1) pt" using s1(3) dq pt by simp
    have rest: "freewalk_entry (freewalk (Suc l)) pt i s2 = Inr s2" if "i \<in> set [1..<512]" for i
    proof (rule entry_skip)
      have "load64 (pmem s2) (pt + of_nat (8 * i)) = load64 (pmem s1) (pt + of_nat (8 * i))"
        unfolding s2 using load64_store64_same_page_other [of pt 0 "8 * i"] that pt by simp
      also have "\<dots> = load64 (pmem s) (pt + of_nat (8 * i))"
        using that by (intro load64_same_page [OF \<open>same_page (pmem s) (pmem s1) pt\<close>]) simp
      finally show "load64 (pmem s2) (pt + of_nat (8 * i)) = 0" using z that by simp
    qed
    have "kfor (freewalk_entry (freewalk (Suc l)) pt) [0..<512] s = Inr s2"
    proof -
      have "kfor (freewalk_entry (freewalk (Suc l)) pt) [1..<512] s2 = Inr s2"
        by (rule kfor_skip) (rule rest)
      then show ?thesis unfolding upt_512 kfor.simps e0 kbind_Inr .
    qed
    moreover have "\<forall>p\<in>set (pt_pages l (pmem s) q @ ps). ram_page p \<and> p \<noteq> pt"
      using dq s1(2) by (auto simp: kmem_inv_def)
    then have "\<forall>p\<in>set (pt_pages l (pmem s) q @ ps). same_page (pmem s1) (pmem s2) p"
      using fr ram_page_aligned by blast
    then have "kmem_inv s2 (pt_pages l (pmem s) q @ ps)"
      using ka.inv_frame [OF s1(2), of "pmem s2"] by (simp add: s2)
    moreover have "\<forall>p. page_aligned p \<and> p \<notin> set (pt_pages (Suc l) (pmem s) pt) \<longrightarrow>
        same_page (pmem s) (pmem s2) p"
      using fr s1(3) unfolding pg by (auto intro: same_page_trans)
    moreover have "kmem.more s2 = kmem.more s" using s1(4) by (simp add: s2)
    ultimately show ?thesis unfolding pg by auto
  qed
  then obtain s2 where s2: "kfor (freewalk_entry (freewalk (Suc l)) pt) [0..<512] s = Inr s2"
      "kmem_inv s2 (tl (pt_pages (Suc l) (pmem s) pt) @ ps)"
      "\<forall>q. page_aligned q \<and> q \<notin> set (pt_pages (Suc l) (pmem s) pt) \<longrightarrow> same_page (pmem s) (pmem s2) q"
      "kmem.more s2 = kmem.more s" by blast
  have pg: "pt_pages (Suc l) (pmem s) pt = pt # tl (pt_pages (Suc l) (pmem s) pt)" by simp
  have "pt \<notin> set (tl (pt_pages (Suc l) (pmem s) pt) @ ps)"
    using Suc.prems(3) by (subst (asm) pg) simp
  from ka.free_ok [OF s2(2) pt this] obtain s' where s': "kfree pt s2 = Inr s'"
    "kmem_inv s' (pt # tl (pt_pages (Suc l) (pmem s) pt) @ ps)"
    "\<forall>q. page_aligned q \<and> q \<noteq> pt \<longrightarrow> same_page (pmem s2) (pmem s') q" by blast
  have "kmem.more s' = kmem.more s" using s'(1) kfree_eq [OF pt, of s2] s2(4) by auto
  moreover have "freewalk (Suc (Suc l)) pt s = Inr s'"
    using s2(1) s'(1) by (subst freewalk.simps(2)) simp
  moreover have "\<forall>q. page_aligned q \<and> q \<notin> set (pt_pages (Suc l) (pmem s) pt) \<longrightarrow>
      same_page (pmem s) (pmem s') q"
    using s2(3) s'(3) by (auto intro: same_page_trans)
  moreover have "kmem_inv s' (pt_pages (Suc l) (pmem s) pt @ ps)" using s'(2) by (subst pg) simp
  ultimately show ?case by blast
qed

lemma uvmfree_spec:
  assumes inv: "uvm_inv s root {..<npg sz} ps" and tf: "pte_val (pmem s) root 255 = 0"
    and sz: "unat sz \<le> 255 * 4096"
  shows "\<exists>s' ps'. uvmfree root sz s = Inr s' \<and> kmem_inv s' ps' \<and>
    set ps' = owned s root {..<npg sz} ps \<and>
    (\<forall>q. page_aligned q \<and> q \<notin> owned s root {..<npg sz} ps \<longrightarrow> same_page (pmem s) (pmem s') q) \<and>
    kmem.more s' = kmem.more s"
proof -
  note P = PGROUNDUP_npg [OF sz]
  have "{0..<npg sz} \<subseteq> {..<npg sz}" by auto
  from uvmunmap_spec [OF inv this] P(1) obtain s1 ps1 where
    u: "uvmunmap root (of_nat (4096 * 0)) (of_nat (npg sz - 0)) True s = Inr s1"
    "uvm_step root {} s {..<npg sz} ps s1 {} ps1"
    by (auto simp: lessThan_atLeast0 [symmetric])
  have r: "PGROUNDUP sz div PGSIZE = of_nat (npg sz)"
    using of_nat_pages_diff [of 0 "npg sz"] P by (simp add: PGSIZE_def)
  have u1: "uvmunmap root 0 (of_nat (npg sz)) True s = Inr s1" using u(1) by simp
  have st: "(if sz > 0 then uvmunmap root 0 (PGROUNDUP sz div PGSIZE) True s else Inr s) = Inr s1"
  proof (cases "sz > 0")
    case False
    then have "sz = 0" by (simp add: word_neq_0_conv [symmetric] del: word_neq_0_conv)
    then have "npg sz = 0" by (simp add: npg_def)
    then have "s1 = s" using u1 by (simp add: uvmunmap_def uvmunmap_loop.simps)
    then show ?thesis using False by simp
  qed (simp add: r u1)
  have inv1: "uvm_inv s1 root {} ps1" and ow: "owned s1 root {} ps1 = owned s root {..<npg sz} ps"
    and mo: "kmem.more s1 = kmem.more s" and p255: "pte_val (pmem s1) root 255 = 0"
    and ext: "\<forall>q. page_aligned q \<and> q \<notin> owned s root {..<npg sz} ps \<longrightarrow> same_page (pmem s) (pmem s1) q"
    using u(2) tf by (simp_all add: uvm_step_def)
  have "\<forall>i<512. pte_at 3 (pmem s1) root i = 0"
    using inv1 p255 by (auto simp: uvm_inv_def pte_val_def)
  with freewalk_spec [of s1 ps1 3 root] inv1 obtain s' where
    s': "freewalk 4 root s1 = Inr s'" "kmem_inv s' (tables s1 root @ ps1)"
    "\<forall>q. page_aligned q \<and> q \<notin> set (tables s1 root) \<longrightarrow> same_page (pmem s1) (pmem s') q"
    "kmem.more s' = kmem.more s1"
    by (auto simp: uvm_inv_def vm_inv_def)
  have ow1: "owned s1 root {} ps1 = set (tables s1 root @ ps1)" by (auto simp: owned_def)
  have "uvmfree root sz s = Inr s'" using st s'(1) by (simp add: uvmfree_def)
  moreover have "\<forall>q. page_aligned q \<and> q \<notin> owned s root {..<npg sz} ps \<longrightarrow> same_page (pmem s) (pmem s') q"
    using ext s'(3) ow ow1 by (auto intro: same_page_trans)
  ultimately show ?thesis using s' ow ow1 mo by (intro exI [of _ s'] exI [of _ "tables s1 root @ ps1"]) simp
qed

section \<open>Copying an address space\<close>

lemma uint_flags_ok: "uint_flags e AND PAMASK = 0"
proof -
  have "uint_flags e = take_bit 32 (PTE_FLAGS e)"
    unfolding uint_flags_def by (auto intro!: bit_word_eqI simp: bit_simps)
  also have "\<dots> = e AND (0xE0000000000001FF AND mask 32)"
    unfolding PTE_FLAGS_def take_bit_eq_mask by (simp add: ac_simps)
  finally have "uint_flags e AND PAMASK = e AND ((0xE0000000000001FF AND mask 32) AND PAMASK)"
    by (simp add: ac_simps)
  also have "(0xE0000000000001FF AND mask 32) AND PAMASK = 0"
    by (simp add: PAMASK_def mask_eq_exp_minus_1)
  finally show ?thesis by simp
qed

text \<open>A page of the parent as \<open>uvmcopy\<close> needs it: present, a leaf by its low flags, in RAM.\<close>

definition copyable :: "'a kmem_scheme \<Rightarrow> u64 \<Rightarrow> nat \<Rightarrow> bool" where
  "copyable s old j \<longleftrightarrow>
     pte_val (pmem s) old j AND PTE_V \<noteq> 0 \<and>
     PTE_FLAGS (uint_flags (pte_val (pmem s) old j) OR PTE_V) \<noteq> PTE_V \<and> ram_page (upage s old j)"

text \<open>An address space none of whose pages belongs to \<open>X\<close>.\<close>

definition apart :: "'a kmem_scheme \<Rightarrow> u64 \<Rightarrow> nat \<Rightarrow> u64 set \<Rightarrow> bool" where
  "apart s old n X \<longleftrightarrow> pt_ok 3 (pmem s) old \<and> (\<forall>j<n. copyable s old j) \<and>
     (set (tables s old) \<union> upage s old ` {..<n}) \<inter> X = {}"

lemma apart_frame:
  assumes "apart s old n X" "n \<le> 255" "\<forall>q. page_aligned q \<and> q \<notin> X \<longrightarrow> same_page (pmem s) (pmem s') q"
  shows "apart s' old n X" "\<forall>j<n. pte_val (pmem s') old j = pte_val (pmem s) old j"
    "\<forall>j<n. upage s' old j = upage s old j"
    "\<forall>j<n. same_page (pmem s) (pmem s') (upage s old j)"
proof -
  have ok: "pt_ok 3 (pmem s) old" using assms(1) by (simp add: apart_def)
  have "\<forall>q\<in>set (tables s old). ram_page q \<and> q \<notin> X"
    using pt_ok_ram [OF ok] assms(1) by (auto simp: apart_def)
  then have t: "\<forall>q\<in>set (tables s old). same_page (pmem s) (pmem s') q"
    using assms(3) ram_page_aligned by blast
  note tf = pt_frame [OF t]
  show pv: "\<forall>j<n. pte_val (pmem s') old j = pte_val (pmem s) old j"
    using pte_at_frame [OF t] assms(2) by (simp add: pte_val_def)
  then show up: "\<forall>j<n. upage s' old j = upage s old j" by (simp add: upage_def)
  show "apart s' old n X"
    using assms(1) tf(1) tf(3) [OF ok] pv up by (auto simp: apart_def copyable_def)
  show "\<forall>j<n. same_page (pmem s) (pmem s') (upage s old j)"
  proof (intro allI impI)
    fix j
    assume "j < n"
    then have "ram_page (upage s old j)" "upage s old j \<notin> X"
      using assms(1) by (auto simp: apart_def copyable_def)
    then show "same_page (pmem s) (pmem s') (upage s old j)" using assms(3) by simp
  qed
qed

text \<open>Page \<open>j\<close> of the child holds the bytes of page \<open>j\<close> of the parent, with its low flags.\<close>

definition copied :: "'a kmem_scheme \<Rightarrow> u64 \<Rightarrow> 'a kmem_scheme \<Rightarrow> u64 \<Rightarrow> nat \<Rightarrow> bool" where
  "copied s old s' new j \<longleftrightarrow>
     load_bytes (pmem s') (upage s' new j) 4096 = load_bytes (pmem s) (upage s old j) 4096 \<and>
     PTE_FLAGS (pte_val (pmem s') new j) = PTE_FLAGS (uint_flags (pte_val (pmem s) old j) OR PTE_V)"

lemma page_bytes_same: "same_page m m' p \<Longrightarrow> load_bytes m' p 4096 = load_bytes m p 4096"
  using load_bytes_same_page [of m m' p 0 4096] by simp

lemma copied_step:
  assumes "copied s old s1 new j" "uvm_step new K s1 D ps s2 D2 ps2" "j \<in> K"
  shows "copied s old s2 new j"
proof -
  have "pte_val (pmem s2) new j = pte_val (pmem s1) new j" "same_page (pmem s1) (pmem s2) (upage s1 new j)"
    using assms(2,3) by (simp_all add: uvm_step_def)
  then show ?thesis using assms(1) by (simp add: copied_def upage_def page_bytes_same)
qed

lemma ram_page_lt: "ram_page p \<Longrightarrow> unat p + 4096 < 2 ^ 64"
  by (simp add: ram_page_def RAMSTOP_num word_less_nat_alt)

lemma apart_leaf:
  assumes "apart s old n X" "j < n" "n \<le> 255"
  shows "\<exists>t. walk old (of_nat (4096 * j)) False s = Inr (t, s) \<and> t \<noteq> 0 \<and>
    load64 (pmem s) t = pte_val (pmem s) old j"
proof -
  have j: "j < 256" using assms by simp
  have v: "pte_val (pmem s) old j \<noteq> 0" using assms by (auto simp: apart_def copyable_def)
  then obtain t where t: "leaf_table 3 (pmem s) old = Some t"
    by (auto simp: pte_val_def pte_at_def split: option.splits)
  then have "ram_page t" using assms(1) by (auto simp: apart_def intro: pt_ok_ram leaf_in_pages)
  then have "t + of_nat (8 * j) \<noteq> 0" using j by (intro ram_plus_nonzero) simp_all
  moreover have "walk old (of_nat (4096 * j)) False s = Inr (t + of_nat (8 * j), s)"
    using walk_level_present [OF t vpn_addr(2) [OF j]] vpn_addr(2,3) [OF j] by (simp add: walk_def)
  moreover have "load64 (pmem s) (t + of_nat (8 * j)) = pte_val (pmem s) old j"
    using t by (simp add: pte_val_def pte_at_def)
  ultimately show ?thesis by blast
qed

lemma uvmcopy_loop_spec:
  assumes "uvm_inv s new {..<i} ps" "apart s old (npg sz) (owned s new {..<i} ps)"
    "i \<le> npg sz" "unat sz \<le> 255 * 4096"
  shows "\<exists>r s' ps'. uvmcopy_loop old new (of_nat (4096 * i)) sz s = Inr (r, s') \<and>
    (r = 0 \<and> uvm_step new {..<i} s {..<i} ps s' {..<npg sz} ps' \<and>
       (\<forall>j\<in>{i..<npg sz}. copied s old s' new j) \<or>
     r = - 1 \<and> uvm_step new {} s {..<i} ps s' {} ps' \<and>
       card (owned s new {..<i} ps) \<le> npg sz + 4)"
  using assms
proof (induction "npg sz - i" arbitrary: i s ps)
  case 0
  then have "i = npg sz" by simp
  moreover have "npg sz \<le> 255" using PGROUNDUP_npg(1) [OF 0(5)] .
  ultimately have "\<not> (of_nat (4096 * i) :: u64) < sz" using lt_npg by simp
  then show ?case using \<open>i = npg sz\<close> uvm_step_refl [OF 0(2)]
    by (auto simp: uvmcopy_loop.simps)
next
  case (Suc k)
  let ?a = "of_nat (4096 * i) :: u64"
  have n: "npg sz \<le> 255" using PGROUNDUP_npg(1) [OF Suc.prems(4)] .
  have i: "i < npg sz" "i < 255" "i \<notin> {..<i}" using Suc.hyps(2) n by auto
  have lt: "?a < sz" using i lt_npg by simp
  obtain t where t: "walk old ?a False s = Inr (t, s)" "t \<noteq> 0"
    "load64 (pmem s) t = pte_val (pmem s) old i"
    using apart_leaf [OF Suc.prems(2) i(1) n] by blast
  have c: "copyable s old i" "upage s old i \<notin> owned s new {..<i} ps"
    using Suc.prems(2) i by (auto simp: apart_def)
  then have v: "pte_val (pmem s) old i AND PTE_V \<noteq> 0" "ram_page (upage s old i)"
    "PTE_FLAGS (uint_flags (pte_val (pmem s) old i) OR PTE_V) \<noteq> PTE_V"
    by (simp_all add: copyable_def)
  have dv: "?a div 4096 = of_nat (i - 0)" using of_nat_pages_diff [of 0 i] i by simp
  have un: "\<exists>s' ps'. uvmunmap new 0 (?a div 4096) True s1 = Inr s' \<and>
      uvm_step new {} s1 {..<i} qs s' {} ps'" if "uvm_inv s1 new {..<i} qs" for s1 qs
    using uvmunmap_spec [OF that, of 0 i] i unfolding dv by (auto simp: lessThan_atLeast0 [symmetric])
  show ?case
  proof (cases ps)
    case Nil
    then have al: "kalloc s = (0, s)"
      using Suc.prems(1) by (auto simp: uvm_inv_def vm_inv_def dest: ka.alloc_none)
    obtain s' ps' where u: "uvmunmap new 0 (?a div 4096) True s = Inr s'"
      "uvm_step new {} s {..<i} ps s' {} ps'" using un [OF Suc.prems(1)] by blast
    have "uvmcopy_loop old new ?a sz s = Inr (- 1, s')"
      using lt t v al u(1) by (simp add: uvmcopy_loop.simps [of old new ?a] Let_def PGSIZE_def)
    then show ?thesis using u(2) card_owned_le [OF subset_refl, of s new i ps] i(1) Nil by auto
  next
    case (Cons p ps1)
    then have inv: "uvm_inv s new {..<i} (p # ps1)" using Suc.prems(1) by simp
    then have ki: "kmem_inv s (p # ps1)" by (simp add: uvm_inv_def vm_inv_def)
    then obtain s1 where al: "kalloc s = (p, s1)"
      "\<forall>q. page_aligned q \<and> q \<noteq> p \<longrightarrow> same_page (pmem s) (pmem s1) q"
      using ka.alloc_some by blast
    have p: "ram_page p" using ki by (auto simp: kmem_inv_def)
    let ?m1 = "memmove p (upage s old i) 4096 (pmem s1)"
    have m1: "?m1 = store_bytes (pmem s1) (p + of_nat 0) (load_bytes (pmem s1) (upage s old i) 4096)"
      using ram_page_lt [OF p] ram_page_lt [OF v(2)] by (subst memmove_eq_store) simp_all
    have fill: "\<forall>q. page_aligned q \<and> q \<noteq> p \<longrightarrow> same_page (pmem s1) ?m1 q"
      unfolding m1 using p
      by (auto intro: store_bytes_other_page [where off = 0, simplified])
    have "upage s old i \<noteq> p" using c(2) Cons by (auto simp: owned_def)
    then have "load_bytes (pmem s1) (upage s old i) 4096 = load_bytes (pmem s) (upage s old i) 4096"
      using al(2) v(2) by (intro page_bytes_same) simp
    then have bytes: "load_bytes ?m1 p 4096 = load_bytes (pmem s) (upage s old i) 4096"
      unfolding m1 using load_store_bytes_same [of "load_bytes (pmem s) (upage s old i) 4096" "pmem s1" p] by simp
    let ?f = "uint_flags (pte_val (pmem s) old i)"
    from alloc_map [OF inv al(1) fill i(2,3) uint_flags_ok v(3)] obtain r s2 ps2 where
      m: "mappages new ?a 4096 p ?f (s1\<lparr>pmem := ?m1\<rparr>) = Inr (r, s2)" and
      cs: "r = 0 \<and> uvm_step new {..<i} s {..<i} (p # ps1) s2 (insert i {..<i}) ps2 \<and>
       pte_val (pmem s2) new i = PA2PTE p OR ?f OR PTE_V \<and> upage s2 new i = p \<and>
       same_page ?m1 (pmem s2) p \<or>
       r = - 1 \<and> (\<exists>s3. kfree p s2 = Inr s3 \<and> uvm_step new {..<i} s {..<i} (p # ps1) s3 {..<i} [p])"
      by blast
    from cs show ?thesis
    proof (elim disjE conjE exE)
      assume r: "r = 0" and st0: "uvm_step new {..<i} s {..<i} (p # ps1) s2 (insert i {..<i}) ps2"
        and e: "pte_val (pmem s2) new i = PA2PTE p OR ?f OR PTE_V" "upage s2 new i = p"
          "same_page ?m1 (pmem s2) p"
      have se: "insert i {..<i} = {..<Suc i}" by auto
      have st: "uvm_step new {..<i} s {..<i} ps s2 {..<Suc i} ps2" using st0 unfolding se Cons .
      have ci: "copied s old s2 new i"
        using e bytes page_bytes_same [OF e(3)] by (simp add: copied_def entry_flags or.assoc)
      have inv2: "uvm_inv s2 new {..<Suc i} ps2" and ow: "owned s2 new {..<Suc i} ps2 = owned s new {..<i} ps"
        and ext: "\<forall>q. page_aligned q \<and> q \<notin> owned s new {..<i} ps \<longrightarrow> same_page (pmem s) (pmem s2) q"
        using st by (simp_all add: uvm_step_def)
      note ap = apart_frame [OF Suc.prems(2) n ext]
      have "\<exists>r s' ps'. uvmcopy_loop old new (of_nat (4096 * Suc i)) sz s2 = Inr (r, s') \<and>
        (r = 0 \<and> uvm_step new {..<Suc i} s2 {..<Suc i} ps2 s' {..<npg sz} ps' \<and>
           (\<forall>j\<in>{Suc i..<npg sz}. copied s2 old s' new j) \<or>
         r = - 1 \<and> uvm_step new {} s2 {..<Suc i} ps2 s' {} ps' \<and>
           card (owned s2 new {..<Suc i} ps2) \<le> npg sz + 4)"
        using Suc.hyps(2) Suc.prems(4) i inv2 ap(1) ow by (intro Suc.hyps(1)) auto
      then obtain r' s' ps' where
        l: "uvmcopy_loop old new (of_nat (4096 * Suc i)) sz s2 = Inr (r', s')" and
        cc: "r' = 0 \<and> uvm_step new {..<Suc i} s2 {..<Suc i} ps2 s' {..<npg sz} ps' \<and>
           (\<forall>j\<in>{Suc i..<npg sz}. copied s2 old s' new j) \<or>
         r' = - 1 \<and> uvm_step new {} s2 {..<Suc i} ps2 s' {} ps' \<and>
           card (owned s2 new {..<Suc i} ps2) \<le> npg sz + 4" by blast
      have nxt: "?a + 4096 = of_nat (4096 * Suc i)" by (simp add: of_nat_mult algebra_simps)
      have eq: "uvmcopy_loop old new ?a sz s = Inr (r', s')"
        using lt t v al(1) p m r l
        by (simp add: uvmcopy_loop.simps [of old new ?a] PGSIZE_def Let_def nxt upage_def)
      from cc show ?thesis
      proof (elim disjE conjE)
        assume r': "r' = 0" and st': "uvm_step new {..<Suc i} s2 {..<Suc i} ps2 s' {..<npg sz} ps'"
          and cp: "\<forall>j\<in>{Suc i..<npg sz}. copied s2 old s' new j"
        have "copied s old s' new j" if "j \<in> {i..<npg sz}" for j
        proof (cases "j = i")
          case True
          then show ?thesis using copied_step [OF ci st'] by simp
        next
          case False
          then have "copied s2 old s' new j" using cp that by auto
          moreover have "load_bytes (pmem s2) (upage s2 old j) 4096 = load_bytes (pmem s) (upage s old j) 4096"
            using ap(3,4) that by (simp add: page_bytes_same)
          ultimately show ?thesis using ap(2) that by (simp add: copied_def)
        qed
        moreover have "uvm_step new {..<i} s {..<i} ps s' {..<npg sz} ps'"
          using uvm_step_trans [OF st st', of "{..<i}"] by auto
        ultimately show ?thesis using eq r' by blast
      next
        assume r': "r' = - 1" and st': "uvm_step new {} s2 {..<Suc i} ps2 s' {} ps'"
          and ca: "card (owned s2 new {..<Suc i} ps2) \<le> npg sz + 4"
        then show ?thesis using eq uvm_step_trans [OF st st', of "{}"] ow by auto
      qed
    next
      fix s3
      assume r: "r = - 1" and k: "kfree p s2 = Inr s3"
        and st: "uvm_step new {..<i} s {..<i} (p # ps1) s3 {..<i} [p]"
      have inv3: "uvm_inv s3 new {..<i} [p]" using st by (simp add: uvm_step_def)
      obtain s' ps' where u: "uvmunmap new 0 (?a div 4096) True s3 = Inr s'"
        "uvm_step new {} s3 {..<i} [p] s' {} ps'" using un [OF inv3] by blast
      have "uvmcopy_loop old new ?a sz s = Inr (- 1, s')"
        using lt t v al(1) p m r k u(1)
        by (simp add: uvmcopy_loop.simps [of old new ?a] PGSIZE_def Let_def upage_def)
      moreover have "card (owned s new {..<i} ps) \<le> npg sz + 4"
        using card_owned_le [OF subset_refl, of s3 new i "[p]"] i(1) st Cons by (simp add: uvm_step_def)
      ultimately show ?thesis using uvm_step_trans [OF st u(2), of "{}"] Cons by auto
    qed
  qed
qed

section \<open>User memory\<close>

definition user_page :: "'a kmem_scheme \<Rightarrow> u64 \<Rightarrow> nat \<Rightarrow> bool" where
  "user_page s root i \<longleftrightarrow> i < 256 \<and> pte_val (pmem s) root i AND PTE_V \<noteq> 0 \<and>
     pte_val (pmem s) root i AND PTE_PLV \<noteq> 0"

definition umem :: "'a kmem_scheme \<Rightarrow> u64 \<Rightarrow> nat \<Rightarrow> byte" where
  "umem s root x = pmem s (upage s root (x div 4096) + of_nat (x mod 4096))"

text \<open>All pages user code may touch are pages of the process; the trapframe page is not.\<close>

definition user_inv :: "'a kmem_scheme \<Rightarrow> u64 \<Rightarrow> nat set \<Rightarrow> u64 list \<Rightarrow> bool" where
  "user_inv s root D ps \<longleftrightarrow> uvm_inv s root D ps \<and> (\<forall>i. user_page s root i \<longrightarrow> i \<in> D)"

lemma window_add:
  assumes "off < 4096"
  shows "(PTE2PA e + of_nat off) OR DMWIN_MASK = (PTE2PA e OR DMWIN_MASK) + of_nat off"
proof -
  have P: "PAMASK = push_bit 12 (mask 36)" by (simp add: PAMASK_def mask_eq_exp_minus_1)
  have "PTE2PA e = take_bit 48 (PTE2PA e)" unfolding PTE2PA_def P
    by (auto intro!: bit_word_eqI simp: bit_simps)
  then have lt: "unat (PTE2PA e) < 2 ^ 48"
    by (metis unsigned_take_bit_eq take_bit_nat_less_exp)
  have "take_bit 12 (PTE2PA e) = 0" unfolding PTE2PA_def P
    by (auto intro!: bit_word_eqI simp: bit_simps)
  then have "unat (take_bit 12 (PTE2PA e)) = 0" by simp
  then have al: "unat (PTE2PA e) mod 4096 = 0" by (simp add: take_bit_eq_mod unat_mod)
  then obtain k where k: "unat (PTE2PA e) = 4096 * k" by (metis mod_0_imp_dvd dvdE)
  have "4096 * k < 4096 * 2 ^ 36" using lt k by simp
  then have "Suc k \<le> 2 ^ 36" by simp
  then have "4096 * Suc k \<le> 4096 * 2 ^ 36" by (rule mult_le_mono2)
  then have b: "unat (PTE2PA e) + off < 2 ^ 48" using k assms by simp
  have uo: "unat (of_nat off :: u64) = off" using assms by (intro unat_of_nat_eq) simp
  have small: "x AND DMWIN_MASK = 0" if "unat x < 2 ^ 48" for x :: u64
  proof -
    have "take_bit 48 x = x" using that by (simp add: word_unat_eq_iff unsigned_take_bit_eq take_bit_nat_eq_self)
    then have "x AND DMWIN_MASK = x AND (mask 48 AND DMWIN_MASK)"
      by (metis and.assoc and.commute take_bit_eq_mask)
    also have "mask 48 AND DMWIN_MASK = (0 :: u64)" by (simp add: DMWIN_MASK_def mask_eq_exp_minus_1)
    finally show ?thesis by simp
  qed
  have "unat (PTE2PA e + of_nat off) < 2 ^ 48"
    using b uo by (simp add: unat_word_ariths)
  then have "(PTE2PA e + of_nat off) OR DMWIN_MASK = PTE2PA e + of_nat off + DMWIN_MASK"
    by (simp add: disjunctive_add_eq_or small)
  also have "\<dots> = (PTE2PA e OR DMWIN_MASK) + of_nat off"
    using disjunctive_add_eq_or [OF small [OF lt]] by (simp add: ac_simps)
  finally show ?thesis .
qed

lemma walkaddr_page:
  assumes "pt_ok 3 (pmem s) root" "i < 256"
  shows "walkaddr root (of_nat (4096 * i)) s =
    Inr (if user_page s root i then PTE2PA (pte_val (pmem s) root i) else 0)"
proof -
  note va = vpn_addr [OF assms(2)]
  have nm: "\<not> MAXVA \<le> (of_nat (4096 * i) :: u64)" using va(2) by simp
  show ?thesis
  proof (cases "leaf_table 3 (pmem s) root")
    case None
    then have "pte_val (pmem s) root i = 0" by (simp add: pte_val_def pte_at_def)
    then show ?thesis using None nm walk_level_noalloc [OF va(2), of 3 root s]
      by (simp add: walkaddr_def walk_def user_page_def)
  next
    case (Some t)
    then have "ram_page t" using assms(1) by (auto intro: pt_ok_ram leaf_in_pages)
    then have "t + of_nat (8 * i) \<noteq> 0" using assms(2) by (intro ram_plus_nonzero) simp_all
    moreover have "load64 (pmem s) (t + of_nat (8 * i)) = pte_val (pmem s) root i"
      using Some by (simp add: pte_val_def pte_at_def)
    ultimately show ?thesis using Some nm walk_level_noalloc [OF va(2), of 3 root s] assms(2)
      by (simp add: walkaddr_def walk_def user_page_def va(3))
  qed
qed

lemma walkaddr_PGROUNDDOWN:
  assumes "pt_ok 3 (pmem s) root"
  shows "walkaddr root (PGROUNDDOWN va) s =
    Inr (if user_page s root (unat va div 4096) then PTE2PA (pte_val (pmem s) root (unat va div 4096)) else 0)"
proof (cases "unat va div 4096 < 256")
  case True
  have "PGROUNDDOWN va = of_nat (4096 * (unat va div 4096))"
    using vpn_addr(1) [OF True] by (simp add: word_unat_eq_iff unat_PGROUNDDOWN mult.commute)
  then show ?thesis using walkaddr_page [OF assms True] by simp
next
  case False
  then have "256 * 4096 \<le> unat va div 4096 * 4096" by simp
  then have "MAXVA \<le> PGROUNDDOWN va" by (simp add: MAXVA_def word_le_nat_alt unat_PGROUNDDOWN)
  then show ?thesis using False by (simp add: walkaddr_def user_page_def)
qed

lemma user_page_ram:
  assumes "user_inv s root D ps" "user_page s root i"
  shows "i \<in> D" "ram_page (upage s root i)" "PTE2PA (pte_val (pmem s) root i) \<noteq> 0"
proof -
  show i: "i \<in> D" using assms by (simp add: user_inv_def)
  then show r: "ram_page (upage s root i)" using assms(1) by (simp add: user_inv_def uvm_inv_def)
  show "PTE2PA (pte_val (pmem s) root i) \<noteq> 0"
  proof
    assume "PTE2PA (pte_val (pmem s) root i) = 0"
    then have "upage s root i = DMWIN_MASK" by (simp add: upage_def)
    then show False using r by (simp add: ram_page_def RAMBASE_num DMWIN_MASK_def)
  qed
qed

text \<open>One iteration of a copying loop: the physical address of a user address.\<close>

lemma user_addr:
  "(PTE2PA (pte_val (pmem s) root (unat va div 4096)) + (va - PGROUNDDOWN va)) OR DMWIN_MASK =
    upage s root (unat va div 4096) + of_nat (unat va mod 4096)"
proof -
  have "va - PGROUNDDOWN va = of_nat (unat va mod 4096)"
    using unat_page_offset [of va] by (metis of_nat_unat ucast_id)
  then show ?thesis by (simp add: upage_def window_add)
qed

lemma same_vpn:
  assumes "x mod 4096 + i < (4096 :: nat)"
  shows "(x + i) div 4096 = x div 4096" "(x + i) mod 4096 = x mod 4096 + i"
proof -
  define q r where qr: "q = x div 4096" "r = x mod 4096"
  then have x: "x = q * 4096 + r" by simp
  have lt: "r + i < 4096" using assms qr by simp
  have e: "x + i = (r + i) + q * 4096" using x by simp
  have "(x + i) div 4096 = q" unfolding e using lt by (subst div_mult_self1) simp_all
  moreover have "(x + i) mod 4096 = r + i" unfolding e using lt by (subst mod_mult_self1) simp
  ultimately show "(x + i) div 4096 = x div 4096" "(x + i) mod 4096 = x mod 4096 + i" using qr by simp_all
qed

lemma load_user_bytes:
  assumes "x mod 4096 + n \<le> 4096"
  shows "load_bytes (pmem s) (upage s root (x div 4096) + of_nat (x mod 4096)) n = map (umem s root) [x..<x + n]"
proof (rule nth_equalityI)
  fix i
  assume "i < length (load_bytes (pmem s) (upage s root (x div 4096) + of_nat (x mod 4096)) n)"
  then have i: "i < n" by simp
  then have "(x + i) div 4096 = x div 4096" "(x + i) mod 4096 = x mod 4096 + i"
    using assms same_vpn [of x i] by simp_all
  then show "load_bytes (pmem s) (upage s root (x div 4096) + of_nat (x mod 4096)) n ! i =
      map (umem s root) [x..<x + n] ! i"
    using i by (simp add: umem_def ac_simps)
qed simp

lemma next_page_addr:
  assumes "unat va div 4096 < 256"
  shows "unat (PGROUNDDOWN va + 4096) = 4096 * Suc (unat va div 4096)"
proof -
  have "unat va div 4096 * 4096 < 2 ^ 64 - 4096" using assms by simp
  then show ?thesis by (simp add: unat_word_ariths unat_PGROUNDDOWN)
qed

lemma uvm_inv_frame:
  assumes u: "uvm_inv s root D ps" and t: "\<forall>q\<in>set (tables s root). same_page (pmem s) (pmem s') q"
    and k: "kmem_inv s' ps"
  shows "\<forall>j<512. pte_val (pmem s') root j = pte_val (pmem s) root j"
    "\<forall>j<512. upage s' root j = upage s root j" "tables s' root = tables s root"
    "uvm_inv s' root D ps"
proof -
  note tf = pt_frame [OF t]
  show pv: "\<forall>j<512. pte_val (pmem s') root j = pte_val (pmem s) root j"
    using pte_at_frame [OF t] by (simp add: pte_val_def)
  then show up: "\<forall>j<512. upage s' root j = upage s root j" by (simp add: upage_def)
  show "tables s' root = tables s root" by (rule tf(1))
  have Dl: "j < 512" if "j \<in> D" for j using u that by (auto simp: uvm_inv_def)
  have "vm_inv s' root ps" using u tf(1) tf(3) k by (simp add: uvm_inv_def vm_inv_def)
  moreover have "inj_on (upage s' root) D"
    using inj_on_cong [of D "upage s' root" "upage s root"] u up Dl by (simp add: uvm_inv_def)
  moreover have "\<forall>i\<in>D. pte_val (pmem s') root i = pte_val (pmem s) root i \<and> upage s' root i = upage s root i"
    using pv up Dl by simp
  ultimately show "uvm_inv s' root D ps" using u pv tf(1) by (simp add: uvm_inv_def)
qed

lemma store_user_bytes:
  assumes inv: "user_inv s root D ps" and i: "x div 4096 \<in> D" and n: "x mod 4096 + length bs \<le> 4096"
    and s': "s' = s\<lparr>pmem := store_bytes (pmem s) (upage s root (x div 4096) + of_nat (x mod 4096)) bs\<rparr>"
  shows "user_inv s' root D ps" "\<forall>j<512. pte_val (pmem s') root j = pte_val (pmem s) root j"
    "\<And>y. y div 4096 \<in> D \<Longrightarrow>
       umem s' root y = (if x \<le> y \<and> y < x + length bs then bs ! (y - x) else umem s root y)"
    "owned s' root D ps = owned s root D ps"
    "\<forall>q. page_aligned q \<and> q \<notin> owned s root D ps \<longrightarrow> same_page (pmem s) (pmem s') q"
proof -
  let ?p = "upage s root (x div 4096)"
  have u: "uvm_inv s root D ps" using inv by (simp add: user_inv_def)
  have p: "ram_page ?p" "?p \<notin> set (tables s root)" "?p \<notin> set ps"
    using u i by (auto simp: uvm_inv_def)
  have fr: "same_page (pmem s) (pmem s') q" if "page_aligned q" "q \<noteq> ?p" for q
    unfolding s' using store_bytes_other_page [OF that(1) _ that(2) n] p(1) by simp
  have ok: "pt_ok 3 (pmem s) root" "kmem_inv s ps" using u by (simp_all add: uvm_inv_def vm_inv_def)
  have "\<forall>q\<in>set (tables s root). ram_page q \<and> q \<noteq> ?p" using pt_ok_ram [OF ok(1)] p by auto
  then have t: "\<forall>q\<in>set (tables s root). same_page (pmem s) (pmem s') q"
    using fr ram_page_aligned by blast
  have "\<forall>q\<in>set ps. ram_page q \<and> q \<noteq> ?p" using p ok(2) by (auto simp: kmem_inv_def)
  then have "\<forall>q\<in>set ps. same_page (pmem s) (pmem s') q" using fr ram_page_aligned by blast
  then have "kmem_inv s' ps" using ka.inv_frame [OF ok(2), of "pmem s'"] by (simp add: s')
  note uf = uvm_inv_frame [OF u t this]
  show pv: "\<forall>j<512. pte_val (pmem s') root j = pte_val (pmem s) root j" by (rule uf(1))
  have Dl: "j < 512" if "j \<in> D" for j using u that by (auto simp: uvm_inv_def)
  have up: "upage s' root j = upage s root j" if "j \<in> D" for j using uf(2) Dl [OF that] by simp
  note uf(4)
  moreover have "user_page s' root j = user_page s root j" for j
    using pv by (auto simp: user_page_def)
  ultimately show "user_inv s' root D ps" using inv by (simp add: user_inv_def)
  have im: "upage s' root ` D = upage s root ` D" using up by (intro image_cong) simp_all
  show "owned s' root D ps = owned s root D ps" using im uf(3) by (simp add: owned_def)
  have pin: "?p \<in> owned s root D ps" using i by (auto simp: owned_def)
  show "\<forall>q. page_aligned q \<and> q \<notin> owned s root D ps \<longrightarrow> same_page (pmem s) (pmem s') q"
    using fr pin by blast
  fix y
  assume y: "y div 4096 \<in> D"
  let ?py = "upage s root (y div 4096)" and ?oy = "y mod 4096" and ?ox = "x mod 4096"
  have ry: "page_aligned ?py" using u y by (auto simp: uvm_inv_def)
  have uy: "umem s' root y = pmem s' (?py + of_nat ?oy)" using up [OF y] by (simp add: umem_def)
  have yx: "y = y div 4096 * 4096 + ?oy" "x = x div 4096 * 4096 + ?ox" by simp_all
  show "umem s' root y = (if x \<le> y \<and> y < x + length bs then bs ! (y - x) else umem s root y)"
  proof (cases "y div 4096 = x div 4096")
    case True
    have ua: "unat (?p + of_nat ?oy) = unat ?p + ?oy" "unat (?p + of_nat ?ox) = unat ?p + ?ox"
      using p(1) by (simp_all add: page_plus_no_wrap)
    have us: "unat (?p + of_nat ?oy - (?p + of_nat ?ox)) =
        (if ?ox \<le> ?oy then ?oy - ?ox else ?oy + 2 ^ 64 - ?ox)"
      unfolding unat_sub_if' ua by auto
    have le: "x \<le> y \<longleftrightarrow> ?ox \<le> ?oy" "y - x = ?oy - ?ox"
      using yx True by (metis add_le_cancel_left) (metis yx True diff_cancel)
    define k where k: "k = unat (?p + of_nat ?oy - (?p + of_nat ?ox))"
    have st: "umem s' root y = (if k < length bs then bs ! k else umem s root y)"
      unfolding uy k by (simp add: s' store_bytes_def Let_def True umem_def)
    show ?thesis
    proof (cases "?ox \<le> ?oy")
      case True
      then have "k = y - x" "x \<le> y" using us le k by simp_all
      then show ?thesis using st by auto
    next
      case False
      moreover have "?ox < 4096" by simp
      ultimately have "4096 \<le> k" unfolding k us by simp
      then have "\<not> k < length bs" using n by linarith
      then show ?thesis using st False le(1) by simp
    qed
  next
    case False
    then have "?py \<noteq> ?p" using u y i by (auto simp: uvm_inv_def inj_on_def)
    then have "same_page (pmem s) (pmem s') ?py" using fr ry by simp
    then have "umem s' root y = umem s root y" using uy by (simp add: umem_def [of s] same_page_def)
    moreover have "\<not> (x \<le> y \<and> y < x + length bs)"
    proof
      assume a: "x \<le> y \<and> y < x + length bs"
      then have "(x + (y - x)) div 4096 = x div 4096" using n by (intro same_vpn) auto
      with a False show False by simp
    qed
    ultimately show ?thesis by auto
  qed
qed

text \<open>The address range of a transfer, page by page.\<close>

definition user_range :: "'a kmem_scheme \<Rightarrow> u64 \<Rightarrow> nat \<Rightarrow> nat \<Rightarrow> bool" where
  "user_range s root x n \<longleftrightarrow> (\<forall>y\<in>{x..<x + n}. user_page s root (y div 4096))"

lemma chunk_range:
  assumes "c = min (4096 - x mod 4096) n" "0 < n"
  shows "user_range s root x n \<longleftrightarrow> user_page s root (x div 4096) \<and> user_range s root (x + c) (n - c)"
    "0 < c" "c \<le> n" "x mod 4096 + c \<le> 4096" "c < n \<Longrightarrow> x + c = 4096 * Suc (x div 4096)"
proof -
  show c: "0 < c" "c \<le> n" "x mod 4096 + c \<le> 4096" using assms by (auto simp: min_def)
  have vpn: "y div 4096 = x div 4096" if "y \<in> {x..<x + c}" for y
  proof -
    from that obtain k where "y = x + k" "k < c" by (auto simp: le_iff_add)
    then show ?thesis using same_vpn(1) [of x k] c by simp
  qed
  have "user_page s root (y div 4096) \<longleftrightarrow> user_page s root (x div 4096)" if "y \<in> {x..<x + c}" for y
    by (simp only: vpn [OF that])
  moreover have "{x..<x + n} = {x..<x + c} \<union> {x + c..<x + c + (n - c)}" using c by auto
  moreover have "x \<in> {x..<x + c}" using c by simp
  ultimately show "user_range s root x n \<longleftrightarrow> user_page s root (x div 4096) \<and> user_range s root (x + c) (n - c)"
    unfolding user_range_def ball_Un by blast
  assume "c < n"
  then have cc: "c = 4096 - x mod 4096" using assms by (auto simp: min_def split: if_splits)
  define q r where qr: "q = x div 4096" "r = x mod 4096"
  have "x = 4096 * q + r" "r < 4096" unfolding qr by simp_all
  with cc [folded qr] show "x + c = 4096 * Suc (x div 4096)"
    unfolding qr(1) [symmetric] by simp
qed

lemma user_page_lt: "user_page s root i \<Longrightarrow> i < 256"
  by (simp add: user_page_def)

lemma copyin_spec:
  assumes inv: "user_inv s root D ps"
  shows "\<exists>r bs. copyin root va n s = Inr (r, bs) \<and>
    (if user_range s root (unat va) n then r = 0 \<and> bs = map (umem s root) [unat va..<unat va + n]
     else r = - 1)"
proof (induction n arbitrary: va rule: less_induct)
  case (less n)
  have ok: "pt_ok 3 (pmem s) root" using inv by (simp add: user_inv_def uvm_inv_def vm_inv_def)
  let ?x = "unat va"
  show ?case
  proof (cases "n = 0")
    case True
    then show ?thesis by (simp add: copyin.simps user_range_def)
  next
    case False
    define c where c: "c = min (4096 - ?x mod 4096) n"
    have n0: "0 < n" using False by simp
    note cr = chunk_range [OF c n0]
    show ?thesis
    proof (cases "user_page s root (?x div 4096)")
      case up: True
      note ur = user_page_ram [OF inv up]
      define bs where bs: "bs = map (umem s root) [?x..<?x + c]"
      have step: "copyin root va n s = kbind (copyin root (PGROUNDDOWN va + 4096) (n - c) s)
          (\<lambda>(r, rest). Inr (r, bs @ rest))"
        using False up ur(3) walkaddr_PGROUNDDOWN [OF ok, of va] cr(4)
        by (simp add: copyin.simps [of root va n] Let_def chunk_eq c [symmetric] user_addr PGSIZE_def
            load_user_bytes bs)
      obtain r rest where ih: "copyin root (PGROUNDDOWN va + 4096) (n - c) s = Inr (r, rest)"
        "if user_range s root (unat (PGROUNDDOWN va + 4096)) (n - c)
         then r = 0 \<and> rest = map (umem s root) [unat (PGROUNDDOWN va + 4096)..<unat (PGROUNDDOWN va + 4096) + (n - c)]
         else r = - 1"
        using less.IH [of "n - c" "PGROUNDDOWN va + 4096"] cr(2) False by auto
      have nx: "c < n \<Longrightarrow> unat (PGROUNDDOWN va + 4096) = ?x + c"
        using next_page_addr [OF user_page_lt [OF up]] cr(5) False by simp
      have "[?x..<?x + n] = [?x..<?x + c] @ [?x + c..<?x + c + (n - c)]"
        using cr(3) False upt_add_eq_append [of ?x "?x + c" "n - c"] by simp
      then have "if user_range s root ?x n then r = 0 \<and> bs @ rest = map (umem s root) [?x..<?x + n] else r = - 1"
        using ih(2) nx cr(1,3) False up by (cases "c < n") (auto simp: bs user_range_def split: if_splits)
      then show ?thesis using step ih(1) by simp
    next
      case up: False
      have "copyin root va n s = Inr (- 1, [])"
        using False up walkaddr_PGROUNDDOWN [OF ok, of va] by (simp add: copyin.simps [of root va n])
      moreover have "\<not> user_range s root ?x n" using cr(1) up by blast
      ultimately show ?thesis by simp
    qed
  qed
qed

text \<open>What writing \<open>bs\<close> at user address \<open>x\<close> leaves.\<close>

definition user_written :: "u64 \<Rightarrow> nat set \<Rightarrow> u64 list \<Rightarrow> 'a kmem_scheme \<Rightarrow> 'a kmem_scheme \<Rightarrow> bool" where
  "user_written root D ps s s' \<longleftrightarrow> user_inv s' root D ps \<and>
     (\<forall>j<512. pte_val (pmem s') root j = pte_val (pmem s) root j) \<and>
     owned s' root D ps = owned s root D ps \<and>
     (\<forall>q. page_aligned q \<and> q \<notin> owned s root D ps \<longrightarrow> same_page (pmem s) (pmem s') q) \<and>
     s' = s\<lparr>pmem := pmem s'\<rparr>"

lemma user_written_trans:
  "user_written root D ps s s1 \<Longrightarrow> user_written root D ps s1 s2 \<Longrightarrow> user_written root D ps s s2"
  unfolding user_written_def
  by (auto intro: same_page_trans) (metis kmem.surjective kmem.update_convs(1))+

lemma user_range_cong:
  "\<forall>j<512. pte_val (pmem s') root j = pte_val (pmem s) root j \<Longrightarrow>
     user_range s' root x n = user_range s root x n"
  by (auto simp: user_range_def user_page_def)

lemma user_page_cong: "pmem s = pmem t \<Longrightarrow> user_page s root i = user_page t root i"
  by (simp add: user_page_def)

lemma user_page_written: "user_written root D ps s s' \<Longrightarrow> user_page s' root i = user_page s root i"
  by (auto simp: user_page_def user_written_def)

lemma copyout_spec:
  assumes "user_inv s root D ps"
  shows "\<exists>r s'. copyout root va src s = Inr (r, s') \<and> user_written root D ps s s' \<and>
    (if user_range s root (unat va) (length src)
     then r = 0 \<and> (\<forall>y. y div 4096 \<in> D \<longrightarrow> umem s' root y =
            (if unat va \<le> y \<and> y < unat va + length src then src ! (y - unat va) else umem s root y))
     else r = - 1)"
  using assms
proof (induction "length src" arbitrary: va src s rule: less_induct)
  case less
  have ok: "pt_ok 3 (pmem s) root" using less.prems by (simp add: user_inv_def uvm_inv_def vm_inv_def)
  let ?x = "unat va" and ?n = "length src"
  show ?case
  proof (cases "src = []")
    case True
    then show ?thesis using less.prems by (auto simp: copyout.simps user_range_def user_written_def)
  next
    case False
    then have n0: "0 < ?n" by simp
    define c where c: "c = min (4096 - ?x mod 4096) ?n"
    note cr = chunk_range [OF c n0]
    show ?thesis
    proof (cases "user_page s root (?x div 4096)")
      case up: True
      note ur = user_page_ram [OF less.prems up]
      define s1 where s1: "s1 = s\<lparr>pmem := store_bytes (pmem s)
          (upage s root (?x div 4096) + of_nat (?x mod 4096)) (take c src)\<rparr>"
      have lc: "length (take c src) = c" using cr(3) by simp
      have "?x mod 4096 + length (take c src) \<le> 4096" using cr(4) lc by simp
      note st = store_user_bytes [OF less.prems ur(1) this s1]
      have w1: "user_written root D ps s s1" using st by (simp add: user_written_def s1)
      have step: "copyout root va src s = copyout root (PGROUNDDOWN va + 4096) (drop c src) s1"
        using False up ur(3) walkaddr_PGROUNDDOWN [OF ok, of va]
        by (simp add: copyout.simps [of root va src] Let_def chunk_eq c [symmetric] user_addr PGSIZE_def s1)
      have "length (drop c src) < length src" using cr(2) n0 by simp
      from less.hyps [OF this st(1)] obtain r s' where
        ih: "copyout root (PGROUNDDOWN va + 4096) (drop c src) s1 = Inr (r, s')"
          "user_written root D ps s1 s'" and
        e: "if user_range s1 root (unat (PGROUNDDOWN va + 4096)) (length (drop c src))
          then r = 0 \<and> (\<forall>y. y div 4096 \<in> D \<longrightarrow> umem s' root y =
            (if unat (PGROUNDDOWN va + 4096) \<le> y \<and> y < unat (PGROUNDDOWN va + 4096) + length (drop c src)
             then drop c src ! (y - unat (PGROUNDDOWN va + 4096)) else umem s1 root y))
          else r = - 1" by blast
      have rc: "user_range s1 root y k = user_range s root y k" for y k
        using user_range_cong [OF st(2)] by simp
      have nx: "c < ?n \<Longrightarrow> unat (PGROUNDDOWN va + 4096) = ?x + c"
        using next_page_addr [OF user_page_lt [OF up]] cr(5) by simp
      have um: "umem s1 root y = (if ?x \<le> y \<and> y < ?x + c then src ! (y - ?x) else umem s root y)"
        if "y div 4096 \<in> D" for y
        using st(3) [OF that] lc by auto
      have "if user_range s root ?x ?n
         then r = 0 \<and> (\<forall>y. y div 4096 \<in> D \<longrightarrow> umem s' root y =
            (if ?x \<le> y \<and> y < ?x + ?n then src ! (y - ?x) else umem s root y))
         else r = - 1"
      proof (cases "c < ?n")
        case True
        have "user_range s root ?x ?n \<longleftrightarrow> user_range s root (?x + c) (?n - c)" using cr(1) up by blast
        then show ?thesis using e um cr(3) unfolding nx [OF True] rc by (auto simp: add.assoc [symmetric])
      next
        case False
        then have "c = ?n" using cr(3) by simp
        moreover have "user_range s root ?x ?n \<longleftrightarrow> user_range s root (?x + c) (?n - c)" using cr(1) up by blast
        ultimately show ?thesis using e um unfolding rc by (auto simp: user_range_def)
      qed
      then show ?thesis using step ih user_written_trans [OF w1 ih(2)] by auto
    next
      case up: False
      have "copyout root va src s = Inr (- 1, s)"
        using False up walkaddr_PGROUNDDOWN [OF ok, of va] by (simp add: copyout.simps [of root va src])
      moreover have "\<not> user_range s root ?x ?n" using cr(1) up by blast
      ultimately show ?thesis using less.prems by (simp add: user_written_def)
    qed
  qed
qed

lemma copystr_chunk_spec:
  "copystr_chunk bs = (if 0 \<in> set bs then (takeWhile (\<lambda>b. b \<noteq> 0) bs @ [0], True) else (bs, False))"
  by (induction bs) auto

text \<open>The first NUL at or after \<open>x\<close> is at \<open>x + k\<close>, and the user may read up to it.\<close>

definition user_str :: "'a kmem_scheme \<Rightarrow> u64 \<Rightarrow> nat \<Rightarrow> nat \<Rightarrow> bool" where
  "user_str s root x k \<longleftrightarrow> user_range s root x (Suc k) \<and> umem s root (x + k) = 0 \<and>
     (\<forall>j<k. umem s root (x + j) \<noteq> 0)"

lemma takeWhile_nul:
  assumes "k < n" "f (x + k) = 0" "\<forall>j<k. f (x + j) \<noteq> (0 :: byte)"
  shows "takeWhile (\<lambda>b. b \<noteq> 0) (map f [x..<x + n]) @ [0] = map f [x..<Suc (x + k)]"
proof -
  have "[x..<x + n] = [x..<x + k] @ (x + k) # [Suc (x + k)..<x + n]"
    using assms(1) upt_add_eq_append [of x "x + k" "n - k"] by (simp add: upt_conv_Cons)
  moreover have "takeWhile (\<lambda>b. b \<noteq> 0) (map f [x..<x + k] @ 0 # ys) = map f [x..<x + k]" for ys
    using assms(3) by (subst takeWhile_append2) (auto simp: le_iff_add)
  ultimately show ?thesis using assms(2) by simp
qed

lemma user_range_mono: "user_range s root x n \<Longrightarrow> m \<le> n \<Longrightarrow> user_range s root x m"
  by (auto simp: user_range_def)

lemma copyinstr_spec:
  assumes inv: "user_inv s root D ps"
  shows "\<exists>r bs. copyinstr root va n s = Inr (r, bs) \<and>
    ((\<exists>k<n. user_str s root (unat va) k \<and> r = 0 \<and> bs = map (umem s root) [unat va..<Suc (unat va + k)]) \<or>
     r = - 1 \<and> \<not> (\<exists>k<n. user_str s root (unat va) k))"
proof (induction n arbitrary: va rule: less_induct)
  case (less n)
  have ok: "pt_ok 3 (pmem s) root" using inv by (simp add: user_inv_def uvm_inv_def vm_inv_def)
  let ?x = "unat va"
  show ?case
  proof (cases "n = 0")
    case True
    then show ?thesis by (simp add: copyinstr.simps)
  next
    case False
    define c where c: "c = min (4096 - ?x mod 4096) n"
    have n0: "0 < n" using False by simp
    note cr = chunk_range [OF c n0]
    show ?thesis
    proof (cases "user_page s root (?x div 4096)")
      case up: True
      note ur = user_page_ram [OF inv up]
      define bs where bs: "bs = map (umem s root) [?x..<?x + c]"
      have rc: "user_range s root ?x c"
      proof -
        have cm: "c = min (4096 - ?x mod 4096) c" using c by simp
        from chunk_range(1) [OF cm cr(2), of s root] up show ?thesis by (simp add: user_range_def)
      qed
      have step: "copyinstr root va n s =
          (if 0 \<in> set bs then Inr (0, takeWhile (\<lambda>b. b \<noteq> 0) bs @ [0])
           else kbind (copyinstr root (PGROUNDDOWN va + 4096) (n - c) s)
             (\<lambda>(r, rest). Inr (r, bs @ rest)))"
        using False up ur(3) walkaddr_PGROUNDDOWN [OF ok, of va] cr(4)
        by (simp add: copyinstr.simps [of root va n] Let_def chunk_eq c [symmetric] user_addr PGSIZE_def
            load_user_bytes copystr_chunk_spec flip: bs)
      show ?thesis
      proof (cases "0 \<in> set bs")
        case True
        then obtain k0 where k0: "k0 < c" "umem s root (?x + k0) = 0" unfolding bs
          by (auto simp: le_iff_add)
        define k where k: "k = (LEAST k. umem s root (?x + k) = 0)"
        have kk: "umem s root (?x + k) = 0" "k \<le> k0" "\<forall>j<k. umem s root (?x + j) \<noteq> 0"
          using k0 unfolding k by (auto intro: LeastI Least_le dest: not_less_Least)
        then have "k < c" using k0 by simp
        then have "user_str s root ?x k" "k < n" using kk rc cr(3) by (auto simp: user_str_def intro: user_range_mono)
        then show ?thesis using step True takeWhile_nul [OF \<open>k < c\<close> kk(1,3)] unfolding bs by auto
      next
        case nz: False
        have nzk: "umem s root (?x + k) \<noteq> 0" if "k < c" for k
          using nz that unfolding bs by (force simp: image_iff)
        obtain r rest where ih: "copyinstr root (PGROUNDDOWN va + 4096) (n - c) s = Inr (r, rest)"
          "(\<exists>k<n - c. user_str s root (unat (PGROUNDDOWN va + 4096)) k \<and> r = 0 \<and>
              rest = map (umem s root) [unat (PGROUNDDOWN va + 4096)..<Suc (unat (PGROUNDDOWN va + 4096) + k)]) \<or>
           r = - 1 \<and> \<not> (\<exists>k<n - c. user_str s root (unat (PGROUNDDOWN va + 4096)) k)"
          using less.IH [of "n - c" "PGROUNDDOWN va + 4096"] cr(2) False by auto
        have nx: "c < n \<Longrightarrow> unat (PGROUNDDOWN va + 4096) = ?x + c"
          using next_page_addr [OF user_page_lt [OF up]] cr(5) by simp
        have shift: "user_str s root ?x (c + k) \<longleftrightarrow> user_str s root (?x + c) k" for k
        proof -
          have "{?x..<?x + Suc (c + k)} = {?x..<?x + c} \<union> {?x + c..<?x + c + Suc k}" by auto
          then have "user_range s root ?x (Suc (c + k)) \<longleftrightarrow> user_range s root (?x + c) (Suc k)"
            using rc unfolding user_range_def by blast
          moreover have "(\<forall>j<c + k. umem s root (?x + j) \<noteq> 0) \<longleftrightarrow> (\<forall>j<k. umem s root (?x + c + j) \<noteq> 0)"
            using nzk by (metis add.assoc add_less_cancel_left le_add_diff_inverse linorder_not_less)
          ultimately show ?thesis by (simp add: user_str_def add.assoc)
        qed
        have eqr: "copyinstr root va n s = Inr (r, bs @ rest)" using step nz ih(1) by simp
        from ih(2) show ?thesis
        proof (elim disjE exE conjE)
          fix k
          assume k: "k < n - c" "user_str s root (unat (PGROUNDDOWN va + 4096)) k" "r = 0"
            "rest = map (umem s root) [unat (PGROUNDDOWN va + 4096)..<Suc (unat (PGROUNDDOWN va + 4096) + k)]"
          then have cn: "c < n" by simp
          have "user_str s root ?x (c + k)" "c + k < n" using k(1,2) shift unfolding nx [OF cn] by auto
          moreover have "[?x..<Suc (?x + (c + k))] = [?x..<?x + c] @ [?x + c..<Suc (?x + c + k)]"
            using upt_add_eq_append [of ?x "?x + c" "Suc k"] by (simp add: add.assoc)
          then have "bs @ rest = map (umem s root) [?x..<Suc (?x + (c + k))]"
            unfolding k(4) nx [OF cn] bs by (simp add: add.assoc)
          ultimately show ?thesis using eqr k(3) by blast
        next
          assume r: "r = - 1" and no: "\<not> (\<exists>k<n - c. user_str s root (unat (PGROUNDDOWN va + 4096)) k)"
          have "\<not> user_str s root ?x k" if "k < n" for k
          proof
            assume u: "user_str s root ?x k"
            then have "c \<le> k" using nzk by (auto simp: user_str_def linorder_not_less [symmetric])
            then obtain j where j: "k = c + j" by (auto simp: le_iff_add)
            have cn: "c < n" "j < n - c" using that j by simp_all
            from u have "user_str s root (unat (PGROUNDDOWN va + 4096)) j"
              using shift unfolding j nx [OF cn(1)] by blast
            then show False using no cn(2) by blast
          qed
          then show ?thesis using eqr r by blast
        qed
      qed
    next
      case up: False
      have "copyinstr root va n s = Inr (- 1, [])"
        using False up walkaddr_PGROUNDDOWN [OF ok, of va] by (simp add: copyinstr.simps [of root va n])
      moreover have "\<not> user_str s root ?x k" for k
        using up by (auto simp: user_str_def user_range_def)
      ultimately show ?thesis by simp
    qed
  qed
qed

section \<open>Reading user memory depends on memory only\<close>

lemma walk_level_False:
  "walk_level l pt va False s = (fst (walk_level l pt va False s), s)"
  by (induction l arbitrary: pt) (auto simp: Let_def)

lemma walk_level_cong:
  "pmem s = pmem t \<Longrightarrow> fst (walk_level l pt va False s) = fst (walk_level l pt va False t)"
  by (induction l arbitrary: pt) (auto simp: Let_def)

lemma walkaddr_cong: "pmem s = pmem t \<Longrightarrow> walkaddr pt va s = walkaddr pt va t"
proof -
  assume a: "pmem s = pmem t"
  have w: "walk pt va False u = (if va \<ge> MAXVA then Inl (Panic ''walk'')
      else Inr (fst (walk_level 3 pt va False u), u))" for u :: "'c kmem_scheme"
    using walk_level_False [of 3 pt va u] by (simp add: walk_def)
  show ?thesis
    unfolding walkaddr_def w using walk_level_cong [OF a, of 3 pt va] a by simp
qed

lemma copyin_cong: "pmem s = pmem t \<Longrightarrow> copyin pt va n s = copyin pt va n t"
proof (induction n arbitrary: va rule: less_induct)
  case (less n)
  show ?case
  proof (cases "n = 0")
    case False
    then have "copyin pt va' (n - chunk va n) s = copyin pt va' (n - chunk va n) t" for va'
      using less.IH [OF _ less.prems] chunk_pos [of n va] by auto
    then show ?thesis
      using False walkaddr_cong [OF less.prems, of pt "PGROUNDDOWN va"] less.prems
      by (cases "walkaddr pt (PGROUNDDOWN va) t") (simp_all add: copyin.simps [of pt va n] Let_def)
  qed (simp add: copyin.simps)
qed

lemma copyout_frame: "copyout pt va src s = Inr (r, s') \<Longrightarrow> kmem.more s' = kmem.more s \<and> freelist s' = freelist s"
proof (induction "length src" arbitrary: va src s rule: less_induct)
  case less
  show ?case
  proof (cases "src = []")
    case False
    have l: "length (drop (chunk va (length src)) src) < length src" using False chunk_pos [of "length src" va] by simp
    show ?thesis using less.prems False
      by (subst (asm) copyout.simps)
        (auto simp: Let_def kbind_eq_Inr split: if_splits dest!: less.hyps [OF l])
  qed (use less.prems in \<open>simp add: copyout.simps\<close>)
qed

lemma user_inv_cong:
  assumes "pmem s = pmem t" "freelist s = freelist t"
  shows "user_inv s root D ps = user_inv t root D ps"
proof -
  have "upage s root = upage t root" using assms(1) by (intro ext) (simp add: upage_def)
  then show ?thesis using assms by (simp add: user_inv_def uvm_inv_def vm_inv_def user_page_def kmem_inv_def)
qed

lemma umem_cong: "pmem s = pmem t \<Longrightarrow> umem s root = umem t root"
  by (rule ext) (simp add: umem_def upage_def)

lemma copyin_byte:
  assumes "user_inv s root D ps"
  shows "if user_page s root (unat va div 4096) then copyin root va 1 s = Inr (0, [umem s root (unat va)])
         else \<exists>bs. copyin root va 1 s = Inr (- 1, bs)"
proof -
  have "user_range s root (unat va) 1 = user_page s root (unat va div 4096)"
    by (auto simp: user_range_def)
  then show ?thesis using copyin_spec [OF assms, of va 1] by (auto split: if_splits)
qed

lemma copyout_byte:
  assumes "user_inv s root D ps" "user_page s root (unat va div 4096)"
  obtains s' where "copyout root va [c] s = Inr (0, s')" "user_written root D ps s s'"
    "\<And>y. y div 4096 \<in> D \<Longrightarrow> umem s' root y = (if y = unat va then c else umem s root y)"
proof -
  have r: "user_range s root (unat va) (length [c])" using assms(2) by (auto simp: user_range_def)
  obtain s' where s': "copyout root va [c] s = Inr (0, s')" "user_written root D ps s s'"
    "\<forall>y. y div 4096 \<in> D \<longrightarrow> umem s' root y =
       (if unat va \<le> y \<and> y < unat va + length [c] then [c] ! (y - unat va) else umem s root y)"
    using copyout_spec [OF assms(1), of va "[c]"] r by auto
  have "umem s' root y = (if y = unat va then c else umem s root y)" if "y div 4096 \<in> D" for y
    using s'(3) that by (cases "y = unat va") auto
  then show ?thesis using that s' by blast
qed


section \<open>Properties\<close>

text \<open>A booted machine with an address space of \<open>n\<close> freshly allocated pages.\<close>

lemma boot_user:
  assumes "unat sz \<le> 255 * 4096"
  shows "\<exists>(s :: kmem) root ps. user_inv s root {..<npg sz} ps \<and> (\<forall>i<npg sz. user_page s root i) \<and>
    (\<forall>i<npg sz. copyable s root i) \<and> pte_val (pmem s) root 255 = 0 \<and> 32508 \<le> length ps"
proof -
  obtain s0 :: kmem and root ps0 where u: "uvm_inv s0 root {..<npg 0} ps0" "length ps0 = 32767"
    "pte_val (pmem s0) root 255 = 0"
    using boot_uvm by (auto simp: npg_def)
  have n0: "npg 0 = 0" and n: "npg sz \<le> 255" using PGROUNDUP_npg(1) [OF assms] by (simp_all add: npg_def)
  obtain s ps where s: "uvm_step root {} s0 {} ps0 s {..<npg sz} ps" "fresh_pages s root {0..<npg sz}"
    using uvmalloc_spec [OF u(1), of sz] assms u(2) n by (auto simp: n0)
  have inv: "uvm_inv s root {..<npg sz} ps" and p255: "pte_val (pmem s) root 255 = 0"
    using s(1) u(3) by (simp_all add: uvm_step_def)
  have up: "user_page s root i \<and> PTE_FLAGS (pte_val (pmem s) root i) = PTE_FLAGS (uvm_perm OR PTE_V)"
    if i: "i < npg sz" for i
  proof -
    obtain p where "pte_val (pmem s) root i = PA2PTE p OR (uvm_perm OR PTE_V)"
      using s(2) [unfolded fresh_pages_def, rule_format, of i] i by (auto simp: or.assoc)
    moreover have "(x OR (uvm_perm OR PTE_V)) AND PTE_PLV \<noteq> 0" for x
    proof
      assume z: "(x OR (uvm_perm OR PTE_V)) AND PTE_PLV = 0"
      have "(x OR (uvm_perm OR PTE_V)) AND PTE_PLV = (x AND PTE_PLV) OR ((uvm_perm OR PTE_V) AND PTE_PLV)"
        by (rule bit.conj_disj_distrib2)
      also have "(uvm_perm OR PTE_V) AND PTE_PLV = PTE_PLV" by (simp add: uvm_perm_def pte_bits)
      finally have "bit PTE_PLV 2 \<longrightarrow> bit ((x OR (uvm_perm OR PTE_V)) AND PTE_PLV) 2" by (simp add: bit_simps)
      with z show False by (simp add: PTE_PLV_def bit_simps)
    qed
    moreover have "pte_val (pmem s) root i AND PTE_V \<noteq> 0" using inv i by (simp add: uvm_inv_def)
    ultimately show ?thesis using n i by (auto simp: user_page_def entry_flags)
  qed
  have "i < npg sz" if "user_page s root i" for i
  proof (rule ccontr)
    assume "\<not> i < npg sz"
    moreover have "i < 512" using that by (simp add: user_page_def)
    ultimately have "pte_val (pmem s) root i = 0"
      using inv p255 by (cases "i = 255") (simp_all add: uvm_inv_def)
    then show False using that by (simp add: user_page_def)
  qed
  then have "user_inv s root {..<npg sz} ps" using inv by (auto simp: user_inv_def)
  moreover have "copyable s root i" if "i < npg sz" for i
  proof -
    have "uint_flags (pte_val (pmem s) root i) = uint_flags (uvm_perm OR PTE_V)"
      using up [OF that] by (simp add: uint_flags_def)
    moreover have "PTE_FLAGS (uint_flags (uvm_perm OR PTE_V) OR PTE_V) \<noteq> PTE_V"
      by (simp add: uint_flags_def PTE_FLAGS_def uvm_perm_def pte_bits)
    ultimately show ?thesis using inv that by (simp add: copyable_def uvm_inv_def)
  qed
  moreover have "32508 \<le> length ps"
  proof -
    have "card (owned s root {..<npg sz} ps) = card (owned s0 root {} ps0)" using s(1) by (simp add: uvm_step_def)
    moreover have "32767 < card (owned s0 root {} ps0)" using card_owned_ge [OF u(1)] u(2) by (simp add: n0)
    ultimately show ?thesis using card_owned_le [OF subset_refl, of s root "npg sz" ps] n by simp
  qed
  ultimately show ?thesis using up p255 by blast
qed

lemma user_bound: "sz \<le> TRAPFRAME \<Longrightarrow> unat sz \<le> 255 * 4096"
  by (simp add: TRAPFRAME_def MAXVA_def PGSIZE_def word_le_nat_alt)

text \<open>C6: Copying a parent's address space into an empty one for \<open>fork\<close>. On success every page of
  the child holds the bytes of the parent's page, in a page of RAM of its own taken from the
  free list, with the low flags of the parent's entry. On failure, which needs memory to
  run out, the child is empty again. Either way no page is leaked and nothing outside the
  child's tables and the former free list changes, so the parent is intact.\<close>

theorem uvmcopy_copies:
  assumes "uvm_inv s new {} ps" "apart s old (npg sz) (owned s new {} ps)" "sz \<le> TRAPFRAME"
  shows "\<exists>r s' ps'. uvmcopy old new sz s = Inr (r, s') \<and>
    (r = 0 \<and> uvm_step new {} s {} ps s' {..<npg sz} ps' \<and> (\<forall>j<npg sz. copied s old s' new j) \<or>
     r = - 1 \<and> uvm_step new {} s {} ps s' {} ps' \<and> length ps < npg sz + 4)"
proof -
  have e: "{..<0 :: nat} = {}" by simp
  have "length ps < card (owned s new {} ps)" using card_owned_ge [of s new 0 ps] assms(1) by simp
  then show ?thesis
    using uvmcopy_loop_spec [of s new 0 ps old sz] assms(1,2) user_bound [OF assms(3)]
    unfolding uvmcopy_def e by fastforce
qed

lemma boot_fork:
  "\<exists>(s :: kmem) old new ps. uvm_inv s new {} ps \<and> apart s old (npg 0x2001) (owned s new {} ps) \<and>
     32507 \<le> length ps"
proof -
  have b: "unat (0x2001 :: u64) \<le> 255 * 4096" by simp
  obtain s :: kmem and old ps where s: "user_inv s old {..<npg 0x2001} ps"
    "\<forall>i<npg 0x2001. copyable s old i" "32508 \<le> length ps"
    using boot_user [OF b] by blast
  then obtain p qs where ps: "ps = p # qs" by (cases ps) auto
  have u: "uvm_inv s old {..<npg 0x2001} ps" using s(1) by (simp add: user_inv_def)
  then have "kmem_inv s (p # qs)" by (simp add: uvm_inv_def vm_inv_def ps)
  from uvmcreate_spec [OF this] obtain s' :: kmem where
    s': "uvm_inv s' p {} qs" "owned s' p {} qs = set (p # qs)"
    "\<forall>q. page_aligned q \<and> q \<noteq> p \<longrightarrow> same_page (pmem s) (pmem s') q"
    by blast
  have ap: "apart s old (npg 0x2001) (set ps)"
    using u s(2) by (auto simp: apart_def uvm_inv_def vm_inv_def)
  have "\<forall>q. page_aligned q \<and> q \<notin> set ps \<longrightarrow> same_page (pmem s) (pmem s') q"
    using s'(3) ps by auto
  then have "apart s' old (npg 0x2001) (set ps)"
    by (rule apart_frame(1) [OF ap PGROUNDUP_npg(1) [OF b]])
  then show ?thesis using s'(1,2) s(3) ps by (intro exI [of _ s'] exI [of _ old] exI [of _ p] exI [of _ qs]) simp
qed

theorem uvmcopy_copies_witness:
  "\<exists>(s :: kmem) old new ps s' ps'. uvm_inv s new {} ps \<and>
     apart s old (npg 0x2001) (owned s new {} ps) \<and> uvmcopy old new 0x2001 s = Inr (0, s') \<and>
     uvm_step new {} s {} ps s' {..<3} ps' \<and> (\<forall>j<3. copied s old s' new j)"
proof -
  obtain s :: kmem and old new ps where s: "uvm_inv s new {} ps"
    "apart s old (npg 0x2001) (owned s new {} ps)" "32507 \<le> length ps"
    using boot_fork by blast
  have n: "npg 0x2001 = 3" by (simp add: npg_def)
  have "(0x2001 :: u64) \<le> TRAPFRAME" by (simp add: TRAPFRAME_def MAXVA_def PGSIZE_def)
  from uvmcopy_copies [OF s(1,2) this] s(3) obtain s' ps' where
    "uvmcopy old new 0x2001 s = Inr (0, s')" "uvm_step new {} s {} ps s' {..<3} ps'"
    "\<forall>j<3. copied s old s' new j" by (auto simp: n)
  then show ?thesis using s by blast
qed

text \<open>C9: Freeing an address space whose trapframe has been unmapped puts every page it owned,
  tables and memory, back on the free list exactly once.\<close>

theorem uvmfree_returns_all:
  assumes "uvm_inv s root {..<npg sz} ps" "pte_val (pmem s) root 255 = 0" "sz \<le> TRAPFRAME"
  shows "\<exists>s' ps'. uvmfree root sz s = Inr s' \<and> kmem_inv s' ps' \<and>
    set ps' = owned s root {..<npg sz} ps \<and>
    (\<forall>q. page_aligned q \<and> q \<notin> owned s root {..<npg sz} ps \<longrightarrow> same_page (pmem s) (pmem s') q)"
  using uvmfree_spec [OF assms(1,2) user_bound [OF assms(3)]] by blast

theorem uvmfree_returns_all_witness:
  "\<exists>(s :: kmem) root ps s' ps'. uvm_inv s root {..<npg 0x2001} ps \<and> uvmfree root 0x2001 s = Inr s' \<and>
     kmem_inv s' ps' \<and> set ps' = owned s root {..<npg 0x2001} ps"
proof -
  have b: "unat (0x2001 :: u64) \<le> 255 * 4096" by simp
  obtain s :: kmem and root ps where s: "uvm_inv s root {..<npg 0x2001} ps" "pte_val (pmem s) root 255 = 0"
    using boot_user [OF b] by (auto simp: user_inv_def)
  have "(0x2001 :: u64) \<le> TRAPFRAME" by (simp add: TRAPFRAME_def MAXVA_def PGSIZE_def)
  from uvmfree_returns_all [OF s this] s(1) show ?thesis by blast
qed

text \<open>C7: Bytes copied out to a readable user range are read back unchanged by \<open>copyin\<close>, every
  other byte of user memory keeps its value, and so do the mappings, the free list and
  the pages of other owners. The range may start anywhere and cross pages.\<close>

theorem copyout_copyin_roundtrip:
  assumes "user_inv s root D ps" "user_range s root (unat va) (length src)"
  shows "\<exists>s'. copyout root va src s = Inr (0, s') \<and> copyin root va (length src) s' = Inr (0, src) \<and>
    user_written root D ps s s' \<and>
    (\<forall>y. y div 4096 \<in> D \<and> \<not> (unat va \<le> y \<and> y < unat va + length src) \<longrightarrow>
       umem s' root y = umem s root y)"
proof -
  obtain s' where s': "copyout root va src s = Inr (0, s')" "user_written root D ps s s'"
    "\<forall>y. y div 4096 \<in> D \<longrightarrow> umem s' root y =
            (if unat va \<le> y \<and> y < unat va + length src then src ! (y - unat va) else umem s root y)"
    using copyout_spec [OF assms(1), of va src] assms(2) by auto
  have inv': "user_inv s' root D ps" and rg: "user_range s' root (unat va) (length src)"
    using s'(2) assms(2) user_range_cong [of s' root s] by (auto simp: user_written_def)
  have "umem s' root y = src ! (y - unat va)" if "y \<in> {unat va..<unat va + length src}" for y
    using s'(3) that rg inv' by (auto simp: user_range_def user_inv_def)
  then have "map (umem s' root) [unat va..<unat va + length src] = src"
    by (intro nth_equalityI) simp_all
  then have "copyin root va (length src) s' = Inr (0, src)"
    using copyin_spec [OF inv', of va "length src"] rg by auto
  then show ?thesis using s' by auto
qed

theorem copyout_copyin_roundtrip_witness:
  "\<exists>(s :: kmem) root s'. copyout root 0xFFF [1, 2, 3] s = Inr (0, s') \<and>
     copyin root 0xFFF 3 s' = Inr (0, [1, 2, 3])"
proof -
  have b: "unat (0x2000 :: u64) \<le> 255 * 4096" by simp
  have n: "npg 0x2000 = 2" by (simp add: npg_def)
  obtain s :: kmem and root ps where s: "user_inv s root {..<2} ps" "\<forall>i<2. user_page s root i"
    using boot_user [OF b] unfolding n by blast
  have "user_range s root (unat (0xFFF :: u64)) (length [1 :: byte, 2, 3])"
    using s(2) by (auto simp: user_range_def div_less_iff_less_mult)
  moreover have "length [1 :: byte, 2, 3] = 3" by simp
  ultimately show ?thesis using copyout_copyin_roundtrip [OF s(1)] by metis
qed

text \<open>C8: \<open>copyin\<close> and \<open>copyout\<close> never panic and return -1 exactly when some byte of the range
  lies on a page the user may not access (unmapped, kernel-only or at or above \<open>MAXVA\<close>);
  a rejected \<open>copyout\<close> still leaves the address space well formed.\<close>

theorem copy_checks_user_range:
  assumes "user_inv s root D ps"
  shows "(\<exists>r s'. copyout root va src s = Inr (r, s') \<and> user_written root D ps s s' \<and>
      (r = 0 \<longleftrightarrow> user_range s root (unat va) (length src)) \<and> (r = 0 \<or> r = - 1)) \<and>
    (\<exists>r bs. copyin root va n s = Inr (r, bs) \<and>
      (r = 0 \<longleftrightarrow> user_range s root (unat va) n) \<and> (r = 0 \<or> r = - 1))"
  using copyout_spec [OF assms, of va src] copyin_spec [OF assms, of va n]
  by (smt (verit, ccfv_threshold) one_neq_neg_one zero_neq_neg_one)

theorem copy_checks_user_range_witness:
  "\<exists>(s :: kmem) root r s'. copyout root 0xFFFFF [1, 2, 3] s = Inr (r, s') \<and> r = - 1"
proof -
  have b: "unat (0x2000 :: u64) \<le> 255 * 4096" by simp
  obtain s :: kmem and root ps where s: "user_inv s root {..<npg 0x2000} ps"
    using boot_user [OF b] by blast
  have "\<not> user_range s root (unat (0xFFFFF :: u64)) (length [1 :: byte, 2, 3])"
  proof
    assume "user_range s root (unat (0xFFFFF :: u64)) (length [1 :: byte, 2, 3])"
    then have "user_page s root (0x100000 div 4096)" unfolding user_range_def by (rule bspec) simp
    then show False by (simp add: user_page_def)
  qed
  then show ?thesis using copy_checks_user_range [OF s, of "0xFFFFF" "[1, 2, 3]" 0] by metis
qed

text \<open>C21: \<open>copyinstr\<close> returns 0 exactly when a NUL occurs within the limit before the first
  inaccessible page, and then delivers the bytes up to and including the first NUL.\<close>

theorem copyinstr_first_nul:
  assumes "user_inv s root D ps"
  shows "\<exists>r bs. copyinstr root va n s = Inr (r, bs) \<and>
    (if \<exists>k<n. user_str s root (unat va) k
     then r = 0 \<and> (\<exists>k<n. user_str s root (unat va) k \<and>
            bs = map (umem s root) [unat va..<unat va + k] @ [0])
     else r = - 1)"
proof -
  have last0: "map (umem s root) [unat va..<Suc (unat va + k)] = map (umem s root) [unat va..<unat va + k] @ [0]"
    if "user_str s root (unat va) k" for k
    using that by (simp add: user_str_def)
  show ?thesis using copyinstr_spec [OF assms, of va n] last0 by fastforce
qed

theorem copyinstr_first_nul_witness:
  "\<exists>(s :: kmem) root. copyinstr root 0xFFE 8 s = Inr (0, [104, 105, 33, 0])"
proof -
  have b: "unat (0x2000 :: u64) \<le> 255 * 4096" by simp
  have n: "npg 0x2000 = 2" by (simp add: npg_def)
  obtain s0 :: kmem and root ps where s0: "user_inv s0 root {..<2} ps" "\<forall>i<2. user_page s0 root i"
    using boot_user [OF b] unfolding n by blast
  have l: "length [104 :: byte, 105, 33, 0] = 4" "unat (0xFFE :: u64) = 0xFFE" by simp_all
  have rg: "user_range s0 root 0xFFE 4"
    using s0(2) by (auto simp: user_range_def div_less_iff_less_mult)
  obtain s where w: "user_written root {..<2} ps s0 s" and
    um: "\<forall>y. y div 4096 < 2 \<longrightarrow> umem s root y =
      (if 0xFFE \<le> y \<and> y < 0xFFE + 4 then [104, 105, 33, 0] ! (y - 0xFFE) else umem s0 root y)"
    using copyout_spec [OF s0(1), of "0xFFE" "[104, 105, 33, 0]", unfolded l] rg by auto
  have inv: "user_inv s root {..<2} ps" and rg': "user_range s root 0xFFE 4"
    using w rg user_range_cong [of s root s0] by (auto simp: user_written_def)
  have u: "umem s root 0xFFE = 104" "umem s root 0xFFF = 105" "umem s root 0x1000 = 33"
    "umem s root 0x1001 = 0" using um by simp_all
  have str: "user_str s root 0xFFE 3"
  proof -
    have "umem s root (0xFFE + j) \<noteq> 0" if "j < 3" for j
    proof -
      from that consider "j = 0" | "j = 1" | "j = 2" by linarith
      then show ?thesis using u by cases simp_all
    qed
    then show ?thesis using u rg' by (simp add: user_str_def)
  qed
  have k3: "k = 3" if "user_str s root 0xFFE k" for k
    using that str by (metis user_str_def linorder_neqE_nat)
  have ex: "\<exists>k<8. user_str s root 0xFFE k" using str by (intro exI [of _ 3]) simp
  obtain k bs where c: "copyinstr root 0xFFE 8 s = Inr (0, bs)" "user_str s root 0xFFE k"
    "bs = map (umem s root) [0xFFE..<0xFFE + k] @ [0]"
    using copyinstr_first_nul [OF inv, of "0xFFE" 8, unfolded l(2)] unfolding if_P [OF ex] by blast
  have "bs = map (umem s root) [0xFFE..<0xFFE + 3] @ [0]" using c(3) unfolding k3 [OF c(2)] .
  moreover note c(1)
  moreover have "[0xFFE..<0xFFE + 3 :: nat] = [0xFFE, 0xFFF, 0x1000]" by (simp add: upt_conv_Cons)
  ultimately show ?thesis using u by auto
qed

declare of_nat_mult [simp]

end
