(* ===== verification/Spinlock.thy ===== *)
theory Spinlock
  imports Prelude
begin

text \<open>
  \<open>kernel/spinlock.c\<close>: spin-locks and the nesting of interrupt disabling. The machine state
  is the per-CPU \<open>struct cpu\<close> fields the code uses, with the interrupt-enable bit of the
  CRMD register, and the locks. Results: balanced \<open>push_off\<close>/\<open>pop_off\<close> sequences restore the
  interrupt state; a body run under a free lock has the effect of the body alone, with the
  lock free again (the other theories rely on this and show critical sections as their
  bodies); at most one CPU is inside the section of a lock in every interleaving.
\<close>

section \<open>State\<close>

record spinlock =
  locked :: bool
  lname :: string
  lcpu :: "nat option"

record cpu =
  noff :: int
  intena :: bool
  crmd_ie :: bool

text \<open>CPUs and locks are numbered; \<open>lcpu\<close> is the pointer \<open>lk->cpu\<close>, \<open>None\<close> for 0.\<close>

record machine =
  cpus :: "nat \<Rightarrow> cpu"
  locks :: "nat \<Rightarrow> spinlock"

definition upd_cpu :: "nat \<Rightarrow> (cpu \<Rightarrow> cpu) \<Rightarrow> machine \<Rightarrow> machine" where
  "upd_cpu c f m = m\<lparr>cpus := (cpus m)(c := f (cpus m c))\<rparr>"

definition upd_lock :: "nat \<Rightarrow> (spinlock \<Rightarrow> spinlock) \<Rightarrow> machine \<Rightarrow> machine" where
  "upd_lock l f m = m\<lparr>locks := (locks m)(l := f (locks m l))\<rparr>"

section \<open>Operations\<close>

definition intr_get :: "nat \<Rightarrow> machine \<Rightarrow> bool" where
  "intr_get c m = crmd_ie (cpus m c)"

definition intr_on :: "nat \<Rightarrow> machine \<Rightarrow> machine" where
  "intr_on c m = upd_cpu c (\<lambda>k. k\<lparr>crmd_ie := True\<rparr>) m"

definition intr_off :: "nat \<Rightarrow> machine \<Rightarrow> machine" where
  "intr_off c m = upd_cpu c (\<lambda>k. k\<lparr>crmd_ie := False\<rparr>) m"

definition initlock :: "nat \<Rightarrow> string \<Rightarrow> machine \<Rightarrow> machine" where
  "initlock l name m = upd_lock l (\<lambda>_. \<lparr>locked = False, lname = name, lcpu = None\<rparr>) m"

definition push_off :: "nat \<Rightarrow> machine \<Rightarrow> machine" where
  "push_off c m =
     (let old = intr_get c m;
          m = intr_off c m;
          m = (if noff (cpus m c) = 0 then upd_cpu c (\<lambda>k. k\<lparr>intena := old\<rparr>) m else m)
      in upd_cpu c (\<lambda>k. k\<lparr>noff := noff k + 1\<rparr>) m)"

definition pop_off :: "nat \<Rightarrow> machine \<Rightarrow> machine res" where
  "pop_off c m =
     (if intr_get c m then Inl (Panic ''pop_off - interruptible'')
      else if noff (cpus m c) < 1 then Inl (Panic ''pop_off'')
      else
        let m = upd_cpu c (\<lambda>k. k\<lparr>noff := noff k - 1\<rparr>) m in
        Inr (if noff (cpus m c) = 0 \<and> intena (cpus m c) then intr_on c m else m))"

definition holding :: "nat \<Rightarrow> nat \<Rightarrow> machine \<Rightarrow> bool" where
  "holding c l m \<longleftrightarrow> locked (locks m l) \<and> lcpu (locks m l) = Some c"

text \<open>Run alone on a lock another CPU holds, the test-and-set loop spins forever.\<close>

definition acquire :: "nat \<Rightarrow> nat \<Rightarrow> machine \<Rightarrow> machine res" where
  "acquire c l m =
     (let m = push_off c m in
      if holding c l m then Inl (Panic ''acquire'')
      else if locked (locks m l) then Inl Diverge
      else Inr (upd_lock l (\<lambda>k. k\<lparr>locked := True, lcpu := Some c\<rparr>) m))"

definition release :: "nat \<Rightarrow> nat \<Rightarrow> machine \<Rightarrow> machine res" where
  "release c l m =
     (if \<not> holding c l m then Inl (Panic ''release'')
      else pop_off c (upd_lock l (\<lambda>k. k\<lparr>locked := False, lcpu := None\<rparr>) m))"

lemmas spin_defs = push_off_def pop_off_def intr_get_def intr_on_def intr_off_def
  upd_cpu_def upd_lock_def holding_def acquire_def release_def Let_def

section \<open>Nesting\<close>

text \<open>Whenever interrupts have been pushed off they are off.\<close>

definition cpu_ok :: "cpu \<Rightarrow> bool" where
  "cpu_ok k \<longleftrightarrow> 0 \<le> noff k \<and> (0 < noff k \<longrightarrow> \<not> crmd_ie k)"

text \<open>The state a balanced sequence leaves: \<open>intena\<close> is only defined below a \<open>push_off\<close>.\<close>

definition settle :: "cpu \<Rightarrow> cpu" where
  "settle k = (if noff k = 0 then k\<lparr>intena := crmd_ie k\<rparr> else k)"

datatype irq = Push | Pop

fun run_irq :: "nat \<Rightarrow> irq list \<Rightarrow> machine \<Rightarrow> machine res" where
  "run_irq c [] m = Inr m"
| "run_irq c (Push # ops) m = run_irq c ops (push_off c m)"
| "run_irq c (Pop # ops) m = kbind (pop_off c m) (run_irq c ops)"

inductive balanced :: "irq list \<Rightarrow> bool" where
  bal_nil: "balanced []"
| bal_nest: "balanced xs \<Longrightarrow> balanced (Push # xs @ [Pop])"
| bal_seq: "balanced xs \<Longrightarrow> balanced ys \<Longrightarrow> balanced (xs @ ys)"

lemma run_irq_append: "run_irq c (xs @ ys) m = kbind (run_irq c xs m) (run_irq c ys)"
  by (induction c xs m rule: run_irq.induct) (auto simp: kbind_def split: sum.splits)

lemma settle_ok: "cpu_ok k \<Longrightarrow> cpu_ok (settle k)" "settle (settle k) = settle k"
  by (simp_all add: settle_def cpu_ok_def)

lemma upd_cpu_same [simp]: "cpus (upd_cpu c f m) c = f (cpus m c)"
  by (simp add: upd_cpu_def)

lemma upd_cpu_comp: "upd_cpu c g (upd_cpu c f m) = upd_cpu c (\<lambda>k. g (f k)) m"
  by (simp add: upd_cpu_def)

lemma upd_cpu_cong: "f (cpus m c) = g (cpus m c) \<Longrightarrow> upd_cpu c f m = upd_cpu c g m"
  by (simp add: upd_cpu_def)

lemma push_off_eq:
  "push_off c m = upd_cpu c (\<lambda>k. (settle k)\<lparr>crmd_ie := False, noff := noff k + 1\<rparr>) m"
  unfolding push_off_def intr_off_def intr_get_def Let_def
  by (auto simp: upd_cpu_comp settle_def intro!: upd_cpu_cong)

lemma pop_push:
  assumes "cpu_ok (cpus m c)"
  shows "pop_off c (push_off c m) = Inr (upd_cpu c settle m)"
  using assms unfolding pop_off_def push_off_eq intr_on_def intr_get_def Let_def upd_cpu_same upd_cpu_comp
  by (auto simp: settle_def cpu_ok_def intro!: upd_cpu_cong)

lemma balanced_run:
  assumes "balanced xs" "cpu_ok (cpus m c)"
  shows "\<exists>m'. run_irq c xs m = Inr m' \<and>
    (m' = m \<or> m' = upd_cpu c settle m)"
  using assms
proof (induction xs arbitrary: m)
  case bal_nil
  then show ?case by simp
next
  case (bal_nest xs)
  have ok: "cpu_ok (cpus (push_off c m) c)" "settle (cpus (push_off c m) c) = cpus (push_off c m) c"
    using bal_nest.prems by (simp_all add: push_off_eq cpu_ok_def settle_def)
  then have "upd_cpu c settle (push_off c m) = push_off c m" by (simp add: upd_cpu_def)
  with bal_nest.IH [OF ok(1)] have "run_irq c xs (push_off c m) = Inr (push_off c m)" by auto
  then show ?case using pop_push [OF bal_nest.prems] by (simp add: run_irq_append)
next
  case (bal_seq xs ys)
  then obtain m1 where m1: "run_irq c xs m = Inr m1" "m1 = m \<or> m1 = upd_cpu c settle m" by blast
  then have "cpu_ok (cpus m1 c)" using bal_seq.prems settle_ok by auto
  with bal_seq.IH(2) obtain m2 where "run_irq c ys m1 = Inr m2" "m2 = m1 \<or> m2 = upd_cpu c settle m1" by blast
  then show ?case using m1 by (auto simp: run_irq_append upd_cpu_comp settle_ok(2))
qed

section \<open>Critical sections\<close>

lemma lock_roundtrip:
  assumes "\<not> locked (locks m l)" "lcpu (locks m l) = None"
  shows "upd_lock l (\<lambda>k. k\<lparr>locked := False, lcpu := None\<rparr>)
           (upd_lock l (\<lambda>k. k\<lparr>locked := True, lcpu := Some c\<rparr>) m) = m"
  using assms by (cases "locks m l") (simp add: upd_lock_def fun_upd_idem)

lemma acquire_free:
  assumes "\<not> locked (locks m l)"
  shows "acquire c l m = Inr (upd_lock l (\<lambda>k. k\<lparr>locked := True, lcpu := Some c\<rparr>) (push_off c m))"
  using assms by (simp add: acquire_def push_off_eq holding_def upd_cpu_def Let_def)

lemma release_acquired:
  assumes "cpu_ok (cpus m c)" "\<not> locked (locks m l)" "lcpu (locks m l) = None"
  shows "release c l (upd_lock l (\<lambda>k. k\<lparr>locked := True, lcpu := Some c\<rparr>) (push_off c m)) =
    Inr (upd_cpu c settle m)"
proof -
  have "locks (push_off c m) = locks m" by (simp add: push_off_eq upd_cpu_def)
  then show ?thesis
    using pop_push [OF assms(1)] lock_roundtrip [of "push_off c m" l c] assms(2,3)
    by (simp add: release_def holding_def) (simp add: upd_lock_def)
qed

section \<open>Interleaved execution\<close>

text \<open>
  The steps of \<open>acquire\<close> and \<open>release\<close> on several CPUs, at the granularity of the shared
  accesses: the test-and-set, the store to \<open>lk->cpu\<close>, its reset and the release of
  \<open>lk->locked\<close>. A CPU may hold several locks.
\<close>

datatype act = Idle | Spin nat | Won nat | Leaving nat | Popping

record thread =
  held :: "nat list"
  act :: act

type_synonym world = "machine \<times> (nat \<Rightarrow> thread)"

inductive spin_step :: "world \<Rightarrow> world \<Rightarrow> bool" where
  st_push: "act (t c) = Idle \<Longrightarrow> m' = push_off c m \<Longrightarrow> \<not> holding c l m' \<Longrightarrow>
     spin_step (m, t) (m', t(c := (t c)\<lparr>act := Spin l\<rparr>))"
| st_spin: "act (t c) = Spin l \<Longrightarrow> locked (locks m l) \<Longrightarrow> spin_step (m, t) (m, t)"
| st_tas: "act (t c) = Spin l \<Longrightarrow> \<not> locked (locks m l) \<Longrightarrow>
     m' = upd_lock l (\<lambda>k. k\<lparr>locked := True\<rparr>) m \<Longrightarrow>
     spin_step (m, t) (m', t(c := (t c)\<lparr>act := Won l\<rparr>))"
| st_own: "act (t c) = Won l \<Longrightarrow> m' = upd_lock l (\<lambda>k. k\<lparr>lcpu := Some c\<rparr>) m \<Longrightarrow>
     spin_step (m, t) (m', t(c := (t c)\<lparr>held := l # held (t c), act := Idle\<rparr>))"
| st_disown: "act (t c) = Idle \<Longrightarrow> holding c l m \<Longrightarrow>
     m' = upd_lock l (\<lambda>k. k\<lparr>lcpu := None\<rparr>) m \<Longrightarrow>
     spin_step (m, t) (m', t(c := (t c)\<lparr>held := remove1 l (held (t c)), act := Leaving l\<rparr>))"
| st_unlock: "act (t c) = Leaving l \<Longrightarrow> m' = upd_lock l (\<lambda>k. k\<lparr>locked := False\<rparr>) m \<Longrightarrow>
     spin_step (m, t) (m', t(c := (t c)\<lparr>act := Popping\<rparr>))"
| st_pop: "act (t c) = Popping \<Longrightarrow> pop_off c m = Inr m' \<Longrightarrow>
     spin_step (m, t) (m', t(c := (t c)\<lparr>act := Idle\<rparr>))"

text \<open>All locks free, no CPU inside a section.\<close>

definition spin_init :: "world \<Rightarrow> bool" where
  "spin_init w \<longleftrightarrow> (\<forall>l. \<not> locked (locks (fst w) l) \<and> lcpu (locks (fst w) l) = None) \<and>
     (\<forall>c. noff (cpus (fst w) c) = 0 \<and> snd w c = \<lparr>held = [], act = Idle\<rparr>)"

definition owns :: "thread \<Rightarrow> nat \<Rightarrow> bool" where
  "owns k l \<longleftrightarrow> l \<in> set (held k) \<or> act k = Won l \<or> act k = Leaving l"

definition depth :: "thread \<Rightarrow> int" where
  "depth k = int (length (held k)) + (if act k = Idle then 0 else 1)"

definition spin_inv :: "world \<Rightarrow> bool" where
  "spin_inv w \<longleftrightarrow> (case w of (m, t) \<Rightarrow>
     (\<forall>l c c'. owns (t c) l \<and> owns (t c') l \<longrightarrow> c = c') \<and>
     (\<forall>l. locked (locks m l) \<longleftrightarrow> (\<exists>c. owns (t c) l)) \<and>
     (\<forall>l c. lcpu (locks m l) = Some c \<longleftrightarrow> l \<in> set (held (t c))) \<and>
     (\<forall>c l. distinct (held (t c)) \<and> (act (t c) = Won l \<or> act (t c) = Leaving l \<or> act (t c) = Spin l \<longrightarrow> l \<notin> set (held (t c)))) \<and>
     (\<forall>c. noff (cpus m c) = depth (t c) \<and> cpu_ok (cpus m c)))"

lemma spin_invI:
  assumes "\<And>l c c'. owns (t c) l \<Longrightarrow> owns (t c') l \<Longrightarrow> c = c'"
    and "\<And>l. locked (locks m l) \<longleftrightarrow> (\<exists>c. owns (t c) l)"
    and "\<And>l c. lcpu (locks m l) = Some c \<longleftrightarrow> l \<in> set (held (t c))"
    and "\<And>c. distinct (held (t c))"
    and "\<And>c l. act (t c) = Won l \<or> act (t c) = Leaving l \<or> act (t c) = Spin l \<Longrightarrow> l \<notin> set (held (t c))"
    and "\<And>c. noff (cpus m c) = depth (t c)" "\<And>c. cpu_ok (cpus m c)"
  shows "spin_inv (m, t)"
  using assms unfolding spin_inv_def by auto

lemma upd_lock_sel [simp]:
  "locks (upd_lock l f m) l' = (if l' = l then f (locks m l) else locks m l')"
  "cpus (upd_lock l f m) = cpus m"
  by (simp_all add: upd_lock_def)

lemma push_off_sel:
  "locks (push_off c m) = locks m"
  "cpus (push_off c m) c' = (if c' = c
     then (settle (cpus m c))\<lparr>crmd_ie := False, noff := noff (cpus m c) + 1\<rparr> else cpus m c')"
  by (simp_all add: push_off_eq upd_cpu_def)

lemma pop_off_sel:
  assumes "pop_off c m = Inr m'"
  shows "locks m' = locks m" "noff (cpus m' c) = noff (cpus m c) - 1" "0 < noff (cpus m c)"
    "c' \<noteq> c \<Longrightarrow> cpus m' c' = cpus m c'" "cpu_ok (cpus m c) \<Longrightarrow> cpu_ok (cpus m' c)"
  using assms by (auto simp: pop_off_def intr_on_def intr_get_def upd_cpu_def Let_def cpu_ok_def split: if_splits)

lemma spin_inv_step:
  assumes "spin_inv (m, t)" "spin_step (m, t) w'"
  shows "spin_inv w'"
proof -
  have u: "\<And>l c c'. owns (t c) l \<Longrightarrow> owns (t c') l \<Longrightarrow> c = c'"
    and lk: "\<And>l. locked (locks m l) \<longleftrightarrow> (\<exists>c. owns (t c) l)"
    and lc: "\<And>l c. lcpu (locks m l) = Some c \<longleftrightarrow> l \<in> set (held (t c))"
    and di: "\<And>c. distinct (held (t c))"
    and ac: "\<And>c l. act (t c) = Won l \<or> act (t c) = Leaving l \<or> act (t c) = Spin l \<Longrightarrow> l \<notin> set (held (t c))"
    and nf: "\<And>c. noff (cpus m c) = depth (t c)" and ok: "\<And>c. cpu_ok (cpus m c)"
    using assms(1) unfolding spin_inv_def by auto
  note facts = u lk lc di ac nf ok
  from assms(2) show ?thesis
  proof cases
    case (st_push c m' l)
    let ?t = "t(c := (t c)\<lparr>act := Spin l\<rparr>)"
    have l: "l \<notin> set (held (t c))" using st_push lk lc by (auto simp: holding_def push_off_sel owns_def)
    have "owns (?t c') l' = owns (t c') l'" for c' l' using st_push by (auto simp: owns_def)
    note ow = this
    show ?thesis unfolding st_push
    proof (rule spin_invI, unfold ow)
    qed (use st_push facts l in \<open>auto simp: depth_def push_off_sel settle_def cpu_ok_def split: if_splits\<close>)
  next
    case (st_spin c l)
    then show ?thesis using assms(1) by simp
  next
    case (st_tas c l m')
    let ?t = "t(c := (t c)\<lparr>act := Won l\<rparr>)"
    have no: "\<not> owns (t c') l" for c' using lk st_tas by auto
    have "owns (?t c') l' \<longleftrightarrow> owns (t c') l' \<or> c' = c \<and> l' = l" for c' l'
      using st_tas by (auto simp: owns_def)
    note ow = this
    show ?thesis unfolding st_tas
    proof (rule spin_invI, unfold ow)
    qed (use st_tas facts no in \<open>auto simp: depth_def split: if_splits\<close>)
  next
    case (st_own c l m')
    let ?t = "t(c := (t c)\<lparr>held := l # held (t c), act := Idle\<rparr>)"
    have o: "owns (t c) l" and l: "l \<notin> set (held (t c))" using st_own ac by (auto simp: owns_def)
    have "owns (?t c') l' = owns (t c') l'" for c' l' using st_own by (auto simp: owns_def)
    note ow = this
    have n: "l \<notin> set (held (t c'))" for c' using u [OF o, of c'] l by (auto simp: owns_def)
    show ?thesis unfolding st_own
    proof (rule spin_invI, unfold ow)
    qed (use st_own facts l n in \<open>auto simp: depth_def split: if_splits\<close>)
  next
    case (st_disown c l m')
    let ?t = "t(c := (t c)\<lparr>held := remove1 l (held (t c)), act := Leaving l\<rparr>)"
    have o: "l \<in> set (held (t c))" using st_disown lc by (simp add: holding_def)
    have "owns (?t c') l' = owns (t c') l'" for c' l' using st_disown o di by (auto simp: owns_def)
    note ow = this
    have n: "l \<in> set (held (t c')) \<longleftrightarrow> c' = c" for c' using u [of c l c'] o by (auto simp: owns_def)
    have ln: "int (length (remove1 l (held (t c)))) = int (length (held (t c))) - 1"
      using o length_pos_if_in_set [OF o] by (simp add: length_remove1 of_nat_diff Suc_le_eq)
    show ?thesis unfolding st_disown
    proof (rule spin_invI, unfold ow)
    qed (use st_disown facts n ln in \<open>auto simp: depth_def split: if_splits\<close>)
  next
    case (st_unlock c l m')
    let ?t = "t(c := (t c)\<lparr>act := Popping\<rparr>)"
    have o: "owns (t c) l" and l: "l \<notin> set (held (t c))" using st_unlock ac by (auto simp: owns_def)
    have n: "owns (t c') l \<longleftrightarrow> c' = c" for c' using u [OF o, of c'] o by auto
    have "owns (?t c') l' \<longleftrightarrow> owns (t c') l' \<and> l' \<noteq> l" for c' l'
      using st_unlock n [of c'] l by (auto simp: owns_def)
    note ow = this
    show ?thesis unfolding st_unlock
    proof (rule spin_invI, unfold ow)
    qed (use st_unlock facts in \<open>auto simp: depth_def split: if_splits\<close>)
  next
    case (st_pop c m')
    let ?t = "t(c := (t c)\<lparr>act := Idle\<rparr>)"
    have "owns (?t c') l' = owns (t c') l'" for c' l' using st_pop by (auto simp: owns_def)
    note ow = this
    note po = pop_off_sel [OF st_pop(3)]
    have ok': "cpu_ok (cpus m' c')" for c' using po(4,5) ok by (cases "c' = c") auto
    have nf': "noff (cpus m' c') = depth (?t c')" for c'
      using po(2,4) nf st_pop by (cases "c' = c") (auto simp: depth_def)
    show ?thesis unfolding st_pop
    proof (rule spin_invI, unfold ow)
    qed (use st_pop facts po(1) ok' nf' in \<open>auto split: if_splits\<close>)
  qed
qed

lemma spin_inv_reachable:
  assumes "spin_init w" "spin_step\<^sup>*\<^sup>* w w'"
  shows "spin_inv w'"
  using assms(2)
proof induction
  case base
  then show ?case
    using assms(1) by (cases w) (auto simp: spin_init_def spin_inv_def owns_def depth_def cpu_ok_def)
next
  case (step w1 w2)
  then show ?case by (cases w1) (simp add: spin_inv_step)
qed

section \<open>Properties\<close>

text \<open>C24: Any balanced sequence of \<open>push_off\<close> and \<open>pop_off\<close> (nested and sequenced at will) runs
  without panic and leaves the interrupt state and the nesting depth of the CPU, and all
  else, as they were; between a \<open>push_off\<close> and its matching \<open>pop_off\<close> interrupts are off.\<close>

theorem push_off_pop_off_balanced:
  assumes "balanced xs" "cpu_ok (cpus m c)"
  shows "\<exists>m'. run_irq c xs m = Inr m' \<and> (m' = m \<or> m' = upd_cpu c settle m) \<and>
    intr_get c m' = intr_get c m \<and> noff (cpus m' c) = noff (cpus m c) \<and>
    run_irq c (Push # xs) m = Inr (push_off c m) \<and> \<not> intr_get c (push_off c m)"
proof -
  obtain m' where m': "run_irq c xs m = Inr m'" "m' = m \<or> m' = upd_cpu c settle m"
    using balanced_run [OF assms] by blast
  have ok: "cpu_ok (cpus (push_off c m) c)" "settle (cpus (push_off c m) c) = cpus (push_off c m) c"
    using assms(2) by (simp_all add: push_off_eq cpu_ok_def settle_def)
  then have "upd_cpu c settle (push_off c m) = push_off c m" by (simp add: upd_cpu_def)
  with balanced_run [OF assms(1) ok(1)] have "run_irq c xs (push_off c m) = Inr (push_off c m)" by auto
  then show ?thesis using m' by (auto simp: intr_get_def settle_def push_off_sel split: if_splits)
qed

definition idle_machine :: machine where
  "idle_machine = \<lparr>cpus = (\<lambda>_. \<lparr>noff = 0, intena = False, crmd_ie = True\<rparr>),
     locks = (\<lambda>_. \<lparr>locked = False, lname = [], lcpu = None\<rparr>)\<rparr>"

theorem push_off_pop_off_balanced_witness:
  "\<exists>m'. run_irq 0 [Push, Push, Pop, Push, Pop, Pop] idle_machine = Inr m' \<and> intr_get 0 m'"
proof -
  have "balanced ([] :: irq list)" by (rule bal_nil)
  then have pp: "balanced [Push, Pop]" using bal_nest by fastforce
  then have "balanced ([Push, Pop] @ [Push, Pop])" using bal_seq by blast
  then have "balanced (Push # ([Push, Pop] @ [Push, Pop]) @ [Pop])" by (rule bal_nest)
  then have b: "balanced [Push, Push, Pop, Push, Pop, Pop]" by simp
  show ?thesis
    using push_off_pop_off_balanced [OF b, of idle_machine 0]
    by (auto simp: cpu_ok_def intr_get_def idle_machine_def)
qed

text \<open>C23: Running a body between \<open>acquire\<close> and \<open>release\<close> of a free lock has exactly the effect of
  the body: the lock is free again and the interrupt state restored, and while the body
  runs the CPU holds the lock with interrupts off. The body may itself use other locks, as
  long as it returns the machine as it found it.\<close>

theorem critical_section_is_body:
  fixes body :: "machine \<times> 's \<Rightarrow> (machine \<times> 's) res"
  assumes "cpu_ok (cpus m c)" "\<not> locked (locks m l)" "lcpu (locks m l) = None"
    and "\<And>m1 s m2 s2. body (m1, s) = Inr (m2, s2) \<Longrightarrow> m2 = m1"
  shows "\<exists>m1. acquire c l m = Inr m1 \<and> holding c l m1 \<and> \<not> intr_get c m1 \<and>
    kbind (acquire c l m) (\<lambda>m. kbind (body (m, s)) (\<lambda>(m, s). kbind (release c l m) (\<lambda>m. Inr (m, s)))) =
    kbind (body (m1, s)) (\<lambda>(_, s). Inr (upd_cpu c settle m, s))"
proof -
  let ?m1 = "upd_lock l (\<lambda>k. k\<lparr>locked := True, lcpu := Some c\<rparr>) (push_off c m)"
  have "kbind (body (?m1, s)) (\<lambda>(m, s). kbind (release c l m) (\<lambda>m. Inr (m, s))) =
      kbind (body (?m1, s)) (\<lambda>(_, s). Inr (upd_cpu c settle m, s))"
    using assms(4) [of ?m1 s] release_acquired [OF assms(1-3)]
    by (auto simp: kbind_def split: sum.splits)
  then show ?thesis using acquire_free [OF assms(2), of c]
    by (intro exI [of _ ?m1]) (simp add: holding_def intr_get_def push_off_sel)
qed

theorem critical_section_is_body_witness:
  "\<exists>m1. acquire 0 7 idle_machine = Inr m1 \<and> holding 0 7 m1 \<and> \<not> intr_get 0 m1"
  using critical_section_is_body [of idle_machine 0 7 "\<lambda>(m, s :: nat). Inr (m, Suc s)" 0]
  by (auto simp: cpu_ok_def idle_machine_def)

text \<open>C22: In every interleaving of the steps of \<open>acquire\<close> and \<open>release\<close> on any number of CPUs and
  locks, no two CPUs are inside the section of the same lock, a CPU inside a section has
  interrupts off, \<open>holding\<close> says exactly whether the CPU holds the lock (so \<open>acquire\<close> panics
  only on a lock the CPU already holds), and \<open>pop_off\<close> never panics at the end of \<open>release\<close>.\<close>

theorem spinlock_mutual_exclusion:
  assumes "spin_init w" "spin_step\<^sup>*\<^sup>* w (m, t)"
  shows "(l \<in> set (held (t c)) \<and> l \<in> set (held (t c')) \<longrightarrow> c = c') \<and>
    (l \<in> set (held (t c)) \<longrightarrow> \<not> intr_get c m) \<and>
    (holding c l m \<longleftrightarrow> l \<in> set (held (t c))) \<and>
    (act (t c) = Popping \<longrightarrow> (\<exists>m'. pop_off c m = Inr m'))"
proof -
  have inv: "spin_inv (m, t)" using spin_inv_reachable [OF assms] .
  have nf: "noff (cpus m c) = depth (t c)" "cpu_ok (cpus m c)" using inv by (simp_all add: spin_inv_def)
  have "l \<in> set (held (t c)) \<longrightarrow> 0 < depth (t c)"
    using length_pos_if_in_set [of l "held (t c)"] by (auto simp: depth_def)
  moreover have "l \<in> set (held (t c)) \<longrightarrow> locked (locks m l)"
    using inv by (auto simp: spin_inv_def owns_def)
  moreover have "act (t c) = Popping \<longrightarrow> 0 < depth (t c)" by (auto simp: depth_def)
  ultimately show ?thesis using inv nf
    by (auto simp: spin_inv_def owns_def cpu_ok_def intr_get_def holding_def pop_off_def Let_def)
qed

definition idle_world :: world where
  "idle_world = (idle_machine, \<lambda>_. \<lparr>held = [], act = Idle\<rparr>)"

theorem spinlock_mutual_exclusion_witness:
  "\<exists>m t. spin_step\<^sup>*\<^sup>* idle_world (m, t) \<and> 7 \<in> set (held (t 0)) \<and> 7 \<notin> set (held (t 1)) \<and> holding 0 7 m"
proof -
  have init: "spin_init idle_world" by (simp add: idle_world_def idle_machine_def spin_init_def)
  let ?m0 = "fst idle_world" and ?t0 = "snd idle_world"
  let ?m1 = "push_off 0 ?m0" and ?t1 = "?t0(0 := (?t0 0)\<lparr>act := Spin 7\<rparr>)"
  let ?m2 = "upd_lock 7 (\<lambda>k. k\<lparr>locked := True\<rparr>) ?m1" and ?t2 = "?t1(0 := (?t1 0)\<lparr>act := Won 7\<rparr>)"
  let ?m3 = "upd_lock 7 (\<lambda>k. k\<lparr>lcpu := Some 0\<rparr>) ?m2"
    and ?t3 = "?t2(0 := (?t2 0)\<lparr>held := 7 # held (?t2 0), act := Idle\<rparr>)"
  have "spin_step (?m0, ?t0) (?m1, ?t1)"
    by (rule st_push) (simp_all add: idle_world_def idle_machine_def holding_def push_off_sel)
  moreover have "spin_step (?m1, ?t1) (?m2, ?t2)"
    by (rule st_tas) (simp_all add: idle_world_def idle_machine_def push_off_sel)
  moreover have "spin_step (?m2, ?t2) (?m3, ?t3)" by (rule st_own) simp_all
  ultimately have r: "spin_step\<^sup>*\<^sup>* idle_world (?m3, ?t3)" by (auto intro: rtranclp.intros)
  moreover have h: "7 \<in> set (held (?t3 0))" by simp
  ultimately obtain m t where w: "spin_step\<^sup>*\<^sup>* idle_world (m, t)" "7 \<in> set (held (t 0))" by blast
  then show ?thesis
    using spinlock_mutual_exclusion [OF init w(1), of 7 0 1] by auto
qed

end
