(* ===== verification/Proc.thy ===== *)
theory Proc
  imports VmCopy Spinlock
begin

text \<open>
  \<open>kernel/proc.c\<close> without its file-system parts (\<open>fork\<close>, \<open>exit\<close> and \<open>userinit\<close> are in
  \<open>ProcLife\<close>): the process table, allocation and freeing of processes, sleeping and waking,
  \<open>kill\<close>, \<open>wait\<close>, the scheduler's choice, and growing a process. The state extends the
  memory state by the process table, the process running on the CPU, \<open>initproc\<close> and
  \<open>nextpid\<close>. A process is its index in the table; \<open>None\<close> stands for a null pointer.
\<close>

section \<open>State (proc.h)\<close>

datatype procstate = UNUSED | USED | SLEEPING | RUNNABLE | RUNNING | ZOMBIE

text \<open>Where a saved context resumes: a new process in \<open>forkret\<close>, others after \<open>swtch\<close>.\<close>

datatype resume = Forkret | After_swtch

record kcontext =
  cra :: resume
  csp :: u64
  csaved :: "u64 list"

record proc =
  pst :: procstate
  pchan :: "chan option"
  killed :: bool
  xstate :: u32
  pid :: u32
  parent :: "nat option"
  kstack :: u64
  psz :: u64
  pagetable :: u64
  trapframe :: u64
  pcontext :: kcontext
  ofile :: "nat option list"
  cwd :: "nat option"
  pname :: cptr

record pstate = kmem +
  procs :: "proc list"
  cur :: "nat option"
  initproc :: "nat option"
  nextpid :: u32
  ticks :: u32

definition NPROC :: nat where "NPROC = 32"
definition NOFILE :: nat where "NOFILE = 16"

text \<open>Static storage is zero when the kernel starts, except for \<open>nextpid\<close>.\<close>

definition zero_proc :: proc where
  "zero_proc = \<lparr>pst = UNUSED, pchan = None, killed = False, xstate = 0, pid = 0, parent = None,
     kstack = 0, psz = 0, pagetable = 0, trapframe = 0,
     pcontext = \<lparr>cra = Forkret, csp = 0, csaved = replicate 10 0\<rparr>,
     ofile = replicate NOFILE None, cwd = None, pname = (\<lambda>_. 0)\<rparr>"

definition zero_pstate :: pstate where
  "zero_pstate = \<lparr>pmem = (\<lambda>_. 0), freelist = 0, procs = replicate NPROC zero_proc, cur = None,
     initproc = None, nextpid = 1, ticks = 0\<rparr>"

definition upd_proc :: "nat \<Rightarrow> (proc \<Rightarrow> proc) \<Rightarrow> 'a pstate_scheme \<Rightarrow> 'a pstate_scheme" where
  "upd_proc i f s = s\<lparr>procs := (procs s)[i := f (procs s ! i)]\<rparr>"

definition myproc :: "'a pstate_scheme \<Rightarrow> nat" where
  "myproc s = the (cur s)"

text \<open>Byte offsets of the trapframe registers the kernel reads or writes.\<close>

definition TF_sp :: u64 where "TF_sp = 16"
definition TF_a0 :: u64 where "TF_a0 = 24"
definition TF_a1 :: u64 where "TF_a1 = 32"
definition TF_a2 :: u64 where "TF_a2 = 40"
definition TF_a3 :: u64 where "TF_a3 = 48"
definition TF_a4 :: u64 where "TF_a4 = 56"
definition TF_a5 :: u64 where "TF_a5 = 64"
definition TF_a7 :: u64 where "TF_a7 = 80"
definition TF_kernel_sp :: u64 where "TF_kernel_sp = 248"
definition TF_kernel_trap :: u64 where "TF_kernel_trap = 256"
definition TF_era :: u64 where "TF_era = 264"
definition TF_kernel_hartid :: u64 where "TF_kernel_hartid = 272"
definition TF_kernel_pgdl :: u64 where "TF_kernel_pgdl = 280"
definition TF_size :: nat where "TF_size = 288"

definition tf_load :: "nat \<Rightarrow> u64 \<Rightarrow> 'a pstate_scheme \<Rightarrow> u64" where
  "tf_load i off s = load64 (pmem s) (trapframe (procs s ! i) + off)"

definition tf_store :: "nat \<Rightarrow> u64 \<Rightarrow> u64 \<Rightarrow> 'a pstate_scheme \<Rightarrow> 'a pstate_scheme" where
  "tf_store i off v s = s\<lparr>pmem := store64 (pmem s) (trapframe (procs s ! i) + off) v\<rparr>"

section \<open>Allocating and freeing processes\<close>

text \<open>The permissions of the trapframe and kernel-stack pages: no \<open>PTE_PLV\<close>.\<close>

definition kperm :: u64 where
  "kperm = PTE_NX OR PTE_P OR PTE_W OR PTE_MAT OR PTE_D"

definition proc_mapstacks :: "u64 \<Rightarrow> 'a kmem_scheme \<Rightarrow> 'a kmem_scheme res" where
  "proc_mapstacks kpgtbl s =
     kfor (\<lambda>p s. case kalloc s of (pa, s) \<Rightarrow>
         if pa = 0 then Inl (Panic ''kalloc'')
         else kbind (mappages kpgtbl (KSTACK p) PGSIZE pa kperm s) (\<lambda>(r, s).
           if r \<noteq> 0 then Inl (Panic ''kvmmap'') else Inr s))
       [0..<NPROC] s"

definition procinit :: "'a pstate_scheme \<Rightarrow> 'a pstate_scheme" where
  "procinit s = s\<lparr>procs := map (\<lambda>(i, p). p\<lparr>pst := UNUSED, kstack := KSTACK i\<rparr>)
     (zip [0..<NPROC] (procs s))\<rparr>"

definition allocpid :: "'a pstate_scheme \<Rightarrow> u32 \<times> 'a pstate_scheme" where
  "allocpid s = (nextpid s, s\<lparr>nextpid := nextpid s + 1\<rparr>)"

definition proc_pagetable :: "nat \<Rightarrow> 'a pstate_scheme \<Rightarrow> (u64 \<times> 'a pstate_scheme) res" where
  "proc_pagetable i s =
     (case uvmcreate s of (pt, s) \<Rightarrow>
      if pt = 0 then Inr (0, s)
      else kbind (mappages pt TRAPFRAME PGSIZE (trapframe (procs s ! i)) kperm s) (\<lambda>(r, s).
        if r < 0 then kbind (uvmfree pt 0 s) (\<lambda>s. Inr (0, s))
        else Inr (pt, s)))"

definition proc_freepagetable :: "u64 \<Rightarrow> u64 \<Rightarrow> 'a kmem_scheme \<Rightarrow> 'a kmem_scheme res" where
  "proc_freepagetable pt sz s =
     kbind (uvmunmap pt TRAPFRAME 1 False s) (\<lambda>s. uvmfree pt sz s)"

definition freeproc :: "nat \<Rightarrow> 'a pstate_scheme \<Rightarrow> 'a pstate_scheme res" where
  "freeproc i s =
     kbind (if trapframe (procs s ! i) \<noteq> 0 then kfree (trapframe (procs s ! i)) s else Inr s) (\<lambda>s.
     let s = upd_proc i (\<lambda>p. p\<lparr>trapframe := 0\<rparr>) s in
     kbind (if pagetable (procs s ! i) \<noteq> 0
            then proc_freepagetable (pagetable (procs s ! i)) (psz (procs s ! i)) s else Inr s) (\<lambda>s.
     Inr (upd_proc i (\<lambda>p. p\<lparr>pagetable := 0, psz := 0, pid := 0, parent := None,
       pname := (pname p)(0 := 0), pchan := None, killed := False, xstate := 0, pst := UNUSED\<rparr>) s)))"

text \<open>The first unused slot of the table.\<close>

fun find_unused :: "nat \<Rightarrow> proc list \<Rightarrow> nat option" where
  "find_unused i [] = None"
| "find_unused i (p # ps) = (if pst p = UNUSED then Some i else find_unused (Suc i) ps)"

definition allocproc :: "'a pstate_scheme \<Rightarrow> (nat option \<times> 'a pstate_scheme) res" where
  "allocproc s =
     (case find_unused 0 (procs s) of
        None \<Rightarrow> Inr (None, s)
      | Some i \<Rightarrow>
        (case allocpid s of (n, s) \<Rightarrow>
         let s = upd_proc i (\<lambda>p. p\<lparr>pid := n, pst := USED\<rparr>) s in
         (case kalloc s of (tf, s) \<Rightarrow>
          let s = upd_proc i (\<lambda>p. p\<lparr>trapframe := tf\<rparr>) s in
          if tf = 0 then kbind (freeproc i s) (\<lambda>s. Inr (None, s))
          else kbind (proc_pagetable i s) (\<lambda>(pt, s).
            let s = upd_proc i (\<lambda>p. p\<lparr>pagetable := pt\<rparr>) s in
            if pt = 0 then kbind (freeproc i s) (\<lambda>s. Inr (None, s))
            else Inr (Some i, upd_proc i (\<lambda>p. p\<lparr>pcontext :=
              \<lparr>cra = Forkret, csp = kstack p + PGSIZE, csaved = replicate 10 0\<rparr>\<rparr>) s)))))"

text \<open>
  \<open>growproc\<close> keeps the size in a 32-bit \<open>uint\<close>, so \<open>sz + n\<close> wraps; it is compared with
  \<open>MAXVA - PGSIZE\<close> as a 64-bit number. \<open>n\<close> is the C \<open>int\<close> as a 32-bit word.
\<close>

definition growproc :: "u32 \<Rightarrow> 'a pstate_scheme \<Rightarrow> (int \<times> 'a pstate_scheme) res" where
  "growproc n s =
     (let i = myproc s; pt = pagetable (procs s ! i); sz = (ucast (psz (procs s ! i)) :: u32);
          set_sz = (\<lambda>v s. upd_proc i (\<lambda>p. p\<lparr>psz := ucast (ucast (v :: u64) :: u32)\<rparr>) s)
      in
      if 0 < sint n then
        if ucast (sz + n) \<ge> MAXVA - PGSIZE then Inr (- 1, s)
        else kbind (uvmalloc pt (ucast sz) (ucast (sz + n)) s) (\<lambda>(r, s).
          if (ucast r :: u32) = 0 then Inr (- 1, s) else Inr (0, set_sz r s))
      else if sint n < 0 then
        kbind (uvmdealloc pt (ucast sz) (ucast (sz + n)) s) (\<lambda>(r, s). Inr (0, set_sz r s))
      else Inr (0, set_sz (ucast sz) s))"

section \<open>Sleeping, waking, killing\<close>

text \<open>
  \<open>sleep\<close> up to its call of \<open>sched\<close>, and from there on: the other processes run in between.
\<close>

definition sleep_enter :: "chan \<Rightarrow> 'a pstate_scheme \<Rightarrow> 'a pstate_scheme" where
  "sleep_enter c s = upd_proc (myproc s) (\<lambda>p. p\<lparr>pchan := Some c, pst := SLEEPING\<rparr>) s"

definition sleep_leave :: "'a pstate_scheme \<Rightarrow> 'a pstate_scheme" where
  "sleep_leave s = upd_proc (myproc s) (\<lambda>p. p\<lparr>pchan := None\<rparr>) s"

definition wakeup1 :: "chan option \<Rightarrow> proc \<Rightarrow> proc" where
  "wakeup1 c p = (if pst p = SLEEPING \<and> pchan p = c then p\<lparr>pst := RUNNABLE\<rparr> else p)"

definition wakeup :: "chan option \<Rightarrow> 'a pstate_scheme \<Rightarrow> 'a pstate_scheme" where
  "wakeup c s = s\<lparr>procs := map (\<lambda>(i, p). if Some i \<noteq> cur s then wakeup1 c p else p)
     (zip [0..<length (procs s)] (procs s))\<rparr>"

fun kill_scan :: "u32 \<Rightarrow> proc list \<Rightarrow> (int \<times> proc list)" where
  "kill_scan n [] = (- 1, [])"
| "kill_scan n (p # ps) =
     (if pid p = n then
        (0, (if pst p = SLEEPING then p\<lparr>killed := True, pst := RUNNABLE\<rparr> else p\<lparr>killed := True\<rparr>) # ps)
      else case kill_scan n ps of (r, ps) \<Rightarrow> (r, p # ps))"

definition kill :: "u32 \<Rightarrow> 'a pstate_scheme \<Rightarrow> int \<times> 'a pstate_scheme" where
  "kill n s = (case kill_scan n (procs s) of (r, ps) \<Rightarrow> (r, s\<lparr>procs := ps\<rparr>))"

section \<open>Waiting for children\<close>

definition reparent :: "nat \<Rightarrow> 'a pstate_scheme \<Rightarrow> 'a pstate_scheme" where
  "reparent i s =
     fold (\<lambda>j s. if parent (procs s ! j) = Some i
                 then wakeup (map_option Ch_proc (initproc s))
                        (upd_proc j (\<lambda>p. p\<lparr>parent := initproc s\<rparr>) s)
                 else s)
       [0..<length (procs s)] s"

text \<open>
  The ends of \<open>userinit\<close>, \<open>fork\<close> and \<open>exit\<close>, which enter a new process in the table and take the
  current one out of it; \<open>ProcLife\<close> has the whole functions.
\<close>

definition init_link :: "nat \<Rightarrow> nat option \<Rightarrow> 'a pstate_scheme \<Rightarrow> 'a pstate_scheme" where
  "init_link i d s = upd_proc i (\<lambda>p. p\<lparr>cwd := d, pst := RUNNABLE\<rparr>) s"

definition fork_link :: "nat \<Rightarrow> nat \<Rightarrow> 'a pstate_scheme \<Rightarrow> 'a pstate_scheme" where
  "fork_link i np s = upd_proc np (\<lambda>p. p\<lparr>pst := RUNNABLE\<rparr>) (upd_proc np (\<lambda>p. p\<lparr>parent := Some i\<rparr>) s)"

definition exit_leave :: "nat \<Rightarrow> u32 \<Rightarrow> 'a pstate_scheme \<Rightarrow> 'a pstate_scheme" where
  "exit_leave i status s =
     (let s = reparent i s;
          s = wakeup (map_option Ch_proc (parent (procs s ! i))) s
      in upd_proc i (\<lambda>p. p\<lparr>xstate := status, pst := ZOMBIE\<rparr>) s)"

text \<open>One scan of the table by \<open>wait\<close>: has it children, and which is the first zombie.\<close>

fun wait_scan :: "nat \<Rightarrow> nat \<Rightarrow> proc list \<Rightarrow> bool \<times> nat option" where
  "wait_scan me i [] = (False, None)"
| "wait_scan me i (p # ps) =
     (if parent p = Some me then
        if pst p = ZOMBIE then (True, Some i)
        else (case wait_scan me (Suc i) ps of (_, z) \<Rightarrow> (True, z))
      else wait_scan me (Suc i) ps)"

text \<open>One iteration of \<open>wait\<close>; \<open>Sleep\<close> when the caller has to sleep on itself.\<close>

definition wait :: "u64 \<Rightarrow> 'a pstate_scheme \<Rightarrow> (int \<times> 'a pstate_scheme) res" where
  "wait addr s =
     (let me = myproc s in
      case wait_scan me 0 (procs s) of
        (_, Some j) \<Rightarrow>
          let n = sint (pid (procs s ! j)) in
          if addr \<noteq> 0 then
            kbind (copyout (pagetable (procs s ! me)) addr (word_bytes 4 (xstate (procs s ! j))) s) (\<lambda>(r, s).
              if r < 0 then Inr (- 1, s)
              else kbind (freeproc j s) (\<lambda>s. Inr (n, s)))
          else kbind (freeproc j s) (\<lambda>s. Inr (n, s))
      | (havekids, None) \<Rightarrow>
          if \<not> havekids \<or> killed (procs s ! me) then Inr (- 1, s)
          else Inl (Sleep (Ch_proc me)))"

section \<open>Scheduling\<close>

text \<open>
  \<open>scheduler\<close> as a machine: \<open>cursor\<close> is the loop variable \<open>p\<close>. \<open>sched_tick\<close> is one iteration of
  the inner loop up to \<open>swtch\<close> (the process runs, \<open>Some\<close>) or past it; \<open>sched_back\<close> is the
  rest of the iteration when the process has switched back.
\<close>

definition sched_tick :: "nat \<Rightarrow> 'a pstate_scheme \<Rightarrow> 'a pstate_scheme option" where
  "sched_tick cursor s =
     (if pst (procs s ! cursor) = RUNNABLE
      then Some ((upd_proc cursor (\<lambda>p. p\<lparr>pst := RUNNING\<rparr>) s)\<lparr>cur := Some cursor\<rparr>)
      else None)"

definition sched_back :: "'a pstate_scheme \<Rightarrow> 'a pstate_scheme" where
  "sched_back s = s\<lparr>cur := None\<rparr>"

definition sched_next :: "nat \<Rightarrow> nat" where
  "sched_next cursor = (if Suc cursor < NPROC then Suc cursor else 0)"

text \<open>The checks of \<open>sched\<close>; \<open>l\<close> is the number of the lock \<open>p->lock\<close>.\<close>

definition sched :: "nat \<Rightarrow> nat \<Rightarrow> machine \<Rightarrow> 'a pstate_scheme \<Rightarrow> unit res" where
  "sched c l m s =
     (if \<not> holding c l m then Inl (Panic ''sched p->lock'')
      else if noff (cpus m c) \<noteq> 1 then Inl (Panic ''sched locks'')
      else if pst (procs s ! myproc s) = RUNNING then Inl (Panic ''sched running'')
      else if intr_get c m then Inl (Panic ''sched interruptible'')
      else Inr ())"

definition yield :: "'a pstate_scheme \<Rightarrow> 'a pstate_scheme" where
  "yield s = upd_proc (myproc s) (\<lambda>p. p\<lparr>pst := RUNNABLE\<rparr>) s"

section \<open>Copying to and from either address space\<close>

definition either_copyout ::
  "bool \<Rightarrow> u64 \<Rightarrow> byte list \<Rightarrow> 'a pstate_scheme \<Rightarrow> (int \<times> 'a pstate_scheme) res" where
  "either_copyout user_dst dst src s =
     (if user_dst then copyout (pagetable (procs s ! myproc s)) dst src s
      else Inr (0, s\<lparr>pmem := store_bytes (pmem s) dst src\<rparr>))"

definition either_copyin ::
  "bool \<Rightarrow> u64 \<Rightarrow> nat \<Rightarrow> 'a pstate_scheme \<Rightarrow> (int \<times> byte list) res" where
  "either_copyin user_src src n s =
     (if user_src then copyin (pagetable (procs s ! myproc s)) src n s
      else Inr (0, load_bytes (pmem s) src n))"

section \<open>User memory of the current process\<close>

lemma wakeup_frame [simp]:
  "pmem (wakeup c s) = pmem s" "freelist (wakeup c s) = freelist s" "cur (wakeup c s) = cur s"
  "length (procs (wakeup c s)) = length (procs s)"
  by (simp_all add: wakeup_def)

text \<open>The user bytes at the indices \<open>ks\<close> from address \<open>addr\<close> of the current process.\<close>

abbreviation my_pt :: "'a pstate_scheme \<Rightarrow> u64" where
  "my_pt s \<equiv> pagetable (procs s ! myproc s)"

definition user_bytes :: "'a pstate_scheme \<Rightarrow> u64 \<Rightarrow> nat list \<Rightarrow> byte list" where
  "user_bytes s addr ks = map (\<lambda>k. umem s (my_pt s) (unat (addr + of_nat k))) ks"

lemma wakeup_nth:
  "i < length (procs s) \<Longrightarrow> procs (wakeup c s) ! i = (if Some i \<noteq> cur s then wakeup1 c (procs s ! i) else procs s ! i)"
  by (simp add: wakeup_def)

lemma myproc_wakeup [simp]: "myproc (wakeup c s) = myproc s"
  by (simp add: myproc_def)

lemma nth_beyond: "length xs = length ys \<Longrightarrow> length xs \<le> n \<Longrightarrow> xs ! n = ys ! n"
  by (induction xs ys arbitrary: n rule: list_induct2) (auto simp: nth_Cons split: nat.splits)

lemma wakeup_fields [simp]:
  "pagetable (procs (wakeup c s) ! i) = pagetable (procs s ! i)"
  "killed (procs (wakeup c s) ! i) = killed (procs s ! i)"
  "psz (procs (wakeup c s) ! i) = psz (procs s ! i)"
  "pid (procs (wakeup c s) ! i) = pid (procs s ! i)"
  "parent (procs (wakeup c s) ! i) = parent (procs s ! i)"
  "trapframe (procs (wakeup c s) ! i) = trapframe (procs s ! i)"
  "kstack (procs (wakeup c s) ! i) = kstack (procs s ! i)"
  "ofile (procs (wakeup c s) ! i) = ofile (procs s ! i)"
  "cwd (procs (wakeup c s) ! i) = cwd (procs s ! i)"
  by (cases "i < length (procs s)";
      simp add: wakeup_nth wakeup1_def nth_beyond [of "procs (wakeup c s)" "procs s"])+

lemma more_frame:
  assumes "kmem.more s' = kmem.more (s :: 'a pstate_scheme)"
  shows "procs s' = procs s" "cur s' = cur s" "myproc s' = myproc s" "my_pt s' = my_pt s"
  using assms by (cases s; cases s'; simp add: myproc_def)+

text \<open>Every process that slept on \<open>c\<close> in \<open>s\<close> may run in \<open>s'\<close>.\<close>

definition woken :: "chan \<Rightarrow> 'a pstate_scheme \<Rightarrow> 'a pstate_scheme \<Rightarrow> bool" where
  "woken c s s' \<longleftrightarrow> (\<forall>q<length (procs s). pst (procs s ! q) = SLEEPING \<and> pchan (procs s ! q) = Some c \<and>
     cur s \<noteq> Some q \<longrightarrow> pst (procs s' ! q) = RUNNABLE)"

lemma woken_wakeup:
  assumes "procs s' = procs (wakeup (Some c) t)" "procs t = procs s" "cur t = cur s"
  shows "woken c s s'"
  using assms by (auto simp: woken_def wakeup_nth wakeup1_def)

lemma addr_inj:
  "k < 2 ^ 32 \<Longrightarrow> k' < 2 ^ 32 \<Longrightarrow> unat (addr + of_nat k :: u64) = unat (addr + of_nat k') \<longleftrightarrow> k = k'"
  by (simp add: word_unat_eq_iff [symmetric] word_of_nat_eq_iff take_bit_nat_eq_self)

end
