(* ===== verification/Sleeplock.thy ===== *)
theory Sleeplock
  imports Proc
begin

text \<open>
  \<open>kernel/sleeplock.c\<close>. A sleep-lock lives inside the object it protects, so the operations
  work on the lock value; the channel its waiters sleep on is the object's. A lock that is
  held makes \<open>acquiresleep\<close> stop with \<open>Sleep\<close>; \<open>SleepRuns\<close> interleaves the processes that
  contend for it.
\<close>

record sleeplock =
  slocked :: bool
  sname :: string
  spid :: u32

definition initsleeplock :: "string \<Rightarrow> sleeplock" where
  "initsleeplock name = \<lparr>slocked = False, sname = name, spid = 0\<rparr>"

definition mypid :: "'a pstate_scheme \<Rightarrow> u32" where
  "mypid s = pid (procs s ! myproc s)"

definition acquiresleep :: "chan \<Rightarrow> sleeplock \<Rightarrow> 'a pstate_scheme \<Rightarrow> sleeplock res" where
  "acquiresleep c lk s =
     (if slocked lk then Inl (Sleep c) else Inr (lk\<lparr>slocked := True, spid := mypid s\<rparr>))"

definition releasesleep :: "chan \<Rightarrow> sleeplock \<Rightarrow> 'a pstate_scheme \<Rightarrow> sleeplock \<times> 'a pstate_scheme" where
  "releasesleep c lk s = (lk\<lparr>slocked := False, spid := 0\<rparr>, wakeup (Some c) s)"

definition holdingsleep :: "sleeplock \<Rightarrow> 'a pstate_scheme \<Rightarrow> bool" where
  "holdingsleep lk s \<longleftrightarrow> slocked lk \<and> spid lk = mypid s"

end
