(* ===== verification/Ring.thy ===== *)
theory Ring
  imports Prelude
begin

text \<open>
  Ring buffers indexed by free-running counters of word type, as the pipe, the console and
  the UART use them: the queue a buffer and its two counters stand for, and the effect of
  storing, taking and un-storing an element. The size divides the range of the counters, so
  the counters may wrap.
\<close>

definition ring :: "'b list \<Rightarrow> 'a::len word \<Rightarrow> 'a word \<Rightarrow> 'b list" where
  "ring buf r w = map (\<lambda>k. buf ! ((unat r + k) mod length buf)) [0..<unat (w - r)]"

lemma length_ring [simp]: "length (ring buf r w) = unat (w - r)"
  by (simp add: ring_def)

lemma ring_empty_iff [simp]: "ring buf r w = [] \<longleftrightarrow> w = r"
proof -
  have "unat (w - r) = 0 \<longleftrightarrow> w = r" by (simp add: unat_eq_0)
  then show ?thesis by (metis length_0_conv length_ring)
qed

lemma unat_mod_dvd:
  assumes "n dvd 2 ^ LENGTH('a::len)"
  shows "unat (of_nat m :: 'a word) mod n = m mod n"
  using assms by (simp add: unat_of_nat mod_mod_cancel)

lemma unat_word_eq: "unat (w :: 'a::len word) = (unat r + unat (w - r)) mod 2 ^ LENGTH('a)"
proof -
  have "w = r + (w - r)" by simp
  then show ?thesis by (metis unat_word_ariths(1))
qed

lemma slot_of:
  fixes r w :: "'a::len word"
  assumes "n dvd 2 ^ LENGTH('a)"
  shows "unat w mod n = (unat r + unat (w - r)) mod n"
  unfolding unat_word_eq [of w r] using assms by (simp add: mod_mod_cancel)

locale ring_size =
  fixes n :: nat and t :: "'a::len itself"
  assumes dvd: "n dvd 2 ^ LENGTH('a)" and pos: "0 < n" and small: "n < 2 ^ LENGTH('a)"
begin

lemma ring_put:
  fixes r w :: "'a word"
  assumes "length buf = n" "unat (w - r) < n"
  shows "ring (buf[unat w mod n := c]) r (w + 1) = ring buf r w @ [c]" "unat (w + 1 - r) = Suc (unat (w - r))"
proof -
  have ne: "w + 1 - r = (w - r) + 1" by (simp add: algebra_simps)
  have "Suc (unat (w - r)) < 2 ^ LENGTH('a)" using assms(2) small by linarith
  then show u: "unat (w + 1 - r) = Suc (unat (w - r))" unfolding ne by (simp add: unat_word_ariths)
  show "ring (buf[unat w mod n := c]) r (w + 1) = ring buf r w @ [c]"
  proof (rule nth_equalityI)
    show "length (ring (buf[unat w mod n := c]) r (w + 1)) = length (ring buf r w @ [c])" using u by simp
    fix k
    assume "k < length (ring (buf[unat w mod n := c]) r (w + 1))"
    then have k: "k < Suc (unat (w - r))" using u by simp
    have s: "unat w mod n = (unat r + unat (w - r)) mod n" by (rule slot_of [OF dvd])
    show "ring (buf[unat w mod n := c]) r (w + 1) ! k = (ring buf r w @ [c]) ! k"
    proof (cases "k = unat (w - r)")
      case True
      then show ?thesis using s assms(1) pos u by (simp add: ring_def nth_append)
    next
      case False
      then have "k < unat (w - r)" using k by simp
      moreover have "(unat r + k) mod n \<noteq> (unat r + unat (w - r)) mod n"
      proof
        assume "(unat r + k) mod n = (unat r + unat (w - r)) mod n"
        then have "n dvd (unat r + unat (w - r)) - (unat r + k)" by (rule mod_eq_dvd_iff_nat [THEN iffD1, rotated, OF sym]) (use calculation in simp)
        then have "n dvd unat (w - r) - k" by simp
        then have "n \<le> unat (w - r) - k" using calculation by (auto dest: dvd_imp_le)
        then show False using assms(2) by simp
      qed
      ultimately show ?thesis using s assms(1) u by (simp add: ring_def nth_append)
    qed
  qed
qed

lemma ring_get:
  fixes r w :: "'a word"
  assumes "length buf = n" "w \<noteq> r"
  shows "ring buf r w = buf ! (unat r mod n) # ring buf (r + 1) w" "unat (w - r) = Suc (unat (w - (r + 1)))"
proof -
  have e: "w - (r + 1) = (w - r) - 1" by (simp add: algebra_simps)
  have "w - r \<noteq> 0" using assms(2) by simp
  then show u: "unat (w - r) = Suc (unat (w - (r + 1)))" unfolding e
    by (simp add: unat_minus_one unat_gt_0)
  have "(unat (r + 1) + k) mod n = (unat r + Suc k) mod n" for k
  proof -
    have "unat (r + 1) mod n = (unat r + 1) mod n"
      using dvd by (simp add: unat_word_ariths mod_mod_cancel)
    then have "(unat (r + 1) + k) mod n = (unat r + 1 + k) mod n" by (metis mod_add_left_eq)
    then show ?thesis by simp
  qed
  then show "ring buf r w = buf ! (unat r mod n) # ring buf (r + 1) w"
    unfolding ring_def u using assms(1) by (simp add: upt_conv_Cons map_Suc_upt [symmetric] del: upt_Suc)
qed

lemma ring_unput:
  fixes r w :: "'a word"
  assumes "w \<noteq> r"
  shows "ring buf r (w - 1) = butlast (ring buf r w)" "unat (w - r) = Suc (unat (w - 1 - r))"
    "last (ring buf r w) = buf ! ((unat r + unat (w - 1 - r)) mod length buf)"
proof -
  have e: "w - 1 - r = (w - r) - 1" by (simp add: algebra_simps)
  have "w - r \<noteq> 0" using assms by simp
  then show u: "unat (w - r) = Suc (unat (w - 1 - r))" unfolding e
    by (simp add: unat_minus_one unat_gt_0)
  show "ring buf r (w - 1) = butlast (ring buf r w)" unfolding ring_def u by simp
  show "last (ring buf r w) = buf ! ((unat r + unat (w - 1 - r)) mod length buf)" unfolding ring_def u by simp
qed

end

section \<open>First in, first out\<close>

text \<open>The contract of a bounded queue of bytes as its clients see it.\<close>

locale bounded_fifo =
  fixes ok :: "'q \<Rightarrow> bool" and items :: "'q \<Rightarrow> 'b list" and full :: "'q \<Rightarrow> bool"
    and put :: "'b \<Rightarrow> 'q \<Rightarrow> 'q" and get :: "'q \<Rightarrow> 'b \<times> 'q"
  assumes put_ok: "ok q \<Longrightarrow> \<not> full q \<Longrightarrow> ok (put c q)"
    and put_items: "ok q \<Longrightarrow> \<not> full q \<Longrightarrow> items (put c q) = items q @ [c]"
    and get_ok: "ok q \<Longrightarrow> items q \<noteq> [] \<Longrightarrow> ok (snd (get q))"
    and get_items: "ok q \<Longrightarrow> items q \<noteq> [] \<Longrightarrow> items q = fst (get q) # items (snd (get q))"
begin

lemma get_cases:
  assumes "ok q" "items q \<noteq> []" "get q = (c, q')"
  shows "ok q'" "items q = c # items q'"
  using get_ok [OF assms(1,2)] get_items [OF assms(1,2)] assms(3) by simp_all

end

end
