(* ===== verification/Uart.thy ===== *)
theory Uart
  imports Proc Ring
begin

text \<open>
  \<open>kernel/uart.c\<close>: the 16550 driver with its transmit ring. The device is outside the source:
  \<open>tx_idle n\<close> is what bit 5 of the line status register shows at its \<open>n\<close>-th read, \<open>rx_fifo\<close> the
  bytes waiting in the receiver, and \<open>uart_writes\<close> records every register write. A byte is
  sent by writing it to \<open>THR\<close>.
\<close>

definition UART_TX_BUF_SIZE :: nat where "UART_TX_BUF_SIZE = 32"
definition THR :: nat where "THR = 0"
definition IER :: nat where "IER = 1"
definition FCR :: nat where "FCR = 2"
definition LCR :: nat where "LCR = 3"

record ustate = pstate +
  uart_tx_buf :: "byte list"
  uart_tx_w :: u64
  uart_tx_r :: u64
  panicked :: bool
  tx_idle :: "nat \<Rightarrow> bool"
  lsr_reads :: nat
  rx_fifo :: "byte list"
  uart_writes :: "(nat \<times> byte) list"

text \<open>Static storage at start, with a transmitter that is always idle.\<close>

definition zero_ustate :: ustate where
  "zero_ustate = pstate.extend zero_pstate (ustate.fields (replicate UART_TX_BUF_SIZE 0) 0 0 False
     (\<lambda>_. True) 0 [] [])"

definition WriteReg :: "nat \<Rightarrow> byte \<Rightarrow> 'a ustate_scheme \<Rightarrow> 'a ustate_scheme" where
  "WriteReg r v s = s\<lparr>uart_writes := uart_writes s @ [(r, v)]\<rparr>"

text \<open>Reading the line status register: receive-ready and transmit-idle.\<close>

definition ReadLSR :: "'a ustate_scheme \<Rightarrow> (bool \<times> bool) \<times> 'a ustate_scheme" where
  "ReadLSR s = ((rx_fifo s \<noteq> [], tx_idle s (lsr_reads s)), s\<lparr>lsr_reads := lsr_reads s + 1\<rparr>)"

definition uartinit :: "'a ustate_scheme \<Rightarrow> 'a ustate_scheme" where
  "uartinit s = fold (\<lambda>(r, v). WriteReg r v)
     [(IER, 0), (LCR, 128), (0, 3), (1, 0), (LCR, 3), (FCR, 7), (IER, 3)] s"

text \<open>The loop of \<open>uartstart\<close>; the ring indices count up to \<open>uart_tx_w\<close>.\<close>

lemma ring_step: "w \<noteq> r \<Longrightarrow> unat (w - (r + 1)) < unat (w - (r :: 'a::len word))"
proof -
  assume "w \<noteq> r"
  then have "w - r \<noteq> 0" by simp
  then have "unat ((w - r) - 1) < unat (w - r)" by (simp add: measure_unat)
  then show ?thesis by (simp add: algebra_simps)
qed

text \<open>
  The loop of \<open>uartstart\<close> reads the line status register before each byte; the recursion is
  over the number \<open>k\<close> of bytes between the two ring indices.
\<close>

fun uartstart_loop :: "nat \<Rightarrow> 'a ustate_scheme \<Rightarrow> 'a ustate_scheme" where
  "uartstart_loop 0 s = s"
| "uartstart_loop (Suc k) s =
     (case ReadLSR s of ((_, idle), s) \<Rightarrow>
        if \<not> idle then s
        else
          let c = uart_tx_buf s ! (unat (uart_tx_r s) mod UART_TX_BUF_SIZE);
              s = s\<lparr>uart_tx_r := uart_tx_r s + 1\<rparr>;
              s = wakeup (Some Ch_uart_tx_r) s
          in uartstart_loop k (WriteReg THR c s))"

definition uartstart :: "'a ustate_scheme \<Rightarrow> 'a ustate_scheme" where
  "uartstart s = uartstart_loop (unat (uart_tx_w s - uart_tx_r s)) s"

definition uartputc :: "byte \<Rightarrow> 'a ustate_scheme \<Rightarrow> 'a ustate_scheme res" where
  "uartputc c s =
     (if panicked s then Inl Diverge
      else if uart_tx_w s = uart_tx_r s + of_nat UART_TX_BUF_SIZE then Inl (Sleep Ch_uart_tx_r)
      else
        Inr (uartstart (s\<lparr>uart_tx_buf := (uart_tx_buf s)[unat (uart_tx_w s) mod UART_TX_BUF_SIZE := c],
                          uart_tx_w := uart_tx_w s + 1\<rparr>)))"

text \<open>The busy wait of \<open>uartputc_sync\<close>: the first read from the \<open>n\<close>-th on that shows idle.\<close>

partial_function (option) wait_idle :: "(nat \<Rightarrow> bool) \<Rightarrow> nat \<Rightarrow> nat option" where
  "wait_idle f n = (if f n then Some n else wait_idle f (Suc n))"

declare wait_idle.simps [code]

definition uartputc_sync :: "byte \<Rightarrow> 'a ustate_scheme \<Rightarrow> 'a ustate_scheme res" where
  "uartputc_sync c s =
     (if panicked s then Inl Diverge
      else case wait_idle (tx_idle s) (lsr_reads s) of
        None \<Rightarrow> Inl Diverge
      | Some n \<Rightarrow> Inr (WriteReg THR c (s\<lparr>lsr_reads := n + 1\<rparr>)))"

definition uartgetc :: "'a ustate_scheme \<Rightarrow> int \<times> 'a ustate_scheme" where
  "uartgetc s =
     (case ReadLSR s of ((ready, _), s) \<Rightarrow>
        if ready then (uint (hd (rx_fifo s)), s\<lparr>rx_fifo := tl (rx_fifo s)\<rparr>) else (- 1, s))"

section \<open>The transmit ring is a queue\<close>

interpretation uart_ring: ring_size UART_TX_BUF_SIZE "TYPE(64)"
  by unfold_locales (simp_all add: UART_TX_BUF_SIZE_def)

definition uart_ok :: "'a ustate_scheme \<Rightarrow> bool" where
  "uart_ok s \<longleftrightarrow> length (uart_tx_buf s) = UART_TX_BUF_SIZE \<and> unat (uart_tx_w s - uart_tx_r s) \<le> UART_TX_BUF_SIZE"

definition uart_queue :: "'a ustate_scheme \<Rightarrow> byte list" where
  "uart_queue s = ring (uart_tx_buf s) (uart_tx_r s) (uart_tx_w s)"

text \<open>The bytes given to the device, oldest first.\<close>

definition uart_sent :: "'a ustate_scheme \<Rightarrow> byte list" where
  "uart_sent s = map snd (filter (\<lambda>(r, v). r = THR) (uart_writes s))"

lemma uart_frame [simp]:
  "uart_tx_buf (wakeup c s) = uart_tx_buf s" "uart_tx_r (wakeup c s) = uart_tx_r s"
  "uart_tx_w (wakeup c s) = uart_tx_w s" "uart_writes (wakeup c s) = uart_writes s"
  "tx_idle (wakeup c s) = tx_idle s" "lsr_reads (wakeup c s) = lsr_reads s" "panicked (wakeup c s) = panicked s"
  "rx_fifo (wakeup c s) = rx_fifo s"
  "uart_tx_buf (WriteReg r v s) = uart_tx_buf s" "uart_tx_r (WriteReg r v s) = uart_tx_r s"
  "uart_tx_w (WriteReg r v s) = uart_tx_w s" "tx_idle (WriteReg r v s) = tx_idle s"
  by (simp_all add: wakeup_def WriteReg_def)

lemma uart_sent_WriteReg [simp]:
  "uart_sent (WriteReg r v s) = uart_sent s @ (if r = THR then [v] else [])" "uart_sent (wakeup c s) = uart_sent s"
  by (simp_all add: uart_sent_def WriteReg_def)

lemma uartstart_loop_spec:
  assumes "uart_ok s" "k = unat (uart_tx_w s - uart_tx_r s)"
  shows "\<exists>qs. uart_sent (uartstart_loop k s) = uart_sent s @ qs \<and>
    uart_queue s = qs @ uart_queue (uartstart_loop k s) \<and> uart_ok (uartstart_loop k s) \<and>
    ((\<forall>n. tx_idle s n) \<longrightarrow> uart_queue (uartstart_loop k s) = [])"
  using assms
proof (induction k arbitrary: s)
  case 0
  then show ?case by (auto simp: uart_queue_def unat_eq_0)
next
  case (Suc k)
  let ?l = "s\<lparr>lsr_reads := lsr_reads s + 1\<rparr>"
  have sl: "uart_sent ?l = uart_sent s" "uart_queue ?l = uart_queue s" "uart_ok ?l = uart_ok s"
    by (simp_all add: uart_sent_def uart_queue_def uart_ok_def)
  show ?case
  proof (cases "tx_idle s (lsr_reads s)")
    case False
    then have "uartstart_loop (Suc k) s = ?l" by (simp add: ReadLSR_def)
    then show ?thesis using Suc.prems(1) sl False by auto
  next
    case True
    let ?c = "uart_tx_buf s ! (unat (uart_tx_r s) mod UART_TX_BUF_SIZE)"
    define t where "t = WriteReg THR ?c (wakeup (Some Ch_uart_tx_r) (?l\<lparr>uart_tx_r := uart_tx_r s + 1\<rparr>))"
    have ne: "uart_tx_w s \<noteq> uart_tx_r s" using Suc.prems(2) by auto
    note g = uart_ring.ring_get [where buf = "uart_tx_buf s" and w = "uart_tx_w s" and r = "uart_tx_r s"]
    have q: "uart_queue s = ?c # uart_queue t" and ok: "uart_ok t" and k: "k = unat (uart_tx_w t - uart_tx_r t)"
      using g ne Suc.prems by (simp_all add: uart_queue_def t_def uart_ok_def)
    have snt: "uart_sent t = uart_sent s @ [?c]" by (simp add: t_def) (simp add: uart_sent_def)
    have id: "tx_idle t = tx_idle s" by (simp add: t_def)
    have run: "uartstart_loop (Suc k) s = uartstart_loop k t" using True by (simp add: ReadLSR_def t_def Let_def)
    obtain qs where "uart_sent (uartstart_loop k t) = uart_sent t @ qs" "uart_queue t = qs @ uart_queue (uartstart_loop k t)"
      "uart_ok (uartstart_loop k t)" "(\<forall>n. tx_idle t n) \<longrightarrow> uart_queue (uartstart_loop k t) = []"
      using Suc.IH [OF ok k] by blast
    then show ?thesis unfolding run using q snt id by (intro exI [of _ "?c # qs"]) simp
  qed
qed

lemma uartstart_spec:
  assumes "uart_ok s"
  obtains qs where "uart_sent (uartstart s) = uart_sent s @ qs" "uart_queue s = qs @ uart_queue (uartstart s)"
    "uart_ok (uartstart s)" "(\<forall>n. tx_idle s n) \<Longrightarrow> uart_queue (uartstart s) = []"
  using uartstart_loop_spec [OF assms refl] unfolding uartstart_def by blast

lemma uartputc_spec:
  assumes "uartputc c s = Inr s'" "uart_ok s"
  obtains qs where "uart_sent s' = uart_sent s @ qs" "uart_queue s @ [c] = qs @ uart_queue s'" "uart_ok s'"
proof -
  define t where "t = s\<lparr>uart_tx_buf := (uart_tx_buf s)[unat (uart_tx_w s) mod UART_TX_BUF_SIZE := c],
                          uart_tx_w := uart_tx_w s + 1\<rparr>"
  have s': "s' = uartstart t" and nf: "uart_tx_w s \<noteq> uart_tx_r s + of_nat UART_TX_BUF_SIZE"
    using assms(1) by (auto simp: uartputc_def t_def split: if_splits)
  have "uart_tx_w s - uart_tx_r s \<noteq> of_nat UART_TX_BUF_SIZE" using nf by (auto simp: algebra_simps)
  then have "unat (uart_tx_w s - uart_tx_r s) \<noteq> UART_TX_BUF_SIZE" by (auto simp: UART_TX_BUF_SIZE_def word_unat_eq_iff)
  then have lt: "unat (uart_tx_w s - uart_tx_r s) < UART_TX_BUF_SIZE" using assms(2) by (simp add: uart_ok_def)
  have t: "uart_ok t" "uart_queue t = uart_queue s @ [c]" "uart_sent t = uart_sent s"
    using uart_ring.ring_put(1) [where buf = "uart_tx_buf s" and w = "uart_tx_w s" and r = "uart_tx_r s" and c = c]
      uart_ring.ring_put(2) [where buf = "uart_tx_buf s" and w = "uart_tx_w s" and r = "uart_tx_r s"] lt assms(2)
    by (simp_all add: t_def uart_ok_def uart_queue_def uart_sent_def)
  show ?thesis using uartstart_spec [OF t(1)] t(2,3) that unfolding s' by metis
qed

section \<open>Properties\<close>

text \<open>
  A run of the driver: \<open>ps\<close> are the bytes queued by \<open>uartputc\<close>, \<open>ys\<close> those sent by
  \<open>uartputc_sync\<close>, which bypasses the queue; \<open>uartstart\<close> runs at any interrupt, and in between
  anything may happen that leaves the driver's variables and the device alone.
\<close>

inductive uart_trace :: "'a ustate_scheme \<Rightarrow> byte list \<Rightarrow> byte list \<Rightarrow> 'a ustate_scheme \<Rightarrow> bool" for s where
  uart_begin: "uart_trace s [] [] s"
| uart_put: "uart_trace s ps ys t \<Longrightarrow> uartputc c t = Inr u \<Longrightarrow> uart_trace s (ps @ [c]) ys u"
| uart_sync: "uart_trace s ps ys t \<Longrightarrow> uartputc_sync c t = Inr u \<Longrightarrow> uart_trace s ps (ys @ [c]) u"
| uart_intr: "uart_trace s ps ys t \<Longrightarrow> uart_trace s ps ys (uartstart t)"
| uart_other: "uart_trace s ps ys t \<Longrightarrow> uart_tx_buf u = uart_tx_buf t \<Longrightarrow> uart_tx_r u = uart_tx_r t \<Longrightarrow>
    uart_tx_w u = uart_tx_w t \<Longrightarrow> uart_writes u = uart_writes t \<Longrightarrow> uart_trace s ps ys u"

lemma append_shuffles: "ys @ ws \<in> shuffles ws ys"
proof (induction ys)
  case (Cons y ys)
  then show ?case by (cases ws) auto
qed simp

lemma shuffles_snoc:
  "zs \<in> shuffles xs ys \<Longrightarrow> zs @ ws \<in> shuffles (xs @ ws) ys" "zs \<in> shuffles xs ys \<Longrightarrow> zs @ ws \<in> shuffles xs (ys @ ws)"
proof -
  show 1: "zs @ ws \<in> shuffles (xs @ ws) ys" if "zs \<in> shuffles xs ys" for zs xs ys
    using that
  proof (induction xs ys arbitrary: zs rule: shuffles.induct)
    case (1 ys)
    then show ?case using append_shuffles by simp
  next
    case (2 xs)
    then show ?case by simp
  next
    case (3 x xs y ys)
    then show ?case by auto
  qed
  show "zs @ ws \<in> shuffles xs (ys @ ws)" if "zs \<in> shuffles xs ys"
    using 1 [of zs ys xs] that by (simp add: shuffles_commutes)
qed


text \<open>C30: The transmit ring loses, repeats and reorders nothing: the bytes given to the device are an
  interleaving of the bytes sent directly, in order, and of a prefix of the queued bytes, in
  order, and the rest of the queued bytes is still in the ring. If the device is always ready,
  an interrupt leaves the ring empty.\<close>

theorem uart_ring_fifo:
  assumes "uart_trace s ps ys s'" "uart_ok s"
  shows "\<exists>zs qs. uart_sent s' = uart_sent s @ zs \<and> zs \<in> shuffles qs ys \<and>
    uart_queue s @ ps = qs @ uart_queue s' \<and> uart_ok s' \<and>
    ((\<forall>n. tx_idle s' n) \<longrightarrow> uart_queue (uartstart s') = [])"
proof -
  have "\<exists>zs qs. uart_sent s' = uart_sent s @ zs \<and> zs \<in> shuffles qs ys \<and>
    uart_queue s @ ps = qs @ uart_queue s' \<and> uart_ok s'"
    using assms
  proof (induction rule: uart_trace.induct)
    case uart_begin
    then show ?case by (intro exI [of _ "[]"]) simp
  next
    case (uart_put ps ys t c u)
    then obtain zs qs where i: "uart_sent t = uart_sent s @ zs" "zs \<in> shuffles qs ys" "uart_queue s @ ps = qs @ uart_queue t"
      "uart_ok t" by auto
    obtain ws where "uart_sent u = uart_sent t @ ws" "uart_queue t @ [c] = ws @ uart_queue u" "uart_ok u"
      using uartputc_spec [OF uart_put.hyps(2) i(4)] by blast
    moreover from this have "uart_queue s @ ps @ [c] = (qs @ ws) @ uart_queue u" using i(3) by (metis append.assoc)
    ultimately show ?case using i shuffles_snoc(1) [OF i(2), of ws]
      by (rule_tac exI [of _ "zs @ ws"], rule_tac exI [of _ "qs @ ws"]) simp
  next
    case (uart_sync ps ys t c u)
    then obtain zs qs where i: "uart_sent t = uart_sent s @ zs" "zs \<in> shuffles qs ys" "uart_queue s @ ps = qs @ uart_queue t"
      "uart_ok t" by auto
    obtain n where "u = WriteReg THR c (t\<lparr>lsr_reads := n + 1\<rparr>)"
      using uart_sync.hyps(2) by (auto simp: uartputc_sync_def split: if_splits option.splits)
    then have "uart_sent u = uart_sent t @ [c]" "uart_queue u = uart_queue t" "uart_ok u = uart_ok t"
      by (simp_all add: uart_sent_def uart_queue_def uart_ok_def WriteReg_def)
    with i show ?case using shuffles_snoc(2) [OF i(2), of "[c]"]
      by (rule_tac exI [of _ "zs @ [c]"], rule_tac exI [of _ "qs"]) simp
  next
    case (uart_intr ps ys t)
    then obtain zs qs where i: "uart_sent t = uart_sent s @ zs" "zs \<in> shuffles qs ys" "uart_queue s @ ps = qs @ uart_queue t"
      "uart_ok t" by auto
    obtain ws where "uart_sent (uartstart t) = uart_sent t @ ws" "uart_queue t = ws @ uart_queue (uartstart t)" "uart_ok (uartstart t)"
      using uartstart_spec [OF i(4)] by blast
    with i show ?case using shuffles_snoc(1) [OF i(2), of ws]
      by (rule_tac exI [of _ "zs @ ws"], rule_tac exI [of _ "qs @ ws"]) simp
  next
    case (uart_other ps ys t u)
    then show ?case by (auto simp: uart_sent_def uart_queue_def uart_ok_def)
  qed
  then show ?thesis using uartstart_spec [of s'] by metis
qed

theorem uart_ring_fifo_witness:
  "\<exists>u v zs qs. uartputc 65 (zero_ustate\<lparr>tx_idle := (\<lambda>n. n > 0)\<rparr>) = Inr u \<and> uartputc_sync 66 u = Inr v \<and>
     uart_sent (uartstart v) = zs \<and> zs \<in> shuffles qs [66] \<and> [65] = qs @ uart_queue (uartstart v)"
proof -
  define s where "s = zero_ustate\<lparr>tx_idle := (\<lambda>n. n > 0)\<rparr>"
  have s: "uart_ok s" "uart_queue s = []" "uart_sent s = []" "panicked s = False" "tx_idle s = (\<lambda>n. n > 0)"
    "uart_tx_r s = 0" "uart_tx_w s = 0" "lsr_reads s = 0"
    by (simp_all add: s_def uart_ok_def uart_queue_def uart_sent_def zero_ustate_def zero_pstate_def pstate.defs ustate.defs)
  define u where "u = s\<lparr>uart_tx_buf := (uart_tx_buf s)[0 := 65], uart_tx_w := 1, lsr_reads := 1\<rparr>"
  have u: "uartputc 65 s = Inr u" using s
    by (simp add: uartputc_def UART_TX_BUF_SIZE_def uartstart_def ReadLSR_def u_def)
  define v where "v = WriteReg THR 66 (u\<lparr>lsr_reads := Suc (Suc 0)\<rparr>)"
  have v: "uartputc_sync 66 u = Inr v"
    using s wait_idle.simps [of "\<lambda>n. n > 0" 1] by (simp add: uartputc_sync_def u_def v_def)
  have t: "uart_trace s ([] @ [65]) ([] @ [66]) (uartstart v)"
    by (intro uart_intr uart_sync [OF _ v] uart_put [OF _ u] uart_begin)
  show ?thesis using uart_ring_fifo [OF t s(1)] u v s unfolding s_def by auto
qed

end
