(* ===== verification/Printf.thy ===== *)
theory Printf
  imports Uart
begin

text \<open>
  \<open>kernel/printf.c\<close> and \<open>consputc\<close>: formatted output on the console. The variable arguments
  are a list; reading past it, or as the wrong kind, is undefined.
\<close>

datatype cons_char = Ch byte | BACKSPACE

definition consputc :: "cons_char \<Rightarrow> 'a ustate_scheme \<Rightarrow> 'a ustate_scheme res" where
  "consputc c s =
     (case c of
        BACKSPACE \<Rightarrow> kfor uartputc_sync [8, 32, 8] s
      | Ch b \<Rightarrow> uartputc_sync b s)"

definition consputs :: "byte list \<Rightarrow> 'a ustate_scheme \<Rightarrow> 'a ustate_scheme res" where
  "consputs bs s = kfor (\<lambda>b. consputc (Ch b)) bs s"

text \<open>ASCII codes of a string literal.\<close>

definition ascii :: "string \<Rightarrow> byte list" where
  "ascii str = map of_char str"

definition digits :: "byte list" where
  "digits = [48, 49, 50, 51, 52, 53, 54, 55, 56, 57, 97, 98, 99, 100, 101, 102]"

text \<open>
  The digit loop of \<open>printint\<close>: \<open>buf\<close> in the order it is filled, least digit first. The
  callers pass 10 or 16; the loop would not end for a base below 2.
\<close>

function digit_loop :: "nat \<Rightarrow> nat \<Rightarrow> byte list" where
  "digit_loop base x =
     digits ! (x mod base) # (if x div base \<noteq> 0 \<and> 1 < base then digit_loop base (x div base) else [])"
  by pat_completeness auto
termination
  by (relation "measure snd") (auto simp: div_greater_zero_iff intro!: div_less_dividend)

declare digit_loop.simps [simp del]

definition printint_buf :: "u32 \<Rightarrow> nat \<Rightarrow> bool \<Rightarrow> byte list" where
  "printint_buf xx base sign =
     (let sign = (sign \<and> sint xx < 0);
          x = (if sign then - xx else xx)
      in digit_loop base (unat x) @ (if sign then [45] else []))"

definition printint :: "u32 \<Rightarrow> nat \<Rightarrow> bool \<Rightarrow> 'a ustate_scheme \<Rightarrow> 'a ustate_scheme res" where
  "printint xx base sign s = consputs (rev (printint_buf xx base sign)) s"

fun ptr_loop :: "nat \<Rightarrow> u64 \<Rightarrow> byte list" where
  "ptr_loop 0 x = []"
| "ptr_loop (Suc n) x = digits ! unat (drop_bit 60 x) # ptr_loop n (push_bit 4 x)"

definition printptr :: "u64 \<Rightarrow> 'a ustate_scheme \<Rightarrow> 'a ustate_scheme res" where
  "printptr x s = consputs ([48, 120] @ ptr_loop 16 x) s"

datatype arg = AInt u32 | APtr u64 | AStr "byte list option"

fun printf_loop :: "byte list \<Rightarrow> arg list \<Rightarrow> 'a ustate_scheme \<Rightarrow> 'a ustate_scheme res" where
  "printf_loop [] vs s = Inr s"
| "printf_loop [c] vs s = (if c \<noteq> 37 then consputc (Ch c) s else Inr s)"
| "printf_loop (c # d # fmt) vs s =
     (if c \<noteq> 37 then kbind (consputc (Ch c) s) (printf_loop (d # fmt) vs)
      else if d = 100 then
        (case vs of AInt x # vs \<Rightarrow> kbind (printint x 10 True s) (printf_loop fmt vs) | _ \<Rightarrow> Inl Undef)
      else if d = 120 then
        (case vs of AInt x # vs \<Rightarrow> kbind (printint x 16 True s) (printf_loop fmt vs) | _ \<Rightarrow> Inl Undef)
      else if d = 112 then
        (case vs of APtr x # vs \<Rightarrow> kbind (printptr x s) (printf_loop fmt vs) | _ \<Rightarrow> Inl Undef)
      else if d = 115 then
        (case vs of AStr p # vs \<Rightarrow>
           kbind (consputs (case p of None \<Rightarrow> ascii ''(null)'' | Some bs \<Rightarrow> bs) s) (printf_loop fmt vs)
         | _ \<Rightarrow> Inl Undef)
      else if d = 37 then kbind (consputc (Ch 37) s) (printf_loop fmt vs)
      else kbind (consputs [37, d] s) (printf_loop fmt vs))"

definition printf :: "byte list option \<Rightarrow> arg list \<Rightarrow> 'a ustate_scheme \<Rightarrow> 'a ustate_scheme res" where
  "printf fmt vs s =
     (case fmt of None \<Rightarrow> Inl (Panic ''null fmt'') | Some f \<Rightarrow> printf_loop f vs s)"

text \<open>
  \<open>panic\<close> prints its message, freezes the UART and loops: the state it leaves the machine
  in. The other functions report a panic as the outcome \<open>Panic\<close>.
\<close>

definition panic :: "byte list \<Rightarrow> 'a ustate_scheme \<Rightarrow> 'a ustate_scheme res" where
  "panic msg s =
     kbind (printf (Some (ascii ''panic: '')) [] s) (\<lambda>s.
     kbind (printf (Some msg) [] s) (\<lambda>s.
     kbind (printf (Some [10]) [] s) (\<lambda>s.
     Inr (s\<lparr>panicked := True\<rparr>))))"

section \<open>Process listing (proc.c)\<close>

definition state_name :: "procstate \<Rightarrow> string" where
  "state_name st = (case st of UNUSED \<Rightarrow> ''unused'' | SLEEPING \<Rightarrow> ''sleep '' | RUNNABLE \<Rightarrow> ''runble''
     | RUNNING \<Rightarrow> ''run   '' | ZOMBIE \<Rightarrow> ''zombie'' | USED \<Rightarrow> ''???'')"

definition procdump :: "'a ustate_scheme \<Rightarrow> 'a ustate_scheme res" where
  "procdump s =
     kbind (printf (Some [10]) [] s) (\<lambda>s.
     kfor (\<lambda>p s. if pst p = UNUSED then Inr s
         else kbind (printf (Some (ascii ''%d %s %s''))
                [AInt (pid p), AStr (Some (ascii (state_name (pst p)))), AStr (Some (cstr 16 (pname p)))] s) (\<lambda>s.
              printf (Some [10]) [] s)) (procs s) s)"

section \<open>Output reaches the device\<close>

text \<open>The transmitter becomes idle again and again.\<close>

definition tx_live :: "'a ustate_scheme \<Rightarrow> bool" where
  "tx_live s \<longleftrightarrow> (\<forall>n. \<exists>m\<ge>n. tx_idle s m)"

lemma wait_idle_some: "f m \<Longrightarrow> n \<le> m \<Longrightarrow> \<exists>k. wait_idle f n = Some k"
proof (induction "m - n" arbitrary: n)
  case 0
  then show ?case using wait_idle.simps [of f n] by auto
next
  case (Suc d)
  then have "\<exists>k. wait_idle f (Suc n) = Some k" by simp
  then show ?case using wait_idle.simps [of f n] by auto
qed

text \<open>What sending the bytes \<open>bs\<close> leaves.\<close>

definition sent_bytes :: "byte list \<Rightarrow> 'a ustate_scheme \<Rightarrow> 'a ustate_scheme \<Rightarrow> bool" where
  "sent_bytes bs s s' \<longleftrightarrow> uart_sent s' = uart_sent s @ bs \<and> uart_queue s' = uart_queue s \<and>
     tx_idle s' = tx_idle s \<and> panicked s' = panicked s \<and>
     s' = s\<lparr>lsr_reads := lsr_reads s', uart_writes := uart_writes s'\<rparr>"

lemma uartputc_sync_sends:
  assumes "\<not> panicked s" "tx_live s"
  shows "\<exists>s'. uartputc_sync c s = Inr s' \<and> sent_bytes [c] s s'"
proof -
  obtain m where "m \<ge> lsr_reads s" "tx_idle s m" using assms(2) by (auto simp: tx_live_def)
  then obtain k where k: "wait_idle (tx_idle s) (lsr_reads s) = Some k" using wait_idle_some by blast
  show ?thesis using assms(1) k
    by (auto simp: uartputc_sync_def sent_bytes_def uart_sent_def uart_queue_def WriteReg_def)
qed

lemma sent_bytes_trans: "sent_bytes as s t \<Longrightarrow> sent_bytes bs t u \<Longrightarrow> sent_bytes (as @ bs) s u"
proof -
  assume a: "sent_bytes as s t" and b: "sent_bytes bs t u"
  have t: "t = s\<lparr>lsr_reads := lsr_reads t, uart_writes := uart_writes t\<rparr>" using a by (simp add: sent_bytes_def)
  have "u = t\<lparr>lsr_reads := lsr_reads u, uart_writes := uart_writes u\<rparr>" using b by (simp add: sent_bytes_def)
  also have "\<dots> = s\<lparr>lsr_reads := lsr_reads u, uart_writes := uart_writes u\<rparr>" by (subst t) simp
  finally show ?thesis using a b by (simp add: sent_bytes_def)
qed

lemma consputs_sends:
  "\<not> panicked s \<Longrightarrow> tx_live s \<Longrightarrow> \<exists>s'. consputs bs s = Inr s' \<and> sent_bytes bs s s'"
proof (induction bs arbitrary: s)
  case Nil
  then show ?case by (simp add: consputs_def sent_bytes_def)
next
  case (Cons b bs)
  obtain t where t: "uartputc_sync b s = Inr t" "sent_bytes [b] s t" using uartputc_sync_sends [OF Cons.prems] by blast
  have "\<not> panicked t" "tx_live t" using t(2) Cons.prems by (simp_all add: sent_bytes_def tx_live_def)
  then obtain s' where "consputs bs t = Inr s'" "sent_bytes bs t s'" using Cons.IH by blast
  then show ?case using t sent_bytes_trans [OF t(2)] by (auto simp: consputs_def consputc_def)
qed

section \<open>Numbers\<close>

text \<open>Reading a number back: digits most significant first, with an optional minus sign.\<close>

definition digit_val :: "byte \<Rightarrow> nat" where
  "digit_val b = (if b \<le> 57 then unat b - 48 else unat b - 87)"

fun read_digits :: "nat \<Rightarrow> nat \<Rightarrow> byte list \<Rightarrow> nat" where
  "read_digits base acc [] = acc"
| "read_digits base acc (b # bs) = read_digits base (acc * base + digit_val b) bs"

definition read_num :: "nat \<Rightarrow> byte list \<Rightarrow> int" where
  "read_num base bs = (case bs of b # bs' \<Rightarrow>
     if b = 45 then - int (read_digits base 0 bs') else int (read_digits base 0 bs) | [] \<Rightarrow> 0)"

lemma digit_val_digits: "d < 16 \<Longrightarrow> digit_val (digits ! d) = d" "d < 16 \<Longrightarrow> digits ! d \<noteq> 45"
proof -
  have "\<forall>d\<in>set [0..<16]. digit_val (digits ! d) = d \<and> digits ! d \<noteq> 45" by code_simp
  then show "d < 16 \<Longrightarrow> digit_val (digits ! d) = d" "d < 16 \<Longrightarrow> digits ! d \<noteq> 45" by simp_all
qed

lemma read_digits_append: "read_digits base acc (xs @ ys) = read_digits base (read_digits base acc xs) ys"
  by (induction xs arbitrary: acc) auto

lemma digit_loop_spec:
  assumes "1 < base" "base \<le> 16"
  shows "read_digits base 0 (rev (digit_loop base x)) = x \<and> 45 \<notin> set (digit_loop base x)"
proof (induction x rule: less_induct)
  case (less x)
  have m: "x mod base < 16" using assms mod_less_divisor [of base x] by linarith
  show ?case
  proof (cases "x div base = 0")
    case True
    then have "x mod base = x" using assms(1) by (simp add: div_eq_0_iff)
    then show ?thesis using True digit_val_digits(1) [OF m] digit_val_digits(2) [OF m, symmetric] by (simp add: digit_loop.simps [of base x])
  next
    case False
    then have "x div base < x" using assms(1) by (intro div_less_dividend) (auto intro: Nat.gr0I)
    then have "read_digits base 0 (rev (digit_loop base (x div base))) = x div base \<and>
        45 \<notin> set (digit_loop base (x div base))" by (rule less.IH)
    then show ?thesis
      using False assms(1) digit_val_digits [OF m] by (auto simp: digit_loop.simps [of base x] read_digits_append)
  qed
qed

lemma digit_loop_length: "1 < base \<Longrightarrow> x < base ^ Suc n \<Longrightarrow> length (digit_loop base x) \<le> Suc n"
proof (induction n arbitrary: x)
  case 0
  then show ?case by (simp add: digit_loop.simps [of base x] div_eq_0_iff)
next
  case (Suc n)
  have "x div base < base ^ Suc n"
    using Suc.prems by (simp add: less_mult_imp_div_less mult.commute)
  then show ?case using Suc.IH [of "x div base"] Suc.prems(1) by (simp add: digit_loop.simps [of base x])
qed

lemma digit_loop_nonempty: "digit_loop base x \<noteq> []"
  by (simp add: digit_loop.simps [of base x])

lemma neg_value: "sint (x :: u32) < 0 \<Longrightarrow> int (unat (- x)) = - sint x"
proof -
  assume n: "sint x < 0"
  have "- x = word_of_int (- sint x)" by simp
  then have "uint (- x) = uint (word_of_int (- sint x) :: u32)" by (rule arg_cong)
  also have "\<dots> = take_bit 32 (- sint x)" by (simp add: unsigned_of_int del: of_int_minus)
  also have "\<dots> = - sint x"
    using n sint_ge [of x] by (subst take_bit_int_eq_self) simp_all
  finally show ?thesis by simp
qed

lemma pos_value: "0 \<le> sint (x :: u32) \<Longrightarrow> int (unat x) = sint x"
proof -
  assume n: "0 \<le> sint x"
  have "x = word_of_int (sint x)" by simp
  then have "uint x = uint (word_of_int (sint x) :: u32)" by (rule arg_cong)
  also have "\<dots> = take_bit 32 (sint x)" by (simp only: unsigned_of_int) simp
  also have "\<dots> = sint x" using n sint_lt [of x] by (subst take_bit_int_eq_self) simp_all
  finally show ?thesis by simp
qed

text \<open>C31: A number printed with \<open>%d\<close> or \<open>%x\<close> (bases 10 and 16) reads back as the number, the most
  negative one included; its characters fit the 16-byte buffer, reach the device in order
  after everything sent before, and the wait for the device ends if it becomes idle again and
  again.\<close>

theorem printint_reads_back:
  assumes "base = 10 \<or> base = 16" "\<not> panicked s" "tx_live s"
  shows "\<exists>s' bs. printint xx base True s = Inr s' \<and> uart_sent s' = uart_sent s @ bs \<and>
    length bs \<le> 16 \<and> read_num base bs = sint xx"
proof -
  let ?n = "sint xx < 0"
  let ?x = "unat (if ?n then - xx else xx)"
  let ?ds = "rev (digit_loop base ?x)"
  have b: "1 < base" "base \<le> 16" using assms(1) by auto
  have x: "?x < base ^ Suc 9"
  proof -
    have "?x < 2 ^ 32" using unsigned_less [of "if ?n then - xx else xx", where ?'a = nat] by simp
    then show ?thesis using assms(1) by auto
  qed
  have len: "length ?ds \<le> 10" using digit_loop_length [OF b(1) x] by simp
  have val: "read_digits base 0 ?ds = ?x" "45 \<notin> set ?ds" using digit_loop_spec [OF b, of ?x] by simp_all
  obtain d ds where d: "?ds = d # ds" using digit_loop_nonempty by (metis list.exhaust rev_is_Nil_conv)
  have buf: "rev (printint_buf xx base True) = (if ?n then [45] else []) @ ?ds"
    by (simp add: printint_buf_def Let_def)
  have "read_num base (rev (printint_buf xx base True)) = sint xx"
  proof (cases ?n)
    case True
    then show ?thesis using val neg_value [OF True] unfolding buf by (simp add: read_num_def)
  next
    case False
    then have "int (unat xx) = sint xx" using pos_value by simp
    then show ?thesis using val False unfolding buf d by (auto simp: read_num_def)
  qed
  moreover obtain s' where "printint xx base True s = Inr s'" "sent_bytes (rev (printint_buf xx base True)) s s'"
    using consputs_sends [OF assms(2,3)] unfolding printint_def by blast
  moreover have "length (rev (printint_buf xx base True)) \<le> 16" unfolding buf using len by (simp split: if_splits)
  ultimately show ?thesis unfolding sent_bytes_def by blast
qed

theorem printint_reads_back_witness:
  "\<exists>s' bs. printint (- 2147483648) 10 True zero_ustate = Inr s' \<and> uart_sent s' = uart_sent zero_ustate @ bs \<and>
     length bs \<le> 16 \<and> read_num 10 bs = - 2147483648"
proof -
  have "\<not> panicked zero_ustate" "tx_live zero_ustate"
    by (auto simp: zero_ustate_def zero_pstate_def pstate.defs ustate.defs tx_live_def)
  from printint_reads_back [OF _ this, of 10 "- 2147483648"] show ?thesis by simp
qed

end
