(* ===== verification/Console.thy ===== *)
theory Console
  imports Printf Ring
begin

text \<open>
  \<open>kernel/console.c\<close> and the interrupt half of \<open>kernel/uart.c\<close>: the input line discipline and
  the console device. \<open>cr\<close>, \<open>cw\<close> and \<open>ce\<close> are the read, write and edit indices, which count
  modulo \<open>2 ^ 32\<close> and are reduced modulo \<open>INPUT_BUF\<close> on access.
\<close>

definition INPUT_BUF :: nat where "INPUT_BUF = 128"
definition CONSOLE :: nat where "CONSOLE = 1"

text \<open>The entries of \<open>devsw\<close>: the pair of functions a driver installs.\<close>

datatype device = Console_dev

record cstate = ustate +
  cbuf :: "byte list"
  devsw :: "device option list"
  cr :: u32
  cw :: u32
  ce :: u32

definition zero_cstate :: cstate where
  "zero_cstate = ustate.extend zero_ustate (cstate.fields (replicate INPUT_BUF 0) (replicate 10 None) 0 0 0)"

definition cslot :: "u32 \<Rightarrow> nat" where
  "cslot i = unat i mod INPUT_BUF"

text \<open>
  The loops of \<open>consoleread\<close> and \<open>consolewrite\<close> up to their return (\<open>Some r\<close>), or up to the
  point where they sleep (\<open>None\<close>) with the loop variables they resume with.
\<close>

function consoleread_run ::
  "bool \<Rightarrow> u64 \<Rightarrow> nat \<Rightarrow> nat \<Rightarrow> 'a cstate_scheme \<Rightarrow>
     ((int option \<times> u64 \<times> nat) \<times> 'a cstate_scheme) res" where
  "consoleread_run user_dst dst n target s =
     (if 0 < n then
        if cr s = cw s then
          if killed (procs s ! myproc s) then Inr ((Some (- 1), dst, n), s)
          else Inr ((None, dst, n), s)
        else
          let c = cbuf s ! cslot (cr s); s = s\<lparr>cr := cr s + 1\<rparr> in
          if c = 4 then
            Inr ((Some (int target - int n), dst, n), if n < target then s\<lparr>cr := cr s - 1\<rparr> else s)
          else kbind (either_copyout user_dst dst [c] s) (\<lambda>(r, s).
            if r = - 1 then Inr ((Some (int target - int n), dst, n), s)
            else if c = 10 then Inr ((Some (int target - int (n - 1)), dst + 1, n - 1), s)
            else consoleread_run user_dst (dst + 1) (n - 1) target s)
      else Inr ((Some (int target - int n), dst, n), s))"
  by pat_completeness auto
termination
  by (relation "measure (\<lambda>(u, dst, n, target, s). n)") auto

declare consoleread_run.simps [simp del]

definition consoleread :: "bool \<Rightarrow> u64 \<Rightarrow> int \<Rightarrow> 'a cstate_scheme \<Rightarrow> (int \<times> 'a cstate_scheme) res" where
  "consoleread user_dst dst n s =
     kbind (consoleread_run user_dst dst (nat n) (nat n) s) (\<lambda>((r, _, _), s).
       case r of Some r \<Rightarrow> Inr (r, s) | None \<Rightarrow> Inl (Sleep Ch_cons_r))"

function consolewrite_run ::
  "bool \<Rightarrow> u64 \<Rightarrow> nat \<Rightarrow> nat \<Rightarrow> 'a cstate_scheme \<Rightarrow> ((int option \<times> nat) \<times> 'a cstate_scheme) res" where
  "consolewrite_run user_src src i n s =
     (if i < n then
        kbind (either_copyin user_src (src + of_nat i) 1 s) (\<lambda>(r, bs).
          if r = - 1 then Inr ((Some (int i), i), s)
          else case uartputc (hd bs) s of
            Inl (Sleep c) \<Rightarrow> Inr ((None, i), s)
          | Inl e \<Rightarrow> Inl e
          | Inr s \<Rightarrow> consolewrite_run user_src src (i + 1) n s)
      else Inr ((Some (int i), i), s))"
  by pat_completeness auto
termination
  by (relation "measure (\<lambda>(u, src, i, n, s). n - i)") auto

declare consolewrite_run.simps [simp del]

definition consolewrite :: "bool \<Rightarrow> u64 \<Rightarrow> int \<Rightarrow> 'a cstate_scheme \<Rightarrow> (int \<times> 'a cstate_scheme) res" where
  "consolewrite user_src src n s =
     kbind (consolewrite_run user_src src 0 (nat n) s) (\<lambda>((r, _), s).
       case r of Some r \<Rightarrow> Inr (r, s) | None \<Rightarrow> Inl (Sleep Ch_uart_tx_r))"

section \<open>Input interrupt\<close>

text \<open>The erase loop of control-U, over the number \<open>k\<close> of bytes between \<open>cw\<close> and \<open>ce\<close>.\<close>

fun kill_line :: "nat \<Rightarrow> 'a cstate_scheme \<Rightarrow> 'a cstate_scheme res" where
  "kill_line 0 s = Inr s"
| "kill_line (Suc k) s =
     (if cbuf s ! cslot (ce s - 1) \<noteq> 10 then
        kbind (consputc BACKSPACE (s\<lparr>ce := ce s - 1\<rparr>)) (kill_line k)
      else Inr s)"

definition consoleintr :: "byte \<Rightarrow> 'a cstate_scheme \<Rightarrow> 'a cstate_scheme res" where
  "consoleintr c s =
     (if c = 16 then procdump s
      else if c = 21 then kill_line (unat (ce s - cw s)) s
      else if c = 8 \<or> c = 127 then
        if ce s \<noteq> cw s then consputc BACKSPACE (s\<lparr>ce := ce s - 1\<rparr>) else Inr s
      else if c \<noteq> 0 \<and> ce s - cr s < of_nat INPUT_BUF then
        let c = (if c = 13 then 10 else c) in
        kbind (consputc (Ch c) s) (\<lambda>s.
        let s = s\<lparr>cbuf := (cbuf s)[cslot (ce s) := c], ce := ce s + 1\<rparr> in
        Inr (if c = 10 \<or> c = 4 \<or> ce s = cr s + of_nat INPUT_BUF
             then wakeup (Some Ch_cons_r) (s\<lparr>cw := ce s\<rparr>) else s))
      else Inr s)"

text \<open>
  \<open>uartintr\<close> reads input until the receiver is empty; \<open>fuel\<close> bounds the number of reads, and
  the bytes waiting plus one are enough.
\<close>

fun uartintr_drain :: "nat \<Rightarrow> 'a cstate_scheme \<Rightarrow> 'a cstate_scheme res" where
  "uartintr_drain 0 s = Inl Diverge"
| "uartintr_drain (Suc fuel) s =
     (case uartgetc s of (c, s) \<Rightarrow>
        if c = - 1 then Inr s
        else kbind (consoleintr (of_int c) s) (uartintr_drain fuel))"

definition uartintr :: "'a cstate_scheme \<Rightarrow> 'a cstate_scheme res" where
  "uartintr s = kbind (uartintr_drain (Suc (length (rx_fifo s))) s) (\<lambda>s. Inr (uartstart s))"

definition consoleinit :: "'a cstate_scheme \<Rightarrow> 'a cstate_scheme" where
  "consoleinit s = (let s = uartinit s in s\<lparr>devsw := (devsw s)[CONSOLE := Some Console_dev]\<rparr>)"

section \<open>Printing succeeds\<close>

text \<open>The arguments fit the format.\<close>

fun fmt_ok :: "byte list \<Rightarrow> arg list \<Rightarrow> bool" where
  "fmt_ok [] vs \<longleftrightarrow> True"
| "fmt_ok [c] vs \<longleftrightarrow> True"
| "fmt_ok (c # d # fmt) vs \<longleftrightarrow>
     (if c \<noteq> 37 then fmt_ok (d # fmt) vs
      else if d = 100 \<or> d = 120 then (case vs of AInt x # vs \<Rightarrow> fmt_ok fmt vs | _ \<Rightarrow> False)
      else if d = 112 then (case vs of APtr x # vs \<Rightarrow> fmt_ok fmt vs | _ \<Rightarrow> False)
      else if d = 115 then (case vs of AStr x # vs \<Rightarrow> fmt_ok fmt vs | _ \<Rightarrow> False)
      else fmt_ok fmt vs)"

text \<open>Something is sent, and nothing else changes.\<close>

definition prints :: "'a ustate_scheme \<Rightarrow> 'a ustate_scheme res \<Rightarrow> bool" where
  "prints s r \<longleftrightarrow> (\<exists>s' bs. r = Inr s' \<and> sent_bytes bs s s')"

lemma prints_refl [simp]: "prints s (Inr s)"
  by (auto simp: prints_def sent_bytes_def)

lemma sent_bytes_live: "sent_bytes bs s t \<Longrightarrow> \<not> panicked s \<Longrightarrow> tx_live s \<Longrightarrow> \<not> panicked t \<and> tx_live t"
  by (simp add: sent_bytes_def tx_live_def)

lemma prints_bind:
  assumes "prints s r" "\<not> panicked s" "tx_live s" "\<And>t. \<not> panicked t \<Longrightarrow> tx_live t \<Longrightarrow> prints t (f t)"
  shows "prints s (kbind r f)"
proof -
  obtain t bs where t: "r = Inr t" "sent_bytes bs s t" using assms(1) by (auto simp: prints_def)
  then have "prints t (f t)" using sent_bytes_live assms by blast
  then show ?thesis using t by (auto simp: prints_def intro: sent_bytes_trans)
qed

lemma prints_consputs: "\<not> panicked s \<Longrightarrow> tx_live s \<Longrightarrow> prints s (consputs bs s)"
  using consputs_sends [of s bs] by (auto simp: prints_def)

lemma consputc_consputs: "consputc (Ch c) s = consputs [c] s"
  by (cases "uartputc_sync c s") (simp_all add: consputs_def consputc_def)

lemma printf_loop_prints:
  "\<not> panicked (s :: 'a ustate_scheme) \<Longrightarrow> tx_live s \<Longrightarrow> fmt_ok fmt vs \<Longrightarrow> prints s (printf_loop fmt vs s)"
proof (induction fmt vs arbitrary: s rule: fmt_ok.induct)
  case (1 vs)
  then show ?case by simp
next
  case (2 c vs)
  then show ?case using prints_consputs [of s "[c]"] by (simp add: consputc_consputs)
next
  case (3 c d fmt vs)
  have step: "prints s (kbind (consputs bs s) (printf_loop f as))"
    if "\<And>t :: 'a ustate_scheme. \<not> panicked t \<Longrightarrow> tx_live t \<Longrightarrow> prints t (printf_loop f as t)" for bs f as
    by (intro prints_bind prints_consputs "3.prems"(1,2) that)
  show ?case
    using "3.IH" "3.prems"(3)
    by (auto simp: consputc_consputs printint_def printptr_def split: list.splits arg.splits if_splits intro!: step)
qed

lemma prints_kfor:
  assumes "\<And>x t. x \<in> set xs \<Longrightarrow> \<not> panicked t \<Longrightarrow> tx_live t \<Longrightarrow> prints t (f x t)" "\<not> panicked s" "tx_live s"
  shows "prints s (kfor f xs s)"
  using assms
proof (induction xs arbitrary: s)
  case (Cons x xs)
  show ?case
    unfolding kfor.simps
    using Cons.prems by (intro prints_bind Cons.IH) auto
qed simp

lemma prints_procdump: "\<not> panicked s \<Longrightarrow> tx_live s \<Longrightarrow> prints s (procdump s)"
proof -
  assume a: "\<not> panicked s" "tx_live s"
  have nl: "prints t (printf (Some [10]) [] t)" if "\<not> panicked t" "tx_live t" for t :: "'a ustate_scheme"
    using printf_loop_prints [OF that, of "[10]" "[]"] by (simp add: printf_def)
  have fmt: "ascii ''%d %s %s'' = [37, 100, 32, 37, 115, 32, 37, 115]" by (simp add: ascii_def)
  have line: "prints t (printf (Some (ascii ''%d %s %s'')) [AInt x, AStr y, AStr z] t)"
    if "\<not> panicked t" "tx_live t" for t :: "'a ustate_scheme" and x y z
    using printf_loop_prints [OF that, of "[37, 100, 32, 37, 115, 32, 37, 115]" "[AInt x, AStr y, AStr z]"]
    by (simp add: printf_def fmt)
  show ?thesis
    unfolding procdump_def
    by (intro prints_bind prints_kfor nl a) (auto intro!: prints_bind nl line)
qed

section \<open>The line discipline\<close>

interpretation cons_ring: ring_size INPUT_BUF "TYPE(32)"
  by unfold_locales (simp_all add: INPUT_BUF_def)

text \<open>The committed input, and the line still being edited.\<close>

definition cons_ready :: "'a cstate_scheme \<Rightarrow> byte list" where
  "cons_ready s = ring (cbuf s) (cr s) (cw s)"

definition cons_edit :: "'a cstate_scheme \<Rightarrow> byte list" where
  "cons_edit s = ring (cbuf s) (cw s) (ce s)"

definition cons_ok :: "'a cstate_scheme \<Rightarrow> bool" where
  "cons_ok s \<longleftrightarrow> length (cbuf s) = INPUT_BUF \<and> unat (ce s - cr s) = unat (cw s - cr s) + unat (ce s - cw s) \<and>
     unat (ce s - cr s) \<le> INPUT_BUF \<and> 10 \<notin> set (cons_edit s)"

text \<open>The specification: what a key does to the committed input and the edited line.\<close>

definition tty_key :: "byte \<Rightarrow> byte list \<times> byte list \<Rightarrow> byte list \<times> byte list" where
  "tty_key c = (\<lambda>(rdy, ed).
     if c = 16 then (rdy, ed)
     else if c = 21 then (rdy, [])
     else if c = 8 \<or> c = 127 then (rdy, butlast ed)
     else if c \<noteq> 0 \<and> length rdy + length ed < INPUT_BUF then
       let c = (if c = 13 then 10 else c) in
       if c = 10 \<or> c = 4 \<or> length rdy + length ed + 1 = INPUT_BUF then (rdy @ ed @ [c], [])
       else (rdy, ed @ [c])
     else (rdy, ed))"

lemma cons_split:
  assumes "unat (e - r) = unat (w - r) + unat (e - w)" "length buf = INPUT_BUF"
  shows "ring buf r (e :: u32) = ring buf r w @ ring buf w e"
proof (rule nth_equalityI)
  fix k
  assume "k < length (ring buf r e)"
  then have k: "k < unat (w - r) + unat (e - w)" using assms(1) by simp
  show "ring buf r e ! k = (ring buf r w @ ring buf w e) ! k"
  proof (cases "k < unat (w - r)")
    case True
    then show ?thesis using k assms(1) by (simp add: ring_def nth_append)
  next
    case False
    then obtain d where d: "k = unat (w - r) + d" by (metis le_add_diff_inverse not_less)
    have "(unat r + k) mod INPUT_BUF = (unat w + d) mod INPUT_BUF"
      using slot_of [OF cons_ring.dvd, of w r] mod_add_left_eq [of "unat w" INPUT_BUF d]
        mod_add_left_eq [of "unat r + unat (w - r)" INPUT_BUF d] by (simp add: d add.assoc)
    then show ?thesis using k d assms by (simp add: ring_def nth_append)
  qed
qed (simp add: assms)

lemma sent_bytes_cons:
  assumes "sent_bytes bs (s :: 'a cstate_scheme) s'"
  shows "cbuf s' = cbuf s" "cr s' = cr s" "cw s' = cw s" "ce s' = ce s" "procs s' = procs s" "cur s' = cur s"
    "panicked s' = panicked s" "tx_live s' = tx_live s" "rx_fifo s' = rx_fifo s"
proof -
  have e: "s' = s\<lparr>lsr_reads := lsr_reads s', uart_writes := uart_writes s'\<rparr>" using assms by (simp add: sent_bytes_def)
  show "cbuf s' = cbuf s" "cr s' = cr s" "cw s' = cw s" "ce s' = ce s" "procs s' = procs s" "cur s' = cur s" "rx_fifo s' = rx_fifo s"
    by (subst e, simp)+
  show "panicked s' = panicked s" "tx_live s' = tx_live s" using assms by (simp_all add: sent_bytes_def tx_live_def)
qed

lemma consputc_sends:
  assumes "\<not> panicked (s :: 'a ustate_scheme)" "tx_live s"
  obtains s' bs where "consputc c s = Inr s'" "sent_bytes bs s s'"
proof (cases c)
  case (Ch b)
  then show ?thesis using consputs_sends [OF assms, of "[b]"] that by (auto simp: consputc_consputs)
next
  case BACKSPACE
  have "(\<lambda>b. consputc (Ch b)) = (uartputc_sync :: byte \<Rightarrow> 'a ustate_scheme \<Rightarrow> _)" by (intro ext) (simp add: consputc_def)
  then have "consputc BACKSPACE s = consputs [8, 32, 8] s" by (simp add: consputc_def consputs_def)
  then show ?thesis using consputs_sends [OF assms, of "[8, 32, 8]"] that BACKSPACE by auto
qed

text \<open>Only the edit index changes.\<close>

definition edit_only :: "'a cstate_scheme \<Rightarrow> 'a cstate_scheme \<Rightarrow> bool" where
  "edit_only s s' \<longleftrightarrow> cbuf s' = cbuf s \<and> cr s' = cr s \<and> cw s' = cw s \<and> procs s' = procs s \<and> cur s' = cur s \<and>
     panicked s' = panicked s \<and> tx_live s' = tx_live s \<and> rx_fifo s' = rx_fifo s"

lemma backspace_sends:
  assumes "\<not> panicked s" "tx_live s"
  obtains s' where "consputc BACKSPACE (s\<lparr>ce := ce s - 1\<rparr>) = Inr s'" "edit_only s s'" "ce s' = ce s - 1"
proof -
  let ?t = "s\<lparr>ce := ce s - 1\<rparr>"
  have t: "\<not> panicked ?t" "tx_live ?t" using assms by (simp_all add: tx_live_def)
  obtain s' bs where s': "consputc BACKSPACE ?t = Inr s'" "sent_bytes bs ?t s'" using consputc_sends [OF t] .
  have "tx_live ?t = tx_live s" by (simp add: tx_live_def)
  then show ?thesis using that [OF s'(1)] sent_bytes_cons [OF s'(2)] by (simp add: edit_only_def)
qed

lemma kill_line_spec:
  assumes "k = unat (ce s - cw s)" "10 \<notin> set (cons_edit s)" "length (cbuf s) = INPUT_BUF" "\<not> panicked s" "tx_live s"
  shows "\<exists>s'. kill_line k s = Inr s' \<and> edit_only s s' \<and> ce s' = cw s"
  using assms
proof (induction k arbitrary: s)
  case 0
  then show ?case by (simp add: edit_only_def unat_eq_0)
next
  case (Suc k)
  have ne: "ce s \<noteq> cw s" using Suc.prems(1) by auto
  note u = cons_ring.ring_unput(1) [OF ne, of "cbuf s"] cons_ring.ring_unput(2) [OF ne] cons_ring.ring_unput(3) [OF ne, of "cbuf s"]
  obtain t where t: "consputc BACKSPACE (s\<lparr>ce := ce s - 1\<rparr>) = Inr t" "edit_only s t" "ce t = ce s - 1"
    using backspace_sends [OF Suc.prems(4,5)] .
  have "cslot (ce s - 1) = (unat (cw s) + unat (ce s - 1 - cw s)) mod length (cbuf s)"
    using slot_of [OF cons_ring.dvd, of "ce s - 1" "cw s"] Suc.prems(3) by (simp add: cslot_def)
  then have "cbuf s ! cslot (ce s - 1) = last (cons_edit s)" using u(3) by (simp add: cons_edit_def)
  moreover have "cons_edit s \<noteq> []" using ne by (simp add: cons_edit_def)
  ultimately have c: "cbuf s ! cslot (ce s - 1) \<noteq> 10" using Suc.prems(2) last_in_set by metis
  have "k = unat (ce t - cw t)" using u(2) Suc.prems(1) t by (simp add: edit_only_def)
  moreover have "10 \<notin> set (cons_edit t)"
    using u(1) t Suc.prems(2) by (auto simp: cons_edit_def edit_only_def dest: in_set_butlastD)
  ultimately obtain s' where "kill_line k t = Inr s'" "edit_only t s'" "ce s' = cw t"
    using Suc.IH [of t] t(2) Suc.prems by (auto simp: edit_only_def)
  then show ?case using c t by (auto simp: edit_only_def)
qed


lemma cons_ok_lengths:
  "cons_ok s \<Longrightarrow> length (cons_ready s) + length (cons_edit s) = unat (ce s - cr s)"
  by (simp add: cons_ok_def cons_ready_def cons_edit_def)

lemma store_char_spec:
  assumes ok: "cons_ok s" and lt: "unat (ce s - cr s) < INPUT_BUF" and c: "c \<noteq> 10 \<or> fin"
    and t: "t = s\<lparr>cbuf := (cbuf s)[cslot (ce s) := c], ce := ce s + 1\<rparr>"
    and u: "u = (if fin then t\<lparr>cw := ce t\<rparr> else t)"
  shows "cons_ok u \<and> (cons_ready u, cons_edit u) =
    (if fin then (cons_ready s @ cons_edit s @ [c], []) else (cons_ready s, cons_edit s @ [c])) \<and>
    unat (ce u - cr u) = Suc (unat (ce s - cr s))"
proof -
  let ?b = "(cbuf s)[unat (ce s) mod INPUT_BUF := c]"
  have len: "length (cbuf s) = INPUT_BUF" and sp: "unat (ce s - cr s) = unat (cw s - cr s) + unat (ce s - cw s)"
    using ok by (simp_all add: cons_ok_def)
  have lw: "unat (ce s - cw s) < INPUT_BUF" using lt sp by simp
  note pr = cons_ring.ring_put(1) [OF len lt, of c] cons_ring.ring_put(2) [OF len lt]
  note pw = cons_ring.ring_put(1) [OF len lw, of c] cons_ring.ring_put(2) [OF len lw]
  have sp': "unat (ce s + 1 - cr s) = unat (cw s - cr s) + unat (ce s + 1 - cw s)" using pr(2) pw(2) sp by simp
  have "ring ?b (cr s) (cw s) @ ring ?b (cw s) (ce s + 1) = ring (cbuf s) (cr s) (cw s) @ ring (cbuf s) (cw s) (ce s) @ [c]"
    using cons_split [OF sp', of ?b] cons_split [OF sp len] pr(1) len by simp
  then have rdy: "ring ?b (cr s) (cw s) = cons_ready s" using pw(1) by (simp add: cons_ready_def)
  have all: "ring ?b (cr s) (ce s + 1) = cons_ready s @ cons_edit s @ [c]"
    using pr(1) cons_split [OF sp len] by (simp add: cons_ready_def cons_edit_def)
  have ub: "cbuf u = ?b" "cr u = cr s" "ce u = ce s + 1" "cw u = (if fin then ce s + 1 else cw s)"
    by (simp_all add: u t cslot_def)
  have rd: "cons_ready u = (if fin then cons_ready s @ cons_edit s @ [c] else cons_ready s)"
    using rdy all unfolding cons_ready_def [of u] ub by simp
  have ed: "cons_edit u = (if fin then [] else cons_edit s @ [c])"
    using pw(1) unfolding cons_edit_def [of u] ub by (simp add: cons_edit_def [of s] ring_def)
  have "cons_ok u" unfolding cons_ok_def ed using ub pr(2) sp' lt len ok c by (auto simp: cons_ok_def)
  then show ?thesis using rd ed pr(2) ub by simp
qed

lemma full_index:
  "unat (e - r) < INPUT_BUF \<Longrightarrow> e + 1 = r + of_nat INPUT_BUF \<longleftrightarrow> unat (e - r) + 1 = INPUT_BUF" for e r :: u32
proof -
  assume lt: "unat (e - r) < INPUT_BUF"
  have "e + 1 = r + of_nat INPUT_BUF \<longleftrightarrow> e - r = of_nat (INPUT_BUF - 1)"
    by (auto simp: INPUT_BUF_def algebra_simps)
  also have "\<dots> \<longleftrightarrow> unat (e - r) = INPUT_BUF - 1"
    by (simp add: word_unat_eq_iff INPUT_BUF_def)
  finally show ?thesis by (auto simp: INPUT_BUF_def)
qed

lemma consoleintr_spec:
  assumes ok: "cons_ok s" and out: "\<not> panicked s" "tx_live s"
  shows "\<exists>s'. consoleintr c s = Inr s' \<and> cons_ok s' \<and> \<not> panicked s' \<and> tx_live s' \<and> rx_fifo s' = rx_fifo s \<and>
    (cons_ready s', cons_edit s') = tty_key c (cons_ready s, cons_edit s) \<and>
    (cons_ready s' \<noteq> cons_ready s \<longrightarrow> woken Ch_cons_r s s')"
proof -
  have len: "length (cbuf s) = INPUT_BUF" and sp: "unat (ce s - cr s) = unat (cw s - cr s) + unat (ce s - cw s)"
    and no: "10 \<notin> set (cons_edit s)" using ok by (simp_all add: cons_ok_def)
  have lr: "length (cons_ready s) + length (cons_edit s) = unat (ce s - cr s)" by (rule cons_ok_lengths [OF ok])
  consider "c = 16" | "c = 21" | "c = 8 \<or> c = 127" | "c \<notin> {16, 21, 8, 127}" by blast
  then show ?thesis
  proof cases
    case 1
    obtain s' bs where s': "procdump s = Inr s'" "sent_bytes bs s s'"
      using prints_procdump [OF out] by (auto simp: prints_def)
    note f = sent_bytes_cons [OF s'(2)]
    then show ?thesis using s'(1) 1 ok out
      by (simp add: consoleintr_def tty_key_def cons_ok_def cons_ready_def cons_edit_def)
  next
    case 2
    obtain s' where s': "kill_line (unat (ce s - cw s)) s = Inr s'" "edit_only s s'" "ce s' = cw s"
      using kill_line_spec [OF refl no len out] by blast
    then show ?thesis using 2 ok out
      by (simp add: consoleintr_def tty_key_def cons_ok_def cons_ready_def cons_edit_def edit_only_def ring_def)
  next
    case 3
    show ?thesis
    proof (cases "ce s = cw s")
      case True
      then show ?thesis using 3 ok out
        by (auto simp: consoleintr_def tty_key_def cons_edit_def ring_def)
    next
      case ne: False
      obtain s' where s': "consputc BACKSPACE (s\<lparr>ce := ce s - 1\<rparr>) = Inr s'" "edit_only s s'" "ce s' = ce s - 1"
        using backspace_sends [OF out] .
      have "ce s \<noteq> cr s"
      proof
        assume "ce s = cr s"
        then have "unat (ce s - cr s) = 0" by simp
        then have "unat (ce s - cw s) = 0" using sp by linarith
        then show False using ne by (simp add: unat_eq_0)
      qed
      note u = cons_ring.ring_unput(1) [OF ne, of "cbuf s"] cons_ring.ring_unput(2) [OF ne]
        cons_ring.ring_unput(2) [OF this]
      have "cons_ok s'"
        using ok u s'(2,3) unfolding cons_ok_def edit_only_def
        by (auto simp: cons_edit_def dest: in_set_butlastD)
      moreover have "cons_edit s' = butlast (cons_edit s)" "cons_ready s' = cons_ready s"
        using u(1) s'(2,3) by (simp_all add: cons_edit_def cons_ready_def edit_only_def)
      moreover have "consoleintr c s = Inr s'" using 3 ne s'(1) by (auto simp: consoleintr_def)
      ultimately show ?thesis using 3 s'(2) out by (auto simp: tty_key_def edit_only_def)
    qed
  next
    case 4
    have lt: "ce s - cr s < of_nat INPUT_BUF \<longleftrightarrow> unat (ce s - cr s) < INPUT_BUF"
      by (simp add: word_less_nat_alt INPUT_BUF_def)
    show ?thesis
    proof (cases "c \<noteq> 0 \<and> unat (ce s - cr s) < INPUT_BUF")
      case False
      then show ?thesis using 4 ok out lt lr by (auto simp: consoleintr_def tty_key_def)
    next
      case room: True
      define d where "d = (if c = 13 then 10 else c)"
      define fin where "fin = (d = 10 \<or> d = 4 \<or> unat (ce s - cr s) + 1 = INPUT_BUF)"
      obtain v bs where v: "consputc (Ch d) s = Inr v" "sent_bytes bs s v" using consputc_sends [OF out] .
      note f = sent_bytes_cons [OF v(2)]
      have okv: "cons_ok v" and rv: "cons_ready v = cons_ready s" "cons_edit v = cons_edit s"
        using ok f by (simp_all add: cons_ok_def cons_ready_def cons_edit_def)
      define t where "t = v\<lparr>cbuf := (cbuf v)[cslot (ce v) := d], ce := ce v + 1\<rparr>"
      define u where "u = (if fin then t\<lparr>cw := ce t\<rparr> else t)"
      have st: "cons_ok u" "(cons_ready u, cons_edit u) =
          (if fin then (cons_ready s @ cons_edit s @ [d], []) else (cons_ready s, cons_edit s @ [d]))"
        using store_char_spec [OF okv _ _ t_def u_def] room f rv by (auto simp: fin_def)
      define s' where "s' = (if fin then wakeup (Some Ch_cons_r) u else u)"
      have w: "cons_ok s' = cons_ok u" "cons_ready s' = cons_ready u" "cons_edit s' = cons_edit u"
        "panicked s' = panicked u" "tx_live s' = tx_live u" "rx_fifo s' = rx_fifo u"
        by (auto simp: s'_def cons_ok_def cons_ready_def cons_edit_def tx_live_def wakeup_def)
      have fe: "(d = 10 \<or> d = 4 \<or> ce v + 1 = cr v + of_nat INPUT_BUF) = fin"
        using full_index [of "ce s" "cr s"] room f by (simp add: t_def fin_def)
      have run: "consoleintr c s = Inr s'"
        using 4 room lt v(1) fe unfolding consoleintr_def s'_def u_def
        by (simp add: d_def [symmetric] Let_def t_def [symmetric])
      have tl: "panicked u = panicked v" "tx_live u = tx_live v" "rx_fifo u = rx_fifo v" "procs u = procs v" "cur u = cur v"
        by (simp_all add: u_def t_def tx_live_def)
      have "fin \<Longrightarrow> woken Ch_cons_r s s'"
        by (rule woken_wakeup [of _ _ u]) (simp_all add: s'_def tl f)
      moreover have "tty_key c (cons_ready s, cons_edit s) =
          (if fin then (cons_ready s @ cons_edit s @ [d], []) else (cons_ready s, cons_edit s @ [d]))"
        using 4 room lr by (auto simp: tty_key_def fin_def d_def)
      ultimately show ?thesis using run w st tl f out by (auto split: if_splits)
    qed
  qed
qed


lemma uartstart_cons [simp]:
  "cbuf (uartstart s) = cbuf s" "cr (uartstart s) = cr s" "cw (uartstart s) = cw s" "ce (uartstart s) = ce s"
  "rx_fifo (uartstart s) = rx_fifo s"
proof -
  have "cbuf (uartstart_loop k s) = cbuf s \<and> cr (uartstart_loop k s) = cr s \<and> cw (uartstart_loop k s) = cw s \<and>
      ce (uartstart_loop k s) = ce s \<and> rx_fifo (uartstart_loop k s) = rx_fifo s" for k
    by (induction k arbitrary: s) (simp_all add: ReadLSR_def Let_def WriteReg_def wakeup_def)
  then show "cbuf (uartstart s) = cbuf s" "cr (uartstart s) = cr s" "cw (uartstart s) = cw s" "ce (uartstart s) = ce s"
    "rx_fifo (uartstart s) = rx_fifo s"
    by (simp_all add: uartstart_def)
qed

lemma uartintr_drain_spec:
  assumes "cons_ok s" "\<not> panicked s" "tx_live s" "fuel > length (rx_fifo s)"
  shows "\<exists>s'. uartintr_drain fuel s = Inr s' \<and> cons_ok s' \<and> rx_fifo s' = [] \<and>
    (cons_ready s', cons_edit s') = fold tty_key (rx_fifo s) (cons_ready s, cons_edit s)"
  using assms
proof (induction fuel arbitrary: s)
  case (Suc fuel)
  show ?case
  proof (cases "rx_fifo s")
    case Nil
    then show ?thesis using Suc.prems
      by (simp add: uartgetc_def ReadLSR_def cons_ok_def cons_ready_def cons_edit_def)
  next
    case (Cons c cs)
    define t where "t = s\<lparr>lsr_reads := lsr_reads s + 1, rx_fifo := cs\<rparr>"
    have g: "uartgetc s = (uint c, t)" using Cons by (simp add: uartgetc_def ReadLSR_def t_def)
    have t: "cons_ok t" "\<not> panicked t" "tx_live t" "cons_ready t = cons_ready s" "cons_edit t = cons_edit s" "rx_fifo t = cs"
      using Suc.prems by (simp_all add: t_def cons_ok_def cons_ready_def cons_edit_def tx_live_def)
    obtain u where u: "consoleintr c t = Inr u" "cons_ok u" "\<not> panicked u" "tx_live u" "rx_fifo u = rx_fifo t"
      "(cons_ready u, cons_edit u) = tty_key c (cons_ready t, cons_edit t)"
      using consoleintr_spec [OF t(1-3)] by blast
    have "uint c \<noteq> - 1" using uint_ge_0 [of c] by linarith
    then have run: "uartintr_drain (Suc fuel) s = uartintr_drain fuel u" using g u(1) by simp
    have "fuel > length (rx_fifo u)" using u(5) t(6) Suc.prems(4) Cons by simp
    from Suc.IH [OF u(2-4) this] show ?thesis unfolding run using u(5,6) t Cons by simp
  qed
qed simp

text \<open>C28: The console implements the line discipline. An interrupt takes every byte waiting in the
  receiver and applies it to the committed input and the line being edited as specified by
  \<open>tty_key\<close>: erase and kill change only the edited line, a newline or an end-of-file commits
  it, and input that does not fit in 128 bytes is dropped. The handler returns, and the
  32-bit indices may wrap.\<close>

theorem console_line_discipline:
  assumes "cons_ok s" "\<not> panicked s" "tx_live s"
  shows "\<exists>s'. uartintr s = Inr s' \<and> cons_ok s' \<and> rx_fifo s' = [] \<and>
    (cons_ready s', cons_edit s') = fold tty_key (rx_fifo s) (cons_ready s, cons_edit s)"
proof -
  obtain t where t: "uartintr_drain (Suc (length (rx_fifo s))) s = Inr t" "cons_ok t" "rx_fifo t = []"
    "(cons_ready t, cons_edit t) = fold tty_key (rx_fifo s) (cons_ready s, cons_edit s)"
    using uartintr_drain_spec [OF assms, of "Suc (length (rx_fifo s))"] by auto
  then show ?thesis
    by (auto simp: uartintr_def cons_ok_def cons_ready_def cons_edit_def)
qed

theorem console_line_discipline_witness:
  "\<exists>s'. uartintr (zero_cstate\<lparr>rx_fifo := [104, 120, 8, 105, 13, 120], cr := - 1, cw := - 1, ce := - 1\<rparr>) = Inr s' \<and>
     cons_ready s' = [104, 105, 10] \<and> cons_edit s' = [120]"
proof -
  define s where "s = zero_cstate\<lparr>rx_fifo := [104, 120, 8, 105, 13, 120], cr := - 1, cw := - 1, ce := - 1\<rparr>"
  have s: "cons_ok s" "\<not> panicked s" "tx_live s" "cons_ready s = []" "cons_edit s = []"
    "rx_fifo s = [104, 120, 8, 105, 13, 120]"
    by (auto simp: s_def cons_ok_def cons_ready_def cons_edit_def tx_live_def zero_cstate_def zero_ustate_def
        zero_pstate_def pstate.defs ustate.defs cstate.defs ring_def)
  have "fold tty_key [104, 120, 8, 105, 13, 120] ([], []) = ([104, 105, 10], [120])"
    by (simp add: tty_key_def INPUT_BUF_def)
  then show ?thesis using console_line_discipline [OF s(1-3)] s(4-6) unfolding s_def by auto
qed


section \<open>Reading a line\<close>

text \<open>
  The specification of a read of at most \<open>n\<close> bytes from the committed input \<open>q\<close>: the bytes
  delivered, the input left, and whether the reader has to wait for more. A newline ends the
  read; an end-of-file ends it too and is kept for the next read if anything was delivered.
\<close>

fun tty_read :: "nat \<Rightarrow> bool \<Rightarrow> byte list \<Rightarrow> byte list \<times> byte list \<times> bool" where
  "tty_read 0 got q = ([], q, False)"
| "tty_read (Suc n) got [] = ([], [], True)"
| "tty_read (Suc n) got (c # q) =
     (if c = 4 then ([], if got then c # q else q, False)
      else if c = 10 then ([c], q, False)
      else case tty_read n True q of (ds, q', w) \<Rightarrow> (c # ds, q', w))"

lemma tty_read_length: "tty_read n got q = (ds, q', w) \<Longrightarrow> length ds \<le> n"
  by (induction n got q arbitrary: ds rule: tty_read.induct) (auto split: if_splits prod.splits)

lemma more_frame_cons:
  assumes "kmem.more s' = kmem.more (s :: 'a cstate_scheme)"
  shows "cbuf s' = cbuf s" "cr s' = cr s" "cw s' = cw s" "ce s' = ce s"
  using assms by (cases s; cases s'; simp)+

lemma cons_ok_read:
  assumes "cons_ok s" "cr s \<noteq> cw s"
  shows "cons_ok (s\<lparr>cr := cr s + 1\<rparr>)" "cons_ready s = cbuf s ! cslot (cr s) # cons_ready (s\<lparr>cr := cr s + 1\<rparr>)"
    "cons_edit (s\<lparr>cr := cr s + 1\<rparr>) = cons_edit s"
proof -
  have len: "length (cbuf s) = INPUT_BUF" and sp: "unat (ce s - cr s) = unat (cw s - cr s) + unat (ce s - cw s)"
    using assms(1) by (simp_all add: cons_ok_def)
  have ne: "cw s \<noteq> cr s" using assms(2) by simp
  have "ce s \<noteq> cr s"
  proof
    assume "ce s = cr s"
    then have "unat (ce s - cr s) = 0" by simp
    then have "unat (cw s - cr s) = 0" using sp by linarith
    then show False using ne by (simp add: unat_eq_0)
  qed
  note g = cons_ring.ring_get(1) [OF len ne] cons_ring.ring_get(2) [OF len ne] cons_ring.ring_get(2) [OF len this]
  show "cons_ready s = cbuf s ! cslot (cr s) # cons_ready (s\<lparr>cr := cr s + 1\<rparr>)"
    using g(1) by (simp add: cons_ready_def cslot_def)
  show "cons_edit (s\<lparr>cr := cr s + 1\<rparr>) = cons_edit s" by (simp add: cons_edit_def)
  then show "cons_ok (s\<lparr>cr := cr s + 1\<rparr>)" using assms(1) g sp by (simp add: cons_ok_def)
qed

lemma consoleread_run_spec:
  assumes "cons_ok s" "user_inv s (my_pt s) D ps" "\<not> killed (procs s ! myproc s)" "n < 2 ^ 31" "n \<le> target"
    and "\<forall>k<n. user_page s (my_pt s) (unat (dst + of_nat k) div 4096)"
    and "tty_read n (n < target) (cons_ready s) = (ds, q, w)"
  shows "\<exists>s'. consoleread_run True dst n target s =
      Inr ((if w then None else Some (int target - int (n - length ds)), dst + of_nat (length ds), n - length ds), s') \<and>
    cons_ok s' \<and> user_inv s' (my_pt s) D ps \<and> procs s' = procs s \<and> cur s' = cur s \<and>
    cons_ready s' = q \<and> cons_edit s' = cons_edit s \<and> user_bytes s' dst [0..<length ds] = ds \<and>
    (\<forall>y. y div 4096 \<in> D \<and> (\<forall>k<n. y \<noteq> unat (dst + of_nat k)) \<longrightarrow> umem s' (my_pt s) y = umem s (my_pt s) y)"
  using assms
proof (induction n arbitrary: dst s ds q w)
  case 0
  then show ?case by (auto simp: consoleread_run.simps user_bytes_def)
next
  case (Suc n)
  show ?case
  proof (cases "cr s = cw s")
    case True
    then have "cons_ready s = []" by (simp add: cons_ready_def)
    then show ?thesis using Suc.prems True
      by (intro exI [of _ s]) (auto simp: consoleread_run.simps user_bytes_def)
  next
    case ne: False
    define c where "c = cbuf s ! cslot (cr s)"
    define t where "t = s\<lparr>cr := cr s + 1\<rparr>"
    note r = cons_ok_read [OF Suc.prems(1) ne, folded t_def c_def]
    have t: "pmem t = pmem s" "freelist t = freelist s" "procs t = procs s" "cur t = cur s" "my_pt t = my_pt s" "cr t = cr s + 1"
      by (simp_all add: t_def myproc_def)
    have it: "user_inv t (my_pt s) D ps" using Suc.prems(2) user_inv_cong [OF t(1,2)] by simp
    show ?thesis
    proof (cases "c = 4")
      case True
      have k: "t\<lparr>cr := cr t - 1\<rparr> = s" by (simp add: t_def)
      show ?thesis
      proof (cases "Suc n < target")
        case lt: True
        then have "consoleread_run True dst (Suc n) target s = Inr ((Some (int target - int (Suc n)), dst, Suc n), s)"
          using ne True k by (subst consoleread_run.simps) (simp add: c_def [symmetric] t_def [symmetric] Let_def)
        moreover have "ds = []" "q = cons_ready s" "\<not> w" using Suc.prems(7) r(2) True lt by simp_all
        ultimately show ?thesis using Suc.prems by (intro exI [of _ s]) (simp add: user_bytes_def)
      next
        case lt: False
        then have "consoleread_run True dst (Suc n) target s = Inr ((Some (int target - int (Suc n)), dst, Suc n), t)"
          using ne True by (subst consoleread_run.simps) (simp add: c_def [symmetric] t_def [symmetric] Let_def)
        moreover have "ds = []" "q = cons_ready t" "\<not> w" using Suc.prems(7) r(2) True lt by simp_all
        moreover have "umem t (my_pt s) = umem s (my_pt s)" by (rule umem_cong [OF t(1)])
        ultimately show ?thesis using Suc.prems r it t by (intro exI [of _ t]) (simp add: user_bytes_def)
      qed
    next
      case c4: False
      have pg: "user_page t (my_pt s) (unat dst div 4096)"
        using Suc.prems(6) [rule_format, of 0] t(1) by (simp add: user_page_def)
      obtain u where u: "copyout (my_pt s) dst [c] t = Inr (0, u)" "user_written (my_pt s) D ps t u"
        "\<And>y. y div 4096 \<in> D \<Longrightarrow> umem u (my_pt s) y = (if y = unat dst then c else umem t (my_pt s) y)"
        using copyout_byte [OF it pg] by blast
      have fr: "kmem.more u = kmem.more t" using copyout_frame [OF u(1)] by simp
      note mf = more_frame [OF fr] more_frame_cons [OF fr]
      have ec: "either_copyout True dst [c] t = Inr (0, u)" using u(1) t by (simp add: either_copyout_def)
      have iu: "user_inv u (my_pt u) D ps" using u(2) mf t by (simp add: user_written_def)
      have ok: "cons_ok u" "cons_ready u = cons_ready t" "cons_edit u = cons_edit s"
        using r mf by (simp_all add: cons_ok_def cons_ready_def cons_edit_def)
      have D: "unat dst div 4096 \<in> D" using it pg by (simp add: user_inv_def)
      have ut: "umem t (my_pt s) = umem s (my_pt s)" by (rule umem_cong [OF t(1)])
      have mp: "my_pt u = my_pt s" using mf t by simp
      show ?thesis
      proof (cases "c = 10")
        case True
        have "consoleread_run True dst (Suc n) target s = Inr ((Some (int target - int n), dst + 1, n), u)"
          using ne True ec by (subst consoleread_run.simps) (simp add: c_def [symmetric] t_def [symmetric] Let_def)
        moreover have "ds = [c]" "q = cons_ready t" "\<not> w" using Suc.prems(7) r(2) True by simp_all
        moreover have "user_bytes u dst [0..<1] = [c]" using u(3) [OF D] mp by (simp add: user_bytes_def)
        moreover have "umem u (my_pt s) y = umem s (my_pt s) y" if "y div 4096 \<in> D" "\<forall>k<Suc n. y \<noteq> unat (dst + of_nat k)" for y
          using u(3) [OF that(1)] that(2) [rule_format, of 0] ut by simp
        ultimately show ?thesis using ok iu mp mf t by (intro exI [of _ u]) simp
      next
        case c10: False
        obtain ds' q' w' where tr: "tty_read n True (cons_ready t) = (ds', q', w')" using prod_cases3 by blast
        then have e: "ds = c # ds'" "q = q'" "w = w'" using Suc.prems(7) r(2) c4 c10 by simp_all
        have sh: "dst + 1 + of_nat k = dst + of_nat (Suc k)" for k by simp
        have "n < target" using Suc.prems(5) by simp
        moreover have "\<forall>k<n. user_page u (my_pt u) (unat (dst + 1 + of_nat k) div 4096)"
          using Suc.prems(6) user_page_written [OF u(2)] user_page_cong [OF t(1)] mp unfolding sh
          by (simp del: of_nat_Suc)
        ultimately obtain s' where s': "consoleread_run True (dst + 1) n target u =
            Inr ((if w' then None else Some (int target - int (n - length ds')), dst + 1 + of_nat (length ds'), n - length ds'), s')"
          "cons_ok s'" "user_inv s' (my_pt u) D ps" "procs s' = procs u" "cur s' = cur u" "cons_ready s' = q'"
          "cons_edit s' = cons_edit u" "user_bytes s' (dst + 1) [0..<length ds'] = ds'"
          "\<forall>y. y div 4096 \<in> D \<and> (\<forall>k<n. y \<noteq> unat (dst + 1 + of_nat k)) \<longrightarrow> umem s' (my_pt u) y = umem u (my_pt u) y"
          using Suc.IH [OF ok(1) iu, of "dst + 1" ds' q' w'] tr Suc.prems(3,4) mf t ok(2) by (auto simp: myproc_def)
        have run: "consoleread_run True dst (Suc n) target s = consoleread_run True (dst + 1) n target u"
          using ne c4 c10 ec by (subst consoleread_run.simps) (simp add: c_def [symmetric] t_def [symmetric] Let_def)
        have ns: "\<forall>k<n. unat dst \<noteq> unat (dst + 1 + of_nat k)"
        proof (intro allI impI)
          fix k
          assume "k < n"
          then show "unat dst \<noteq> unat (dst + 1 + of_nat k)"
            using addr_inj [of 0 "Suc k" dst] Suc.prems(4) unfolding sh by simp
        qed
        have mp': "my_pt s' = my_pt s" using s'(4,5) mp by (simp add: myproc_def)
        have "umem s' (my_pt s) (unat dst) = c" using s'(9) ns D u(3) [OF D] mp by simp
        then have "user_bytes s' dst [0..<length ds] = ds"
          using s'(8) mp' unfolding e user_bytes_def sh
          by (simp add: upt_conv_Cons map_Suc_upt [symmetric] o_def del: upt_Suc of_nat_Suc)
        moreover have "umem s' (my_pt s) y = umem s (my_pt s) y"
          if "y div 4096 \<in> D" "\<forall>k<Suc n. y \<noteq> unat (dst + of_nat k)" for y
        proof -
          have "\<forall>k<n. y \<noteq> unat (dst + 1 + of_nat k)" using that(2) unfolding sh by auto
          then have "umem s' (my_pt s) y = umem u (my_pt s) y" using s'(9) that(1) mp by simp
          then show ?thesis using u(3) [OF that(1)] that(2) [rule_format, of 0] ut by simp
        qed
        ultimately show ?thesis using s' run ok mp mf t e by (intro exI [of _ s']) auto
      qed
    qed
  qed
qed


text \<open>C29: A read of the console puts into the caller's buffer what the specification \<open>tty_read\<close> takes
  from the committed input: bytes up to and including a newline, up to an end-of-file, or as
  many as fit. It returns their number, leaves the rest and the edited line for later, and
  writes nothing outside the buffer.\<close>

theorem console_read_delivers:
  assumes "cons_ok s" "user_inv s (my_pt s) D ps" "\<not> killed (procs s ! myproc s)" "n < 2 ^ 31"
    and "\<forall>k<nat n. user_page s (my_pt s) (unat (dst + of_nat k) div 4096)"
    and "tty_read (nat n) False (cons_ready s) = (ds, q, False)"
  shows "\<exists>s'. consoleread True dst n s = Inr (int (length ds), s') \<and> cons_ready s' = q \<and>
    cons_edit s' = cons_edit s \<and> user_bytes s' dst [0..<length ds] = ds \<and> cons_ok s' \<and>
    (\<forall>y. y div 4096 \<in> D \<and> (\<forall>k<nat n. y \<noteq> unat (dst + of_nat k)) \<longrightarrow> umem s' (my_pt s) y = umem s (my_pt s) y)"
proof -
  have n: "nat n < 2 ^ 31" "\<not> nat n < nat n" using assms(4) by simp_all
  have "length ds \<le> nat n" by (rule tty_read_length [OF assms(6)])
  then have r: "int (nat n) - int (nat n - length ds) = int (length ds)" by simp
  show ?thesis
    using consoleread_run_spec [OF assms(1-3) n(1) order_refl assms(5), of ds q False] assms(6) r
    by (auto simp: consoleread_def)
qed

theorem console_read_delivers_witness:
  "\<exists>(s :: cstate) s'. cons_ready s = [104, 105, 10, 120] \<and> consoleread True 4094 100 s = Inr (3, s') \<and>
     cons_ready s' = [120] \<and> user_bytes s' 4094 [0..<3] = [104, 105, 10]"
proof -
  have b: "unat (0x2000 :: u64) \<le> 255 * 4096" by simp
  have n: "npg 0x2000 = 2" by (simp add: npg_def)
  obtain k :: kmem and root ps where k: "user_inv k root {..<2} ps" "\<forall>i<2. user_page k root i"
    using boot_user [OF b] unfolding n by blast
  define s :: cstate where "s = zero_cstate\<lparr>pmem := pmem k, freelist := freelist k,
    procs := [zero_proc\<lparr>pagetable := root\<rparr>], cur := Some 0,
    cbuf := [104, 105, 10, 120] @ replicate 124 0, cw := 4, ce := 4\<rparr>"
  have s: "pmem s = pmem k" "freelist s = freelist k" "my_pt s = root" "\<not> killed (procs s ! myproc s)"
    "cons_ready s = [104, 105, 10, 120]" "cons_ok s"
    by (simp_all add: s_def zero_proc_def myproc_def cons_ok_def cons_ready_def cons_edit_def ring_def INPUT_BUF_def
        zero_cstate_def zero_ustate_def zero_pstate_def pstate.defs ustate.defs cstate.defs upt_rec)
  have inv: "user_inv s (my_pt s) {..<2} ps" using k(1) user_inv_cong [OF s(1,2)] s(3) by simp
  have pg: "\<forall>j<nat 100. user_page s (my_pt s) (unat (4094 + of_nat j :: u64) div 4096)"
  proof (intro allI impI)
    fix j
    assume "j < nat 100"
    then have "unat (4094 + of_nat j :: u64) = 4094 + j" by (simp add: unat_word_ariths unat_of_nat)
    then have "unat (4094 + of_nat j :: u64) div 4096 < 2" using \<open>j < nat 100\<close> by simp
    then show "user_page s (my_pt s) (unat (4094 + of_nat j :: u64) div 4096)"
      using k(2) s(3) user_page_cong [OF s(1)] by simp
  qed
  have tr: "tty_read (nat 100) False (cons_ready s) = ([104, 105, 10], [120], False)"
    unfolding s(5) by code_simp
  have l: "length [104 :: byte, 105, 10] = 3" by simp
  obtain s' where s': "consoleread True 4094 100 s = Inr (int 3, s')" "cons_ready s' = [120]"
    "user_bytes s' 4094 [0..<3] = [104, 105, 10]"
    using console_read_delivers [OF s(6) inv s(4) _ pg tr] unfolding l by auto
  then show ?thesis using s(5) by (intro exI [of _ s] exI [of _ s']) simp
qed

end
