(* ===== verification/Bio.thy ===== *)
theory Bio
  imports Sleeplock Console
begin

text \<open>
  \<open>kernel/bio.c\<close> and \<open>kernel/ramdisk.c\<close>: the buffer cache over the RAM disk. The cache is the
  doubly-linked list of the code: \<open>bufs\<close> holds the \<open>NBUF\<close> buffers and, at index \<open>NBUF\<close>, the
  list head; \<open>bprev\<close> and \<open>bnext\<close> are indices. A scan that has not come back to the head
  after \<open>NBUF + 1\<close> steps would run forever, which is \<open>Diverge\<close>. \<open>dtrace\<close> is a history variable:
  the disk writes in the order they happened, newest last.
\<close>

definition BSIZE :: nat where "BSIZE = 1024"
definition NBUF :: nat where "NBUF = 30"
definition FSSIZE :: nat where "FSSIZE = 1000"

record buf =
  bvalid :: bool
  bdev :: nat
  bblockno :: nat
  block_lock :: sleeplock
  brefcnt :: u32
  bprev :: nat
  bnext :: nat
  bdata :: "byte list"

record bstate = cstate +
  disk :: "nat \<Rightarrow> byte list"
  bufs :: "buf list"
  dtrace :: "(nat \<times> byte list) list"

definition zero_buf :: buf where
  "zero_buf = \<lparr>bvalid = False, bdev = 0, bblockno = 0, block_lock = initsleeplock '''', brefcnt = 0,
     bprev = 0, bnext = 0, bdata = replicate BSIZE 0\<rparr>"

definition zero_bstate :: bstate where
  "zero_bstate = cstate.extend zero_cstate (bstate.fields (\<lambda>_. replicate BSIZE 0) (replicate (NBUF + 1) zero_buf) [])"

definition upd_buf :: "nat \<Rightarrow> (buf \<Rightarrow> buf) \<Rightarrow> 'a bstate_scheme \<Rightarrow> 'a bstate_scheme" where
  "upd_buf i f s = s\<lparr>bufs := (bufs s)[i := f (bufs s ! i)]\<rparr>"

section \<open>The RAM disk\<close>

definition ramdiskrw :: "nat \<Rightarrow> bool \<Rightarrow> 'a bstate_scheme \<Rightarrow> 'a bstate_scheme res" where
  "ramdiskrw b wr s =
     (if \<not> holdingsleep (block_lock (bufs s ! b)) s then Inl (Panic ''ramdiskrw: buf not locked'')
      else if bblockno (bufs s ! b) \<ge> FSSIZE then Inl (Panic ''ramdiskrw: blockno too big'')
      else
        let n = bblockno (bufs s ! b) in
        if wr then
          Inr (s\<lparr>disk := (disk s)(n := bdata (bufs s ! b)),
                 dtrace := dtrace s @ [(n, bdata (bufs s ! b))]\<rparr>)
        else Inr (upd_buf b (\<lambda>k. k\<lparr>bdata := disk s n\<rparr>) s))"

section \<open>The list of buffers\<close>

text \<open>Insert buffer \<open>b\<close> after the head: the four pointer assignments of the code.\<close>

definition link_front :: "nat \<Rightarrow> buf list \<Rightarrow> buf list" where
  "link_front b bs =
     (let first = bnext (bs ! NBUF);
          bs = bs[b := (bs ! b)\<lparr>bnext := first, bprev := NBUF\<rparr>];
          bs = bs[first := (bs ! first)\<lparr>bprev := b\<rparr>]
      in bs[NBUF := (bs ! NBUF)\<lparr>bnext := b\<rparr>])"

definition unlink_buf :: "nat \<Rightarrow> buf list \<Rightarrow> buf list" where
  "unlink_buf b bs =
     (let bs = bs[bnext (bs ! b) := (bs ! bnext (bs ! b))\<lparr>bprev := bprev (bs ! b)\<rparr>]
      in bs[bprev (bs ! b) := (bs ! bprev (bs ! b))\<lparr>bnext := bnext (bs ! b)\<rparr>])"

definition binit :: "'a bstate_scheme \<Rightarrow> 'a bstate_scheme" where
  "binit s =
     (let bs = (bufs s)[NBUF := (bufs s ! NBUF)\<lparr>bprev := NBUF, bnext := NBUF\<rparr>]
      in s\<lparr>bufs := fold (\<lambda>b bs. link_front b
             (bs[b := (bs ! b)\<lparr>block_lock := initsleeplock ''buffer''\<rparr>])) [0..<NBUF] bs\<rparr>)"

text \<open>The two scans of \<open>bget\<close>, each from a start index back to the head.\<close>

fun bscan_cached :: "nat \<Rightarrow> nat \<Rightarrow> nat \<Rightarrow> nat \<Rightarrow> buf list \<Rightarrow> nat option res" where
  "bscan_cached 0 b dev blockno bs = Inl Diverge"
| "bscan_cached (Suc fuel) b dev blockno bs =
     (if b = NBUF then Inr None
      else if bdev (bs ! b) = dev \<and> bblockno (bs ! b) = blockno then Inr (Some b)
      else bscan_cached fuel (bnext (bs ! b)) dev blockno bs)"

fun bscan_unused :: "nat \<Rightarrow> nat \<Rightarrow> buf list \<Rightarrow> nat option res" where
  "bscan_unused 0 b bs = Inl Diverge"
| "bscan_unused (Suc fuel) b bs =
     (if b = NBUF then Inr None
      else if brefcnt (bs ! b) = 0 then Inr (Some b)
      else bscan_unused fuel (bprev (bs ! b)) bs)"

definition block_acquire :: "nat \<Rightarrow> 'a bstate_scheme \<Rightarrow> 'a bstate_scheme res" where
  "block_acquire b s =
     kbind (acquiresleep (Ch_buf b) (block_lock (bufs s ! b)) s) (\<lambda>lk.
     Inr (upd_buf b (\<lambda>k. k\<lparr>block_lock := lk\<rparr>) s))"

definition bget :: "nat \<Rightarrow> nat \<Rightarrow> 'a bstate_scheme \<Rightarrow> (nat \<times> 'a bstate_scheme) res" where
  "bget dev blockno s =
     kbind (bscan_cached (Suc NBUF) (bnext (bufs s ! NBUF)) dev blockno (bufs s)) (\<lambda>r.
     case r of
       Some b \<Rightarrow>
         let s = upd_buf b (\<lambda>k. k\<lparr>brefcnt := brefcnt k + 1\<rparr>) s in
         kbind (block_acquire b s) (\<lambda>s. Inr (b, s))
     | None \<Rightarrow>
         kbind (bscan_unused (Suc NBUF) (bprev (bufs s ! NBUF)) (bufs s)) (\<lambda>r.
         case r of
           Some b \<Rightarrow>
             let s = upd_buf b (\<lambda>k. k\<lparr>bdev := dev, bblockno := blockno, bvalid := False, brefcnt := 1\<rparr>) s in
             kbind (block_acquire b s) (\<lambda>s. Inr (b, s))
         | None \<Rightarrow> Inl (Panic ''bget: no buffers'')))"

section \<open>Operations\<close>

definition bread :: "nat \<Rightarrow> nat \<Rightarrow> 'a bstate_scheme \<Rightarrow> (nat \<times> 'a bstate_scheme) res" where
  "bread dev blockno s =
     kbind (bget dev blockno s) (\<lambda>(b, s).
       if \<not> bvalid (bufs s ! b) then
         kbind (ramdiskrw b False s) (\<lambda>s. Inr (b, upd_buf b (\<lambda>k. k\<lparr>bvalid := True\<rparr>) s))
       else Inr (b, s))"

definition bwrite :: "nat \<Rightarrow> 'a bstate_scheme \<Rightarrow> 'a bstate_scheme res" where
  "bwrite b s =
     (if \<not> holdingsleep (block_lock (bufs s ! b)) s then Inl (Panic ''bwrite'')
      else ramdiskrw b True s)"

definition brelse :: "nat \<Rightarrow> 'a bstate_scheme \<Rightarrow> 'a bstate_scheme res" where
  "brelse b s =
     (if \<not> holdingsleep (block_lock (bufs s ! b)) s then Inl (Panic ''brelse'')
      else
        case releasesleep (Ch_buf b) (block_lock (bufs s ! b)) s of (lk, s) \<Rightarrow>
        let s = upd_buf b (\<lambda>k. k\<lparr>block_lock := lk\<rparr>) s;
            s = upd_buf b (\<lambda>k. k\<lparr>brefcnt := brefcnt k - 1\<rparr>) s
        in Inr (if brefcnt (bufs s ! b) = 0
                then s\<lparr>bufs := link_front b (unlink_buf b (bufs s))\<rparr> else s))"

definition bpin :: "nat \<Rightarrow> 'a bstate_scheme \<Rightarrow> 'a bstate_scheme" where
  "bpin b s = upd_buf b (\<lambda>k. k\<lparr>brefcnt := brefcnt k + 1\<rparr>) s"

definition bunpin :: "nat \<Rightarrow> 'a bstate_scheme \<Rightarrow> 'a bstate_scheme" where
  "bunpin b s = upd_buf b (\<lambda>k. k\<lparr>brefcnt := brefcnt k - 1\<rparr>) s"

text \<open>Writing through the pointer \<open>b->data\<close>.\<close>

definition set_data :: "nat \<Rightarrow> byte list \<Rightarrow> 'a bstate_scheme \<Rightarrow> 'a bstate_scheme" where
  "set_data b d s = upd_buf b (\<lambda>k. k\<lparr>bdata := d\<rparr>) s"

end
