(* ===== verification/Log.thy ===== *)
theory Log
  imports Bio
begin

text \<open>
  \<open>kernel/log.c\<close>: the write-ahead log. \<open>log\<close> and \<open>logheader\<close> are the structs of the code; the
  header block holds \<open>n\<close> and the block numbers as little-endian 32-bit words. Waiting in
  \<open>begin_op\<close> is the outcome \<open>Sleep Ch_log\<close>. A header on disk whose count exceeds \<open>LOGSIZE\<close> makes
  \<open>read_head\<close> write outside the array, which is \<open>Undef\<close>.
\<close>

definition LOGSIZE :: nat where "LOGSIZE = 30"
definition MAXOPBLOCKS :: nat where "MAXOPBLOCKS = 10"

record logheader =
  hn :: int
  hblock :: "nat list"

record log =
  lstart :: nat
  lsize :: nat
  outstanding :: int
  committing :: bool
  ldev :: nat
  lh :: logheader

record lstate = bstate +
  slog :: log

definition zero_lstate :: lstate where
  "zero_lstate = bstate.extend zero_bstate (lstate.fields \<lparr>lstart = 0, lsize = 0, outstanding = 0,
     committing = False, ldev = 0, lh = \<lparr>hn = 0, hblock = replicate LOGSIZE 0\<rparr>\<rparr>)"

definition upd_log :: "(log \<Rightarrow> log) \<Rightarrow> 'a lstate_scheme \<Rightarrow> 'a lstate_scheme" where
  "upd_log f s = s\<lparr>slog := f (slog s)\<rparr>"

section \<open>Words inside a block\<close>

definition get32 :: "byte list \<Rightarrow> nat \<Rightarrow> u32" where
  "get32 d i = bytes_word (slice i 4 d)"

definition put32 :: "byte list \<Rightarrow> nat \<Rightarrow> u32 \<Rightarrow> byte list" where
  "put32 d i w = splice_at i (word_bytes 4 w) d"

definition put_header :: "logheader \<Rightarrow> byte list \<Rightarrow> byte list" where
  "put_header h d =
     fold (\<lambda>i d. put32 d (4 + 4 * i) (of_nat (hblock h ! i))) [0..<nat (hn h)] (put32 d 0 (of_int (hn h)))"

section \<open>Header and copies\<close>

definition read_head :: "'a lstate_scheme \<Rightarrow> 'a lstate_scheme res" where
  "read_head s =
     kbind (bread (ldev (slog s)) (lstart (slog s)) s) (\<lambda>(b, s).
       let d = bdata (bufs s ! b); n = sint (get32 d 0) in
       if n > int LOGSIZE then Inl Undef
       else
         let s = upd_log (\<lambda>l. l\<lparr>lh := \<lparr>hn = n,
                hblock = map (\<lambda>i. if i < nat n then unat (get32 d (4 + 4 * i)) else hblock (lh l) ! i)
                           [0..<LOGSIZE]\<rparr>\<rparr>) s
         in brelse b s)"

definition write_head :: "'a lstate_scheme \<Rightarrow> 'a lstate_scheme res" where
  "write_head s =
     kbind (bread (ldev (slog s)) (lstart (slog s)) s) (\<lambda>(b, s).
     kbind (bwrite b (set_data b (put_header (lh (slog s)) (bdata (bufs s ! b))) s)) (\<lambda>s.
     brelse b s))"

definition install_one :: "bool \<Rightarrow> nat \<Rightarrow> 'a lstate_scheme \<Rightarrow> 'a lstate_scheme res" where
  "install_one recovering tail s =
     kbind (bread (ldev (slog s)) (lstart (slog s) + tail + 1) s) (\<lambda>(lbuf, s).
     kbind (bread (ldev (slog s)) (hblock (lh (slog s)) ! tail) s) (\<lambda>(dbuf, s).
     kbind (bwrite dbuf (set_data dbuf (bdata (bufs s ! lbuf)) s)) (\<lambda>s.
     kbind (brelse lbuf (if recovering then s else bunpin dbuf s)) (\<lambda>s.
     brelse dbuf s))))"

definition install_trans :: "bool \<Rightarrow> 'a lstate_scheme \<Rightarrow> 'a lstate_scheme res" where
  "install_trans recovering s = kfor (install_one recovering) [0..<nat (hn (lh (slog s)))] s"

definition clear_header :: "'a lstate_scheme \<Rightarrow> 'a lstate_scheme" where
  "clear_header s = upd_log (\<lambda>l. l\<lparr>lh := (lh l)\<lparr>hn := 0\<rparr>\<rparr>) s"

definition recover_from_log :: "'a lstate_scheme \<Rightarrow> 'a lstate_scheme res" where
  "recover_from_log s =
     kbind (read_head s) (\<lambda>s.
     kbind (install_trans True s) (\<lambda>s.
     write_head (clear_header s)))"

definition initlog :: "nat \<Rightarrow> nat \<Rightarrow> nat \<Rightarrow> 'a lstate_scheme \<Rightarrow> 'a lstate_scheme res" where
  "initlog dev logstart nlog s =
     (if 4 + 4 * LOGSIZE \<ge> BSIZE then Inl (Panic ''initlog: too big logheader'')
      else recover_from_log (upd_log (\<lambda>l. l\<lparr>lstart := logstart, lsize := nlog, ldev := dev\<rparr>) s))"

section \<open>Transactions\<close>

definition write_log_one :: "nat \<Rightarrow> 'a lstate_scheme \<Rightarrow> 'a lstate_scheme res" where
  "write_log_one tail s =
     kbind (bread (ldev (slog s)) (lstart (slog s) + tail + 1) s) (\<lambda>(to, s).
     kbind (bread (ldev (slog s)) (hblock (lh (slog s)) ! tail) s) (\<lambda>(from, s).
     kbind (bwrite to (set_data to (bdata (bufs s ! from)) s)) (\<lambda>s.
     kbind (brelse from s) (\<lambda>s.
     brelse to s))))"

definition write_log :: "'a lstate_scheme \<Rightarrow> 'a lstate_scheme res" where
  "write_log s = kfor write_log_one [0..<nat (hn (lh (slog s)))] s"

definition commit :: "'a lstate_scheme \<Rightarrow> 'a lstate_scheme res" where
  "commit s =
     (if hn (lh (slog s)) > 0 then
        kbind (write_log s) (\<lambda>s.
        kbind (write_head s) (\<lambda>s.
        kbind (install_trans False s) (\<lambda>s.
        write_head (clear_header s))))
      else Inr s)"

definition begin_op :: "'a lstate_scheme \<Rightarrow> 'a lstate_scheme res" where
  "begin_op s =
     (if committing (slog s) then Inl (Sleep Ch_log)
      else if hn (lh (slog s)) + (outstanding (slog s) + 1) * int MAXOPBLOCKS > int LOGSIZE
      then Inl (Sleep Ch_log)
      else Inr (upd_log (\<lambda>l. l\<lparr>outstanding := outstanding l + 1\<rparr>) s))"

text \<open>\<open>end_op\<close> up to the point where it drops the lock, then the rest.\<close>

definition end_op_enter :: "'a lstate_scheme \<Rightarrow> (bool \<times> 'a lstate_scheme) res" where
  "end_op_enter s =
     (let s = upd_log (\<lambda>l. l\<lparr>outstanding := outstanding l - 1\<rparr>) s in
      if committing (slog s) then Inl (Panic ''log.committing'')
      else if outstanding (slog s) = 0 then Inr (True, upd_log (\<lambda>l. l\<lparr>committing := True\<rparr>) s)
      else Inr (False, wakeup (Some Ch_log) s))"

definition end_op_leave :: "'a lstate_scheme \<Rightarrow> 'a lstate_scheme" where
  "end_op_leave s = wakeup (Some Ch_log) (upd_log (\<lambda>l. l\<lparr>committing := False\<rparr>) s)"

definition end_op :: "'a lstate_scheme \<Rightarrow> 'a lstate_scheme res" where
  "end_op s =
     kbind (end_op_enter s) (\<lambda>(do_commit, s).
       if do_commit then kbind (commit s) (\<lambda>s. Inr (end_op_leave s)) else Inr s)"

text \<open>The absorption scan: the first slot that holds the block, or \<open>n\<close>.\<close>

fun log_slot :: "nat \<Rightarrow> nat list \<Rightarrow> nat \<Rightarrow> nat" where
  "log_slot blockno [] i = i"
| "log_slot blockno (x # xs) i = (if x = blockno then i else log_slot blockno xs (i + 1))"

definition log_write :: "nat \<Rightarrow> 'a lstate_scheme \<Rightarrow> 'a lstate_scheme res" where
  "log_write b s =
     (let n = hn (lh (slog s)) in
      if n \<ge> int LOGSIZE \<or> n \<ge> int (lsize (slog s)) - 1 then Inl (Panic ''too big a transaction'')
      else if outstanding (slog s) < 1 then Inl (Panic ''log_write outside of trans'')
      else
        let i = log_slot (bblockno (bufs s ! b)) (take (nat n) (hblock (lh (slog s)))) 0;
            s' = upd_log (\<lambda>l. l\<lparr>lh := (lh l)\<lparr>hblock := (hblock (lh l))[i := bblockno (bufs s ! b)]\<rparr>\<rparr>) s
        in Inr (if int i = n
                then upd_log (\<lambda>l. l\<lparr>lh := (lh l)\<lparr>hn := hn (lh l) + 1\<rparr>\<rparr>) (bpin b s')
                else s'))"

end
