(* ===== verification/Fs.thy ===== *)
theory Fs
  imports Log
begin

text \<open>
  \<open>kernel/fs.c\<close>: super block, block bitmap, inodes, file contents, directories and path
  names. An inode is its index in the table \<open>inodes\<close> (\<open>itable.inode\<close>); block, inode and byte
  numbers are the unsigned values of the C integers, with the 32-bit wrap written out where
  the code tests for it. A path is the bytes of a C string before its NUL.
\<close>

section \<open>On-disk and in-memory structures (fs.h, file.h, stat.h)\<close>

definition ROOTINO :: nat where "ROOTINO = 1"
definition ROOTDEV :: nat where "ROOTDEV = 1"
definition FSMAGIC :: nat where "FSMAGIC = 0x10203040"
definition NDIRECT :: nat where "NDIRECT = 12"
definition NINDIRECT :: nat where "NINDIRECT = BSIZE div 4"
definition MAXFILE :: nat where "MAXFILE = NDIRECT + NINDIRECT"
definition IPB :: nat where "IPB = BSIZE div 64"
definition BPB :: nat where "BPB = BSIZE * 8"
definition DIRSIZ :: nat where "DIRSIZ = 14"
definition NINODE :: nat where "NINODE = 50"
definition T_DIR :: u16 where "T_DIR = 1"
definition T_FILE :: u16 where "T_FILE = 2"
definition T_DEVICE :: u16 where "T_DEVICE = 3"

record superblock =
  sb_magic :: nat
  sb_size :: nat
  sb_nblocks :: nat
  sb_ninodes :: nat
  sb_nlog :: nat
  sb_logstart :: nat
  sb_inodestart :: nat
  sb_bmapstart :: nat

record inode =
  idev :: nat
  inum :: nat
  iref :: int
  inode_lock :: sleeplock
  ivalid :: bool
  itype :: u16
  imajor :: u16
  iminor :: u16
  inlink :: u16
  isize :: nat
  iaddrs :: "nat list"

record fsstate = lstate +
  sb :: superblock
  inodes :: "inode list"

definition zero_inode :: inode where
  "zero_inode = \<lparr>idev = 0, inum = 0, iref = 0, inode_lock = initsleeplock '''', ivalid = False, itype = 0,
     imajor = 0, iminor = 0, inlink = 0, isize = 0, iaddrs = replicate (NDIRECT + 1) 0\<rparr>"

definition zero_fsstate :: fsstate where
  "zero_fsstate = lstate.extend zero_lstate (fsstate.fields \<lparr>sb_magic = 0, sb_size = 0, sb_nblocks = 0,
     sb_ninodes = 0, sb_nlog = 0, sb_logstart = 0, sb_inodestart = 0, sb_bmapstart = 0\<rparr>
     (replicate NINODE zero_inode))"

definition IBLOCK :: "nat \<Rightarrow> superblock \<Rightarrow> nat" where
  "IBLOCK i sb0 = i div IPB + sb_inodestart sb0"

definition BBLOCK :: "nat \<Rightarrow> superblock \<Rightarrow> nat" where
  "BBLOCK b sb0 = b div BPB + sb_bmapstart sb0"

definition upd_inode :: "nat \<Rightarrow> (inode \<Rightarrow> inode) \<Rightarrow> 'a fsstate_scheme \<Rightarrow> 'a fsstate_scheme" where
  "upd_inode i f s = s\<lparr>inodes := (inodes s)[i := f (inodes s ! i)]\<rparr>"

definition get16 :: "byte list \<Rightarrow> nat \<Rightarrow> u16" where
  "get16 d i = bytes_word (slice i 2 d)"

definition put16 :: "byte list \<Rightarrow> nat \<Rightarrow> u16 \<Rightarrow> byte list" where
  "put16 d i w = splice_at i (word_bytes 2 w) d"

text \<open>The fields of the \<open>struct dinode\<close> at byte offset \<open>o\<close> of a block.\<close>

definition dinode_off :: "nat \<Rightarrow> nat" where
  "dinode_off i = 64 * (i mod IPB)"

definition load_dinode :: "byte list \<Rightarrow> nat \<Rightarrow> inode \<Rightarrow> inode" where
  "load_dinode d p ip = ip\<lparr>itype := get16 d p, imajor := get16 d (p + 2), iminor := get16 d (p + 4),
     inlink := get16 d (p + 6), isize := unat (get32 d (p + 8)),
     iaddrs := map (\<lambda>i. unat (get32 d (p + 12 + 4 * i))) [0..<NDIRECT + 1]\<rparr>"

definition dinode_bytes :: "inode \<Rightarrow> byte list" where
  "dinode_bytes ip =
     word_bytes 2 (itype ip) @ word_bytes 2 (imajor ip) @ word_bytes 2 (iminor ip) @
     word_bytes 2 (inlink ip) @ word_bytes 4 (of_nat (isize ip) :: u32) @
     concat (map (\<lambda>a. word_bytes 4 (of_nat a :: u32)) (iaddrs ip))"

section \<open>Super block\<close>

definition decode_sb :: "byte list \<Rightarrow> superblock" where
  "decode_sb d = \<lparr>sb_magic = unat (get32 d 0), sb_size = unat (get32 d 4),
     sb_nblocks = unat (get32 d 8), sb_ninodes = unat (get32 d 12), sb_nlog = unat (get32 d 16),
     sb_logstart = unat (get32 d 20), sb_inodestart = unat (get32 d 24),
     sb_bmapstart = unat (get32 d 28)\<rparr>"

definition readsb :: "nat \<Rightarrow> 'a fsstate_scheme \<Rightarrow> 'a fsstate_scheme res" where
  "readsb dev s =
     kbind (bread dev 1 s) (\<lambda>(bp, s).
     brelse bp (s\<lparr>sb := decode_sb (bdata (bufs s ! bp))\<rparr>))"

definition fsinit :: "nat \<Rightarrow> 'a fsstate_scheme \<Rightarrow> 'a fsstate_scheme res" where
  "fsinit dev s =
     kbind (readsb dev s) (\<lambda>s.
       if sb_magic (sb s) \<noteq> FSMAGIC then Inl (Panic ''invalid file system'')
       else initlog dev (sb_logstart (sb s)) (sb_nlog (sb s)) s)"

section \<open>Blocks\<close>

definition bzero :: "nat \<Rightarrow> nat \<Rightarrow> 'a lstate_scheme \<Rightarrow> 'a lstate_scheme res" where
  "bzero dev bno s =
     kbind (bread dev bno s) (\<lambda>(bp, s).
     kbind (log_write bp (set_data bp (replicate BSIZE 0) s)) (\<lambda>s.
     brelse bp s))"

definition bit_mask :: "nat \<Rightarrow> byte" where
  "bit_mask bi = push_bit (bi mod 8) 1"

text \<open>The inner loop of \<open>balloc\<close>: the first clear bit among \<open>k\<close> bits from \<open>bi\<close> on.\<close>

fun first_clear :: "byte list \<Rightarrow> nat \<Rightarrow> nat \<Rightarrow> nat option" where
  "first_clear d bi 0 = None"
| "first_clear d bi (Suc k) =
     (if (d ! (bi div 8)) AND bit_mask bi = 0 then Some bi else first_clear d (Suc bi) k)"

definition set_bit_in :: "nat \<Rightarrow> byte list \<Rightarrow> byte list" where
  "set_bit_in bi d = d[bi div 8 := (d ! (bi div 8)) OR bit_mask bi]"

definition clear_bit_in :: "nat \<Rightarrow> byte list \<Rightarrow> byte list" where
  "clear_bit_in bi d = d[bi div 8 := (d ! (bi div 8)) AND NOT (bit_mask bi)]"

function balloc_from ::
  "nat \<Rightarrow> nat \<Rightarrow> nat \<Rightarrow> 'a fsstate_scheme \<Rightarrow> (nat \<times> 'a fsstate_scheme) res" where
  "balloc_from dev b sz s =
     (if b < sz then
        kbind (bread dev (BBLOCK b (sb s)) s) (\<lambda>(bp, s).
        case first_clear (bdata (bufs s ! bp)) 0 (min BPB (sz - b)) of
          Some bi \<Rightarrow>
            kbind (log_write bp (set_data bp (set_bit_in bi (bdata (bufs s ! bp))) s)) (\<lambda>s.
            kbind (brelse bp s) (\<lambda>s.
            kbind (bzero dev (b + bi) s) (\<lambda>s.
            Inr (b + bi, s))))
        | None \<Rightarrow>
            kbind (brelse bp s) (\<lambda>s. balloc_from dev (b + BPB) sz s))
      else Inl (Panic ''balloc: out of blocks''))"
  by pat_completeness auto
termination
  by (relation "measure (\<lambda>(dev, b, sz, s). sz - b)") (auto simp: BPB_def BSIZE_def)

declare balloc_from.simps [simp del]

definition balloc :: "nat \<Rightarrow> 'a fsstate_scheme \<Rightarrow> (nat \<times> 'a fsstate_scheme) res" where
  "balloc dev s = balloc_from dev 0 (sb_size (sb s)) s"

definition bfree :: "nat \<Rightarrow> nat \<Rightarrow> 'a fsstate_scheme \<Rightarrow> 'a fsstate_scheme res" where
  "bfree dev b s =
     kbind (bread dev (BBLOCK b (sb s)) s) (\<lambda>(bp, s).
       let bi = b mod BPB; d = bdata (bufs s ! bp) in
       if (d ! (bi div 8)) AND bit_mask bi = 0 then Inl (Panic ''freeing free block'')
       else kbind (log_write bp (set_data bp (clear_bit_in bi d) s)) (\<lambda>s. brelse bp s))"

section \<open>Inodes\<close>

definition iinit :: "'a fsstate_scheme \<Rightarrow> 'a fsstate_scheme" where
  "iinit s = s\<lparr>inodes := map (\<lambda>ip. ip\<lparr>inode_lock := initsleeplock ''inode''\<rparr>) (inodes s)\<rparr>"

text \<open>The scan of \<open>iget\<close>: a live entry for the inode, and the first empty slot before it.\<close>

fun iget_scan :: "nat \<Rightarrow> nat \<Rightarrow> nat \<Rightarrow> nat option \<Rightarrow> inode list \<Rightarrow> nat option \<times> nat option" where
  "iget_scan dev n i emp [] = (None, emp)"
| "iget_scan dev n i emp (ip # ips) =
     (if iref ip > 0 \<and> idev ip = dev \<and> inum ip = n then (Some i, emp)
      else iget_scan dev n (Suc i) (if emp = None \<and> iref ip = 0 then Some i else emp) ips)"

definition iget :: "nat \<Rightarrow> nat \<Rightarrow> 'a fsstate_scheme \<Rightarrow> (nat \<times> 'a fsstate_scheme) res" where
  "iget dev n s =
     (case iget_scan dev n 0 None (inodes s) of
        (Some i, _) \<Rightarrow> Inr (i, upd_inode i (\<lambda>ip. ip\<lparr>iref := iref ip + 1\<rparr>) s)
      | (None, None) \<Rightarrow> Inl (Panic ''iget: no inodes'')
      | (None, Some i) \<Rightarrow>
          Inr (i, upd_inode i (\<lambda>ip. ip\<lparr>idev := dev, inum := n, iref := 1, ivalid := False\<rparr>) s))"

fun ialloc_scan ::
  "nat \<Rightarrow> u16 \<Rightarrow> nat list \<Rightarrow> 'a fsstate_scheme \<Rightarrow> (nat \<times> 'a fsstate_scheme) res" where
  "ialloc_scan dev type [] s = Inl (Panic ''ialloc: no inodes'')"
| "ialloc_scan dev type (n # ns) s =
     kbind (bread dev (IBLOCK n (sb s)) s) (\<lambda>(bp, s).
       let d = bdata (bufs s ! bp); p = dinode_off n in
       if get16 d p = 0 then
         kbind (log_write bp (set_data bp (put16 (splice_at p (replicate 64 0) d) p type) s)) (\<lambda>s.
         kbind (brelse bp s) (\<lambda>s.
         iget dev n s))
       else kbind (brelse bp s) (\<lambda>s. ialloc_scan dev type ns s))"

definition ialloc :: "nat \<Rightarrow> u16 \<Rightarrow> 'a fsstate_scheme \<Rightarrow> (nat \<times> 'a fsstate_scheme) res" where
  "ialloc dev type s = ialloc_scan dev type [1..<sb_ninodes (sb s)] s"

definition iupdate :: "nat \<Rightarrow> 'a fsstate_scheme \<Rightarrow> 'a fsstate_scheme res" where
  "iupdate i s =
     (let ip = inodes s ! i in
      kbind (bread (idev ip) (IBLOCK (inum ip) (sb s)) s) (\<lambda>(bp, s).
      kbind (log_write bp (set_data bp
               (splice_at (dinode_off (inum ip)) (dinode_bytes ip) (bdata (bufs s ! bp))) s)) (\<lambda>s.
      brelse bp s)))"

definition idup :: "nat \<Rightarrow> 'a fsstate_scheme \<Rightarrow> nat \<times> 'a fsstate_scheme" where
  "idup i s = (i, upd_inode i (\<lambda>ip. ip\<lparr>iref := iref ip + 1\<rparr>) s)"

definition inode_acquire :: "nat \<Rightarrow> 'a fsstate_scheme \<Rightarrow> 'a fsstate_scheme res" where
  "inode_acquire i s =
     kbind (acquiresleep (Ch_inode i) (inode_lock (inodes s ! i)) s) (\<lambda>lk.
     Inr (upd_inode i (\<lambda>ip. ip\<lparr>inode_lock := lk\<rparr>) s))"

definition inode_release :: "nat \<Rightarrow> 'a fsstate_scheme \<Rightarrow> 'a fsstate_scheme" where
  "inode_release i s =
     (case releasesleep (Ch_inode i) (inode_lock (inodes s ! i)) s of (lk, s) \<Rightarrow>
      upd_inode i (\<lambda>ip. ip\<lparr>inode_lock := lk\<rparr>) s)"

definition ilock :: "nat option \<Rightarrow> 'a fsstate_scheme \<Rightarrow> 'a fsstate_scheme res" where
  "ilock ip s =
     (case ip of None \<Rightarrow> Inl (Panic ''ilock'') | Some i \<Rightarrow>
      if iref (inodes s ! i) < 1 then Inl (Panic ''ilock'')
      else kbind (inode_acquire i s) (\<lambda>s.
        if \<not> ivalid (inodes s ! i) then
          kbind (bread (idev (inodes s ! i)) (IBLOCK (inum (inodes s ! i)) (sb s)) s) (\<lambda>(bp, s).
          kbind (brelse bp (upd_inode i
                   (load_dinode (bdata (bufs s ! bp)) (dinode_off (inum (inodes s ! i)))) s)) (\<lambda>s.
          let s = upd_inode i (\<lambda>ip. ip\<lparr>ivalid := True\<rparr>) s in
          if itype (inodes s ! i) = 0 then Inl (Panic ''ilock: no type'') else Inr s))
        else Inr s))"

definition iunlock :: "nat option \<Rightarrow> 'a fsstate_scheme \<Rightarrow> 'a fsstate_scheme res" where
  "iunlock ip s =
     (case ip of None \<Rightarrow> Inl (Panic ''iunlock'') | Some i \<Rightarrow>
      if \<not> holdingsleep (inode_lock (inodes s ! i)) s \<or> iref (inodes s ! i) < 1
      then Inl (Panic ''iunlock'')
      else Inr (inode_release i s))"

section \<open>Inode content\<close>

definition set_addr :: "nat \<Rightarrow> nat \<Rightarrow> nat \<Rightarrow> 'a fsstate_scheme \<Rightarrow> 'a fsstate_scheme" where
  "set_addr i k a s = upd_inode i (\<lambda>ip. ip\<lparr>iaddrs := (iaddrs ip)[k := a]\<rparr>) s"

text \<open>\<open>if((addr = ip->addrs[k]) == 0) ip->addrs[k] = addr = balloc(ip->dev)\<close>\<close>

definition addr_or_alloc :: "nat \<Rightarrow> nat \<Rightarrow> 'a fsstate_scheme \<Rightarrow> (nat \<times> 'a fsstate_scheme) res" where
  "addr_or_alloc i k s =
     (let addr = iaddrs (inodes s ! i) ! k in
      if addr = 0 then
        kbind (balloc (idev (inodes s ! i)) s) (\<lambda>(addr, s). Inr (addr, set_addr i k addr s))
      else Inr (addr, s))"

definition bmap :: "nat \<Rightarrow> nat \<Rightarrow> 'a fsstate_scheme \<Rightarrow> (nat \<times> 'a fsstate_scheme) res" where
  "bmap i bn s =
     (if bn < NDIRECT then addr_or_alloc i bn s
      else
        let bn = bn - NDIRECT in
        if bn < NINDIRECT then
          kbind (addr_or_alloc i NDIRECT s) (\<lambda>(addr, s).
          kbind (bread (idev (inodes s ! i)) addr s) (\<lambda>(bp, s).
            let addr = unat (get32 (bdata (bufs s ! bp)) (4 * bn)) in
            if addr = 0 then
              kbind (balloc (idev (inodes s ! i)) s) (\<lambda>(addr, s).
              kbind (log_write bp (set_data bp
                       (put32 (bdata (bufs s ! bp)) (4 * bn) (of_nat addr)) s)) (\<lambda>s.
              kbind (brelse bp s) (\<lambda>s. Inr (addr, s))))
            else kbind (brelse bp s) (\<lambda>s. Inr (addr, s))))
        else Inl (Panic ''bmap: out of range''))"

definition itrunc :: "nat \<Rightarrow> 'a fsstate_scheme \<Rightarrow> 'a fsstate_scheme res" where
  "itrunc i s =
     kbind (kfor (\<lambda>k s.
         if iaddrs (inodes s ! i) ! k \<noteq> 0 then
           kbind (bfree (idev (inodes s ! i)) (iaddrs (inodes s ! i) ! k) s) (\<lambda>s.
           Inr (set_addr i k 0 s))
         else Inr s) [0..<NDIRECT] s) (\<lambda>s.
     kbind (if iaddrs (inodes s ! i) ! NDIRECT \<noteq> 0 then
         kbind (bread (idev (inodes s ! i)) (iaddrs (inodes s ! i) ! NDIRECT) s) (\<lambda>(bp, s).
         kbind (kfor (\<lambda>j s.
             let a = unat (get32 (bdata (bufs s ! bp)) (4 * j)) in
             if a \<noteq> 0 then bfree (idev (inodes s ! i)) a s else Inr s) [0..<NINDIRECT] s) (\<lambda>s.
         kbind (brelse bp s) (\<lambda>s.
         kbind (bfree (idev (inodes s ! i)) (iaddrs (inodes s ! i) ! NDIRECT) s) (\<lambda>s.
         Inr (set_addr i NDIRECT 0 s)))))
       else Inr s) (\<lambda>s.
     iupdate i (upd_inode i (\<lambda>ip. ip\<lparr>isize := 0\<rparr>) s)))"

definition iput :: "nat \<Rightarrow> 'a fsstate_scheme \<Rightarrow> 'a fsstate_scheme res" where
  "iput i s =
     kbind (if iref (inodes s ! i) = 1 \<and> ivalid (inodes s ! i) \<and> inlink (inodes s ! i) = 0 then
         kbind (inode_acquire i s) (\<lambda>s.
         kbind (itrunc i s) (\<lambda>s.
         kbind (iupdate i (upd_inode i (\<lambda>ip. ip\<lparr>itype := 0\<rparr>) s)) (\<lambda>s.
         Inr (inode_release i (upd_inode i (\<lambda>ip. ip\<lparr>ivalid := False\<rparr>) s)))))
       else Inr s) (\<lambda>s.
     Inr (upd_inode i (\<lambda>ip. ip\<lparr>iref := iref ip - 1\<rparr>) s))"

definition iunlockput :: "nat \<Rightarrow> 'a fsstate_scheme \<Rightarrow> 'a fsstate_scheme res" where
  "iunlockput i s = kbind (iunlock (Some i) s) (\<lambda>s. iput i s)"

record stat =
  st_dev :: nat
  st_ino :: nat
  st_type :: u16
  st_nlink :: u16
  st_size :: nat

definition stati :: "nat \<Rightarrow> 'a fsstate_scheme \<Rightarrow> stat" where
  "stati i s = (let ip = inodes s ! i in
     \<lparr>st_dev = idev ip, st_ino = inum ip, st_type = itype ip, st_nlink = inlink ip,
      st_size = isize ip\<rparr>)"


text \<open>
  Where \<open>readi\<close> copies to and \<open>writei\<close> from: a user virtual address, or a kernel object. The
  bytes read are also the result, which is how a kernel caller receives them; a kernel
  source is given by its bytes.
\<close>

datatype copy_dst = User_dst u64 | Kernel_dst
datatype copy_src = User_src u64 | Kernel_src "byte list"

definition readi_copy ::
  "copy_dst \<Rightarrow> nat \<Rightarrow> byte list \<Rightarrow> 'a pstate_scheme \<Rightarrow> (int \<times> 'a pstate_scheme) res" where
  "readi_copy dst tot d s =
     (case dst of User_dst va \<Rightarrow> either_copyout True (va + of_nat tot) d s | Kernel_dst \<Rightarrow> Inr (0, s))"

definition writei_copy ::
  "copy_src \<Rightarrow> nat \<Rightarrow> nat \<Rightarrow> 'a pstate_scheme \<Rightarrow> (int \<times> byte list) res" where
  "writei_copy src tot m s =
     (case src of User_src va \<Rightarrow> either_copyin True (va + of_nat tot) m s
      | Kernel_src d \<Rightarrow> Inr (0, slice tot m d))"

lemma block_rest_pos: "0 < BSIZE - off mod BSIZE"
  by (simp add: BSIZE_def)

function readi_loop ::
  "nat \<Rightarrow> copy_dst \<Rightarrow> nat \<Rightarrow> nat \<Rightarrow> nat \<Rightarrow> 'a fsstate_scheme \<Rightarrow>
     (int \<times> byte list \<times> 'a fsstate_scheme) res" where
  "readi_loop i dst off tot n s =
     (if tot < n then
        kbind (bmap i (off div BSIZE) s) (\<lambda>(addr, s).
        kbind (bread (idev (inodes s ! i)) addr s) (\<lambda>(bp, s).
          let m = min (n - tot) (BSIZE - off mod BSIZE);
              d = slice (off mod BSIZE) m (bdata (bufs s ! bp)) in
          kbind (readi_copy dst tot d s) (\<lambda>(r, s).
          kbind (brelse bp s) (\<lambda>s.
            if r = - 1 then Inr (- 1, [], s)
            else kbind (readi_loop i dst (off + m) (tot + m) n s) (\<lambda>(r, ds, s). Inr (r, d @ ds, s))))))
      else Inr (int tot, [], s))"
  by pat_completeness auto
termination
  by (relation "measure (\<lambda>(i, dst, off, tot, n, s). n - tot)")
    (auto simp: block_rest_pos, simp add: BSIZE_def)

declare readi_loop.simps [simp del]

definition readi ::
  "nat \<Rightarrow> copy_dst \<Rightarrow> nat \<Rightarrow> nat \<Rightarrow> 'a fsstate_scheme \<Rightarrow> (int \<times> byte list \<times> 'a fsstate_scheme) res" where
  "readi i dst off n s =
     (let sz = isize (inodes s ! i) in
      if off > sz \<or> (off + n) mod 2 ^ 32 < off then Inr (0, [], s)
      else readi_loop i dst off 0 (if (off + n) mod 2 ^ 32 > sz then sz - off else n) s)"

function writei_loop ::
  "nat \<Rightarrow> copy_src \<Rightarrow> nat \<Rightarrow> nat \<Rightarrow> nat \<Rightarrow> 'a fsstate_scheme \<Rightarrow>
     (nat \<times> nat \<times> 'a fsstate_scheme) res" where
  "writei_loop i src off tot n s =
     (if tot < n then
        kbind (bmap i (off div BSIZE) s) (\<lambda>(addr, s).
        kbind (bread (idev (inodes s ! i)) addr s) (\<lambda>(bp, s).
          let m = min (n - tot) (BSIZE - off mod BSIZE) in
          kbind (writei_copy src tot m s) (\<lambda>(r, d).
            let s = set_data bp (splice_at (off mod BSIZE) d (bdata (bufs s ! bp))) s in
            if r = - 1 then kbind (brelse bp s) (\<lambda>s. Inr (tot, off, s))
            else
              kbind (log_write bp s) (\<lambda>s.
              kbind (brelse bp s) (\<lambda>s.
              writei_loop i src (off + m) (tot + m) n s)))))
      else Inr (tot, off, s))"
  by pat_completeness auto
termination
  by (relation "measure (\<lambda>(i, src, off, tot, n, s). n - tot)")
    (auto simp: block_rest_pos, simp add: BSIZE_def)

declare writei_loop.simps [simp del]

definition writei ::
  "nat \<Rightarrow> copy_src \<Rightarrow> nat \<Rightarrow> nat \<Rightarrow> 'a fsstate_scheme \<Rightarrow> (int \<times> 'a fsstate_scheme) res" where
  "writei i src off n s =
     (if off > isize (inodes s ! i) \<or> (off + n) mod 2 ^ 32 < off then Inr (- 1, s)
      else if (off + n) mod 2 ^ 32 > MAXFILE * BSIZE then Inr (- 1, s)
      else
        kbind (writei_loop i src off 0 n s) (\<lambda>(tot, off, s).
        kbind (iupdate i (if off > isize (inodes s ! i)
                          then upd_inode i (\<lambda>ip. ip\<lparr>isize := off\<rparr>) s else s)) (\<lambda>s.
        Inr (int tot, s))))"

section \<open>Directories\<close>

definition namecmp :: "cptr \<Rightarrow> cptr \<Rightarrow> int" where
  "namecmp s t = strncmp s t DIRSIZ"

text \<open>A \<open>struct dirent\<close> is 16 bytes: the inode number and the name.\<close>

definition de_inum :: "byte list \<Rightarrow> nat" where
  "de_inum de = unat (get16 de 0)"

definition de_name :: "byte list \<Rightarrow> cptr" where
  "de_name de = (\<lambda>k. de ! (2 + k))"

definition de_make :: "nat \<Rightarrow> cptr \<Rightarrow> byte list" where
  "de_make n name = word_bytes 2 (of_nat n :: u16) @ map (strncpy (\<lambda>_. 0) name (int DIRSIZ)) [0..<DIRSIZ]"

function dirlookup_from ::
  "nat \<Rightarrow> cptr \<Rightarrow> nat \<Rightarrow> nat \<Rightarrow> 'a fsstate_scheme \<Rightarrow> ((nat \<times> nat) option \<times> 'a fsstate_scheme) res" where
  "dirlookup_from i name off sz s =
     (if off < sz then
        kbind (readi i Kernel_dst off 16 s) (\<lambda>(r, de, s).
          if r \<noteq> 16 then Inl (Panic ''dirlookup read'')
          else if de_inum de = 0 then dirlookup_from i name (off + 16) sz s
          else if namecmp name (de_name de) = 0 then
            kbind (iget (idev (inodes s ! i)) (de_inum de) s) (\<lambda>(j, s). Inr (Some (j, off), s))
          else dirlookup_from i name (off + 16) sz s)
      else Inr (None, s))"
  by pat_completeness auto
termination
  by (relation "measure (\<lambda>(i, name, off, sz, s). sz - off)") auto

declare dirlookup_from.simps [simp del]

text \<open>The result carries the entry's offset, which the code stores through \<open>poff\<close>.\<close>

definition dirlookup ::
  "nat \<Rightarrow> cptr \<Rightarrow> 'a fsstate_scheme \<Rightarrow> ((nat \<times> nat) option \<times> 'a fsstate_scheme) res" where
  "dirlookup i name s =
     (if itype (inodes s ! i) \<noteq> T_DIR then Inl (Panic ''dirlookup not DIR'')
      else dirlookup_from i name 0 (isize (inodes s ! i)) s)"

text \<open>The second loop of \<open>dirlink\<close>: the offset of the first empty entry, or the end.\<close>

function dirlink_slot ::
  "nat \<Rightarrow> nat \<Rightarrow> nat \<Rightarrow> 'a fsstate_scheme \<Rightarrow> (nat \<times> 'a fsstate_scheme) res" where
  "dirlink_slot i off sz s =
     (if off < sz then
        kbind (readi i Kernel_dst off 16 s) (\<lambda>(r, de, s).
          if r \<noteq> 16 then Inl (Panic ''dirlink read'')
          else if de_inum de = 0 then Inr (off, s)
          else dirlink_slot i (off + 16) sz s)
      else Inr (off, s))"
  by pat_completeness auto
termination
  by (relation "measure (\<lambda>(i, off, sz, s). sz - off)") auto

declare dirlink_slot.simps [simp del]

definition dirlink :: "nat \<Rightarrow> cptr \<Rightarrow> nat \<Rightarrow> 'a fsstate_scheme \<Rightarrow> (int \<times> 'a fsstate_scheme) res" where
  "dirlink i name n s =
     kbind (dirlookup i name s) (\<lambda>(r, s).
       case r of
         Some (j, _) \<Rightarrow> kbind (iput j s) (\<lambda>s. Inr (- 1, s))
       | None \<Rightarrow>
           kbind (dirlink_slot i 0 (isize (inodes s ! i)) s) (\<lambda>(off, s).
           kbind (writei i (Kernel_src (de_make n name)) off 16 s) (\<lambda>(r, s).
             if r \<noteq> 16 then Inl (Panic ''dirlink'') else Inr (0, s))))"

section \<open>Paths\<close>

abbreviation slash :: byte where "slash \<equiv> 47"

definition skipelem :: "byte list \<Rightarrow> cptr \<Rightarrow> (byte list \<times> cptr) option" where
  "skipelem path name =
     (let path = dropWhile (\<lambda>c. c = slash) path in
      if path = [] then None
      else
        let e = takeWhile (\<lambda>c. c \<noteq> slash) path;
            path = dropWhile (\<lambda>c. c \<noteq> slash) path;
            len = length e;
            name' = (if len \<ge> DIRSIZ then (\<lambda>k. if k < DIRSIZ then e ! k else name k)
                     else (\<lambda>k. if k < len then e ! k else name k)(len := 0))
        in Some (dropWhile (\<lambda>c. c = slash) path, name'))"

lemma length_dropWhile_less: "xs \<noteq> [] \<Longrightarrow> P (hd xs) \<Longrightarrow> length (dropWhile P xs) < length xs"
  by (cases xs) (auto simp: le_imp_less_Suc length_dropWhile_le)

lemma skipelem_shorter: "skipelem path name = Some (path', name') \<Longrightarrow> length path' < length path"
proof -
  assume a: "skipelem path name = Some (path', name')"
  define p where "p = dropWhile (\<lambda>c. c = slash) path"
  have ne: "p \<noteq> []" and e: "path' = dropWhile (\<lambda>c. c = slash) (dropWhile (\<lambda>c. c \<noteq> slash) p)"
    using a by (auto simp: skipelem_def Let_def p_def split: if_splits)
  have "hd p \<noteq> slash" using ne unfolding p_def by (metis (mono_tags) hd_dropWhile)
  then have "length (dropWhile (\<lambda>c. c \<noteq> slash) p) < length p" using ne by (rule_tac length_dropWhile_less) auto
  moreover have "length p \<le> length path" by (simp add: p_def length_dropWhile_le)
  moreover have "length path' \<le> length (dropWhile (\<lambda>c. c \<noteq> slash) p)" by (simp add: e length_dropWhile_le)
  ultimately show ?thesis by linarith
qed

function namex_loop ::
  "nat \<Rightarrow> byte list \<Rightarrow> bool \<Rightarrow> cptr \<Rightarrow> 'a fsstate_scheme \<Rightarrow>
     (nat option \<times> cptr \<times> 'a fsstate_scheme) res" where
  "namex_loop i path nameiparent name s =
     (case skipelem path name of
        Some (path, name) \<Rightarrow>
          kbind (ilock (Some i) s) (\<lambda>s.
            if itype (inodes s ! i) \<noteq> T_DIR then
              kbind (iunlockput i s) (\<lambda>s. Inr (None, name, s))
            else if nameiparent \<and> path = [] then
              kbind (iunlock (Some i) s) (\<lambda>s. Inr (Some i, name, s))
            else
              kbind (dirlookup i name s) (\<lambda>(r, s).
                case r of
                  None \<Rightarrow> kbind (iunlockput i s) (\<lambda>s. Inr (None, name, s))
                | Some (j, _) \<Rightarrow>
                    kbind (iunlockput i s) (\<lambda>s. namex_loop j path nameiparent name s)))
      | None \<Rightarrow>
          if nameiparent then kbind (iput i s) (\<lambda>s. Inr (None, name, s))
          else Inr (Some i, name, s))"
  by pat_completeness auto
termination
  by (relation "measure (\<lambda>(i, path, np, name, s). length path)") (auto simp: skipelem_shorter)

declare namex_loop.simps [simp del]

definition namex ::
  "byte list \<Rightarrow> bool \<Rightarrow> cptr \<Rightarrow> 'a fsstate_scheme \<Rightarrow> (nat option \<times> cptr \<times> 'a fsstate_scheme) res" where
  "namex path nameiparent name s =
     kbind (if path \<noteq> [] \<and> hd path = slash then iget ROOTDEV ROOTINO s
            else Inr (idup (the (cwd (procs s ! myproc s))) s)) (\<lambda>(i, s).
     namex_loop i path nameiparent name s)"

definition namei :: "byte list \<Rightarrow> 'a fsstate_scheme \<Rightarrow> (nat option \<times> 'a fsstate_scheme) res" where
  "namei path s = kbind (namex path False (\<lambda>_. 0) s) (\<lambda>(r, _, s). Inr (r, s))"

definition nameiparent ::
  "byte list \<Rightarrow> cptr \<Rightarrow> 'a fsstate_scheme \<Rightarrow> (nat option \<times> cptr \<times> 'a fsstate_scheme) res" where
  "nameiparent path name s = namex path True name s"

end
