(* ===== verification/Pipe.thy ===== *)
theory Pipe
  imports Fs Ring
begin

text \<open>
  \<open>kernel/pipe.c\<close> without \<open>pipealloc\<close> (in \<open>File\<close>). A pipe lives in a page from \<open>kalloc\<close>; \<open>pipes\<close>
  maps the page's address to the struct. The counters \<open>nread\<close> and \<open>nwrite\<close> are 32-bit and wrap.
  The loops run up to their return (\<open>Some r\<close>), or up to the point where they sleep (\<open>None\<close>) with
  the loop variable they resume with.
\<close>

definition PIPESIZE :: nat where "PIPESIZE = 512"

record pipe =
  pdata :: "byte list"
  nread :: u32
  nwrite :: u32
  readopen :: bool
  writeopen :: bool

record pipestate = fsstate +
  pipes :: "u64 \<Rightarrow> pipe"

definition zero_pipestate :: pipestate where
  "zero_pipestate = fsstate.extend zero_fsstate (pipestate.fields (\<lambda>_. \<lparr>pdata = replicate PIPESIZE 0,
     nread = 0, nwrite = 0, readopen = False, writeopen = False\<rparr>))"

definition upd_pipe :: "u64 \<Rightarrow> (pipe \<Rightarrow> pipe) \<Rightarrow> 'a pipestate_scheme \<Rightarrow> 'a pipestate_scheme" where
  "upd_pipe pi f s = s\<lparr>pipes := (pipes s)(pi := f (pipes s pi))\<rparr>"

definition pipeclose :: "u64 \<Rightarrow> bool \<Rightarrow> 'a pipestate_scheme \<Rightarrow> 'a pipestate_scheme res" where
  "pipeclose pi writable s =
     (let s = (if writable
               then wakeup (Some (Ch_pipe_nread pi)) (upd_pipe pi (\<lambda>p. p\<lparr>writeopen := False\<rparr>) s)
               else wakeup (Some (Ch_pipe_nwrite pi)) (upd_pipe pi (\<lambda>p. p\<lparr>readopen := False\<rparr>) s))
      in if \<not> readopen (pipes s pi) \<and> \<not> writeopen (pipes s pi) then kfree pi s else Inr s)"

definition pipe_full :: "pipe \<Rightarrow> bool" where
  "pipe_full p \<longleftrightarrow> nwrite p = nread p + of_nat PIPESIZE"

definition pipe_put :: "byte \<Rightarrow> pipe \<Rightarrow> pipe" where
  "pipe_put ch p = p\<lparr>pdata := (pdata p)[unat (nwrite p) mod PIPESIZE := ch], nwrite := nwrite p + 1\<rparr>"

definition pipe_get :: "pipe \<Rightarrow> byte \<times> pipe" where
  "pipe_get p = (pdata p ! (unat (nread p) mod PIPESIZE), p\<lparr>nread := nread p + 1\<rparr>)"

function pipewrite_run ::
  "u64 \<Rightarrow> u64 \<Rightarrow> nat \<Rightarrow> nat \<Rightarrow> 'a pipestate_scheme \<Rightarrow> ((int option \<times> nat) \<times> 'a pipestate_scheme) res" where
  "pipewrite_run pi addr i n s =
     (if i < n then
        if \<not> readopen (pipes s pi) \<or> killed (procs s ! myproc s) then Inr ((Some (- 1), i), s)
        else if pipe_full (pipes s pi) then Inr ((None, i), wakeup (Some (Ch_pipe_nread pi)) s)
        else kbind (copyin (pagetable (procs s ! myproc s)) (addr + of_nat i) 1 s) (\<lambda>(r, bs).
          if r = - 1 then Inr ((Some (int i), i), wakeup (Some (Ch_pipe_nread pi)) s)
          else pipewrite_run pi addr (i + 1) n (upd_pipe pi (pipe_put (hd bs)) s))
      else Inr ((Some (int i), i), wakeup (Some (Ch_pipe_nread pi)) s))"
  by pat_completeness auto
termination
  by (relation "measure (\<lambda>(pi, addr, i, n, s). n - i)") auto

declare pipewrite_run.simps [simp del]

definition pipewrite :: "u64 \<Rightarrow> u64 \<Rightarrow> int \<Rightarrow> 'a pipestate_scheme \<Rightarrow> (int \<times> 'a pipestate_scheme) res" where
  "pipewrite pi addr n s =
     kbind (pipewrite_run pi addr 0 (nat n) s) (\<lambda>((r, _), s).
       case r of Some r \<Rightarrow> Inr (r, s) | None \<Rightarrow> Inl (Sleep (Ch_pipe_nwrite pi)))"

function piperead_loop ::
  "u64 \<Rightarrow> u64 \<Rightarrow> nat \<Rightarrow> nat \<Rightarrow> 'a pipestate_scheme \<Rightarrow> (int \<times> 'a pipestate_scheme) res" where
  "piperead_loop pi addr i n s =
     (if i < n then
        if nread (pipes s pi) = nwrite (pipes s pi) then Inr (int i, s)
        else case pipe_get (pipes s pi) of (ch, p) \<Rightarrow>
          kbind (copyout (pagetable (procs s ! myproc s)) (addr + of_nat i) [ch] (upd_pipe pi (\<lambda>_. p) s)) (\<lambda>(r, s).
            if r = - 1 then Inr (int i, s) else piperead_loop pi addr (i + 1) n s)
      else Inr (int i, s))"
  by pat_completeness auto
termination
  by (relation "measure (\<lambda>(pi, addr, i, n, s). n - i)") auto

declare piperead_loop.simps [simp del]

definition piperead_run ::
  "u64 \<Rightarrow> u64 \<Rightarrow> int \<Rightarrow> 'a pipestate_scheme \<Rightarrow> (int option \<times> 'a pipestate_scheme) res" where
  "piperead_run pi addr n s =
     (if nread (pipes s pi) = nwrite (pipes s pi) \<and> writeopen (pipes s pi) then
        if killed (procs s ! myproc s) then Inr (Some (- 1), s) else Inr (None, s)
      else kbind (piperead_loop pi addr 0 (nat n) s) (\<lambda>(r, s).
        Inr (Some r, wakeup (Some (Ch_pipe_nwrite pi)) s)))"

definition piperead :: "u64 \<Rightarrow> u64 \<Rightarrow> int \<Rightarrow> 'a pipestate_scheme \<Rightarrow> (int \<times> 'a pipestate_scheme) res" where
  "piperead pi addr n s =
     kbind (piperead_run pi addr n s) (\<lambda>(r, s).
       case r of Some r \<Rightarrow> Inr (r, s) | None \<Rightarrow> Inl (Sleep (Ch_pipe_nread pi)))"

section \<open>The pipe is a queue\<close>

interpretation pipe_ring: ring_size PIPESIZE "TYPE(32)"
  by unfold_locales (simp_all add: PIPESIZE_def)

definition pipe_ok :: "pipe \<Rightarrow> bool" where
  "pipe_ok p \<longleftrightarrow> length (pdata p) = PIPESIZE \<and> unat (nwrite p - nread p) \<le> PIPESIZE"

definition pipe_bytes :: "pipe \<Rightarrow> byte list" where
  "pipe_bytes p = ring (pdata p) (nread p) (nwrite p)"

lemma pipe_full_iff: "pipe_ok p \<Longrightarrow> pipe_full p \<longleftrightarrow> length (pipe_bytes p) = PIPESIZE"
proof -
  assume "pipe_ok p"
  have "nwrite p = nread p + of_nat PIPESIZE \<longleftrightarrow> nwrite p - nread p = of_nat PIPESIZE" by (auto simp: algebra_simps)
  also have "\<dots> \<longleftrightarrow> unat (nwrite p - nread p) = PIPESIZE"
    by (auto simp: PIPESIZE_def unat_of_nat word_unat_eq_iff)
  finally show ?thesis by (simp add: pipe_full_def pipe_bytes_def)
qed

interpretation pipe_fifo: bounded_fifo pipe_ok pipe_bytes pipe_full pipe_put pipe_get
proof
  fix p c
  assume p: "pipe_ok p" "\<not> pipe_full p"
  then have "unat (nwrite p - nread p) < PIPESIZE"
    using pipe_full_iff [OF p(1)] by (simp add: pipe_ok_def pipe_bytes_def)
  then show "pipe_ok (pipe_put c p)" "pipe_bytes (pipe_put c p) = pipe_bytes p @ [c]"
    using pipe_ring.ring_put(1) [where buf = "pdata p" and w = "nwrite p" and r = "nread p" and c = c]
      pipe_ring.ring_put(2) [where buf = "pdata p" and w = "nwrite p" and r = "nread p"] p(1)
    by (simp_all add: pipe_ok_def pipe_bytes_def pipe_put_def)
next
  fix p
  assume p: "pipe_ok p" "pipe_bytes p \<noteq> []"
  then show "pipe_ok (snd (pipe_get p))" "pipe_bytes p = fst (pipe_get p) # pipe_bytes (snd (pipe_get p))"
    using pipe_ring.ring_get [where buf = "pdata p" and w = "nwrite p" and r = "nread p"]
    by (auto simp: pipe_ok_def pipe_bytes_def pipe_get_def)
qed


lemma wakeup_pipes [simp]: "pipes (wakeup c s) = pipes s"
  by (simp add: wakeup_def)

lemma upd_pipe_frame [simp]:
  "pmem (upd_pipe pi f s) = pmem s" "procs (upd_pipe pi f s) = procs s" "cur (upd_pipe pi f s) = cur s"
  "myproc (upd_pipe pi f s) = myproc s"
  by (simp_all add: upd_pipe_def myproc_def)

lemma upd_pipe_same [simp]: "pipes (upd_pipe pi f s) pi = f (pipes s pi)"
  by (simp add: upd_pipe_def)

lemma upd_pipe_other [simp]: "q \<noteq> pi \<Longrightarrow> pipes (upd_pipe pi f s) q = pipes s q"
  by (simp add: upd_pipe_def)

text \<open>The byte the writer fetches from user memory for index \<open>k\<close>.\<close>

definition pipe_src :: "'a pipestate_scheme \<Rightarrow> u64 \<Rightarrow> nat \<Rightarrow> byte" where
  "pipe_src s addr k = hd (snd (projr (copyin (pagetable (procs s ! myproc s)) (addr + of_nat k) 1 s)))"

lemma pipewrite_run_spec:
  assumes "pipewrite_run pi addr i n s = Inr ((r, j), s')" "pipe_ok (pipes s pi)" "i \<le> n"
  shows "i \<le> j \<and> j \<le> n \<and> pipe_ok (pipes s' pi) \<and>
    pipe_bytes (pipes s' pi) = pipe_bytes (pipes s pi) @ map (pipe_src s addr) [i..<j] \<and>
    (r = None \<longrightarrow> j < n \<and> pipe_full (pipes s' pi))"
  using assms
proof (induction pi addr i n s rule: pipewrite_run.induct)
  case (1 pi addr i n s)
  show ?case
  proof (cases "i < n \<and> readopen (pipes s pi) \<and> \<not> killed (procs s ! myproc s) \<and> \<not> pipe_full (pipes s pi)")
    case False
    then show ?thesis using "1.prems"
      by (subst (asm) pipewrite_run.simps) (auto split: if_splits)
  next
    case True
    then obtain q bs where q: "copyin (pagetable (procs s ! myproc s)) (addr + of_nat i) 1 s = Inr (q, bs)"
      using "1.prems"(1) by (subst (asm) pipewrite_run.simps) (auto split: if_splits)
    show ?thesis
    proof (cases "q = - 1")
      case True
      then show ?thesis using "1.prems" q \<open>i < n \<and> _\<close>
        by (subst (asm) pipewrite_run.simps) (auto split: if_splits)
    next
      case q1: False
      define t where "t = upd_pipe pi (pipe_put (hd bs)) s"
      have run: "pipewrite_run pi addr (i + 1) n t = Inr ((r, j), s')"
        using "1.prems"(1) q q1 True by (subst (asm) pipewrite_run.simps) (auto simp: t_def)
      have ok: "pipe_ok (pipes t pi)" "pipe_bytes (pipes t pi) = pipe_bytes (pipes s pi) @ [hd bs]"
        using pipe_fifo.put_ok pipe_fifo.put_items "1.prems"(2) True by (simp_all add: t_def)
      have src: "pipe_src t addr = pipe_src s addr"
        by (rule ext) (simp add: pipe_src_def t_def copyin_cong [of "upd_pipe pi (pipe_put (hd bs)) s" s])
      have hd: "pipe_src s addr i = hd bs" using q by (simp add: pipe_src_def)
      have "i + 1 \<le> j \<and> j \<le> n \<and> pipe_ok (pipes s' pi) \<and>
        pipe_bytes (pipes s' pi) = pipe_bytes (pipes t pi) @ map (pipe_src t addr) [i + 1..<j] \<and>
        (r = None \<longrightarrow> j < n \<and> pipe_full (pipes s' pi))"
        using "1.IH" [OF _ _ _ q refl q1] True run ok(1) unfolding t_def by auto
      then show ?thesis using ok(2) src hd by (auto simp: upt_conv_Cons)
    qed
  qed
qed


section \<open>End to end\<close>

lemma more_frame_pipes: "kmem.more s' = kmem.more (s :: 'a pipestate_scheme) \<Longrightarrow> pipes s' = pipes s"
  by (cases s; cases s'; simp)

lemma pipe_write_bytes:
  assumes "pipewrite_run pi addr i n s = Inr ((r, j), s')" "user_inv s (my_pt s) D ps" "i \<le> n"
  shows "map (pipe_src s addr) [i..<j] = user_bytes s addr [i..<j]"
  using assms
proof (induction pi addr i n s rule: pipewrite_run.induct)
  case (1 pi addr i n s)
  note cb = copyin_byte [OF "1.prems"(2), of "addr + of_nat i"]
  show ?case
  proof (cases "i < n \<and> readopen (pipes s pi) \<and> \<not> killed (procs s ! myproc s) \<and> \<not> pipe_full (pipes s pi) \<and>
      user_page s (my_pt s) (unat (addr + of_nat i) div 4096)")
    case False
    then show ?thesis using "1.prems" cb
      by (subst (asm) pipewrite_run.simps) (auto simp: user_bytes_def split: if_splits)
  next
    case True
    let ?c = "umem s (my_pt s) (unat (addr + of_nat i))"
    define t where "t = upd_pipe pi (pipe_put ?c) s"
    have q: "copyin (my_pt s) (addr + of_nat i) 1 s = Inr (0, [?c])" using cb True by simp
    have run: "pipewrite_run pi addr (i + 1) n t = Inr ((r, j), s')"
      using "1.prems"(1) q True by (subst (asm) pipewrite_run.simps) (auto simp: t_def)
    have inv: "user_inv t (my_pt t) D ps"
      using "1.prems"(2) user_inv_cong [of t s] by (simp add: t_def upd_pipe_def myproc_def)
    have src: "pipe_src t addr = pipe_src s addr" "user_bytes t addr = user_bytes s addr"
      using umem_cong [of t s] by (auto intro!: ext simp: pipe_src_def user_bytes_def t_def
          copyin_cong [of "upd_pipe pi (pipe_put ?c) s" s])
    have "map (pipe_src t addr) [i + 1..<j] = user_bytes t addr [i + 1..<j]"
      using "1.IH" [OF _ _ _ q refl] True run inv unfolding t_def by auto
    moreover have "i < j \<or> j \<le> i" by linarith
    moreover have "pipe_src s addr i = ?c" using q by (simp add: pipe_src_def)
    ultimately show ?thesis using src by (auto simp: user_bytes_def le_less Suc_le_eq)
  qed
qed


lemma copyout_byte_fails:
  assumes "user_inv s root D ps" "\<not> user_page s root (unat va div 4096)"
  shows "copyout root va [c] s = Inr (- 1, s)"
proof -
  have "\<not> user_range s root (unat va) (length [c])" using assms(2) by (auto simp: user_range_def)
  then obtain s' where s': "copyout root va [c] s = Inr (- 1, s')" using copyout_spec [OF assms(1), of va "[c]"] by auto
  have "chunk va 1 = 1" using chunk_pos [of 1 va] by (auto simp: chunk_def Let_def)
  then show ?thesis using s' by (auto simp: copyout.simps [of root va "[c]"] copyout.simps [of _ _ "[]"] Let_def kbind_eq_Inr split: if_splits)
qed

text \<open>
  What a read takes out of the pipe: the bytes it delivers and, when it stops at an address of its buffer that is not
  user memory, one byte more. \<open>piperead\<close> advances \<open>nread\<close> before it copies the byte out.
\<close>

definition read_faults :: "u64 \<Rightarrow> nat \<Rightarrow> nat \<Rightarrow> u64 \<Rightarrow> 'a pipestate_scheme \<Rightarrow> bool" where
  "read_faults addr n m pi s \<longleftrightarrow> m < n \<and> m < length (pipe_bytes (pipes s pi)) \<and>
     \<not> user_page s (my_pt s) (unat (addr + of_nat m) div 4096)"

lemma piperead_loop_spec:
  assumes "user_inv s (my_pt s) D ps" "pipe_ok (pipes s pi)" "i \<le> n" "n < 2 ^ 32"
  shows "\<exists>m s' lost. piperead_loop pi addr i n s = Inr (int m, s') \<and> i \<le> m \<and> m \<le> n \<and>
    user_inv s' (my_pt s) D ps \<and> procs s' = procs s \<and> cur s' = cur s \<and> pipe_ok (pipes s' pi) \<and>
    pipe_bytes (pipes s pi) = user_bytes s' addr [i..<m] @ lost @ pipe_bytes (pipes s' pi) \<and>
    length lost = (if m < n \<and> m - i < length (pipe_bytes (pipes s pi)) then 1 else 0) \<and>
    (lost \<noteq> [] \<longrightarrow> \<not> user_page s (my_pt s) (unat (addr + of_nat m) div 4096)) \<and>
    (\<forall>k\<in>{i..<m}. user_page s (my_pt s) (unat (addr + of_nat k) div 4096)) \<and>
    (\<forall>y. y div 4096 \<in> D \<and> (\<forall>k\<in>{i..<n}. y \<noteq> unat (addr + of_nat k)) \<longrightarrow> umem s' (my_pt s) y = umem s (my_pt s) y)"
  using assms
proof (induction "n - i" arbitrary: i s)
  case 0
  then have "piperead_loop pi addr i n s = Inr (int i, s)" by (simp add: piperead_loop.simps)
  then show ?case using 0 by (intro exI [of _ i] exI [of _ s] exI [of _ "[]"]) (simp add: user_bytes_def)
next
  case (Suc d)
  then have i: "i < n" by simp
  show ?case
  proof (cases "nread (pipes s pi) = nwrite (pipes s pi)")
    case True
    then have "piperead_loop pi addr i n s = Inr (int i, s)" using i by (simp add: piperead_loop.simps)
    moreover have "pipe_bytes (pipes s pi) = []" using True by (simp add: pipe_bytes_def)
    ultimately show ?thesis using Suc.prems by (intro exI [of _ i] exI [of _ s] exI [of _ "[]"]) (simp add: user_bytes_def)
  next
    case False
    obtain c p where g: "pipe_get (pipes s pi) = (c, p)" by fastforce
    have ne: "pipe_bytes (pipes s pi) \<noteq> []" using False by (auto simp: pipe_bytes_def)
    note gc = pipe_fifo.get_cases [OF Suc.prems(2) ne g]
    define t where "t = upd_pipe pi (\<lambda>_. p) s"
    have t: "pmem t = pmem s" "my_pt t = my_pt s" "procs t = procs s" "cur t = cur s" "freelist t = freelist s"
      "pipes t pi = p" by (simp_all add: t_def upd_pipe_def myproc_def)
    have it: "user_inv t (my_pt s) D ps" using Suc.prems(1) user_inv_cong [OF t(1,5)] by simp
    have tpg: "user_page t (my_pt s) k = user_page s (my_pt s) k" for k using t(1) by (simp add: user_page_def)
    show ?thesis
    proof (cases "user_page s (my_pt s) (unat (addr + of_nat i) div 4096)")
      case no: False
      have "copyout (my_pt s) (addr + of_nat i) [c] t = Inr (- 1, t)" using copyout_byte_fails [OF it] no tpg by simp
      then have "piperead_loop pi addr i n s = Inr (int i, t)"
        using i False g by (subst piperead_loop.simps) (simp add: t_def)
      moreover have "umem t (my_pt s) y = umem s (my_pt s) y" for y using umem_cong [OF t(1)] by simp
      ultimately show ?thesis using i it t gc no
        by (intro exI [of _ i] exI [of _ t] exI [of _ "[c]"]) (simp add: user_bytes_def)
    next
      case pg: True
      obtain u where u: "copyout (my_pt s) (addr + of_nat i) [c] t = Inr (0, u)" "user_written (my_pt s) D ps t u"
        "\<And>y. y div 4096 \<in> D \<Longrightarrow> umem u (my_pt s) y = (if y = unat (addr + of_nat i) then c else umem t (my_pt s) y)"
        using copyout_byte [OF it] pg tpg by blast
      have fr: "kmem.more u = kmem.more t" using copyout_frame [OF u(1)] by simp
      note mf = more_frame [OF fr] more_frame_pipes [OF fr]
      have iu: "user_inv u (my_pt u) D ps" using u(2) mf t by (simp add: user_written_def)
      have upg: "user_page u (my_pt u) k = user_page s (my_pt s) k" for k
        using user_page_written [OF u(2)] tpg mf t by simp
      have d: "d = n - (i + 1)" using Suc.hyps(2) by simp
      have pk: "pipe_ok (pipes u pi)" "i + 1 \<le> n" using gc(1) mf t i by simp_all
      obtain m s' lost where ih: "piperead_loop pi addr (i + 1) n u = Inr (int m, s')" "i + 1 \<le> m" "m \<le> n"
        "user_inv s' (my_pt u) D ps" "procs s' = procs u" "cur s' = cur u" "pipe_ok (pipes s' pi)"
        "pipe_bytes (pipes u pi) = user_bytes s' addr [i + 1..<m] @ lost @ pipe_bytes (pipes s' pi)"
        "length lost = (if m < n \<and> m - (i + 1) < length (pipe_bytes (pipes u pi)) then 1 else 0)"
        "lost \<noteq> [] \<longrightarrow> \<not> user_page u (my_pt u) (unat (addr + of_nat m) div 4096)"
        "\<forall>k\<in>{i + 1..<m}. user_page u (my_pt u) (unat (addr + of_nat k) div 4096)"
        "\<forall>y. y div 4096 \<in> D \<and> (\<forall>k\<in>{i + 1..<n}. y \<noteq> unat (addr + of_nat k)) \<longrightarrow> umem s' (my_pt u) y = umem u (my_pt u) y"
        using Suc.hyps(1) [OF d iu pk(1) pk(2) Suc.prems(4)] by blast
      have run: "piperead_loop pi addr i n s = Inr (int m, s')"
        using i False g u(1) ih(1) t(2) by (subst piperead_loop.simps) (simp add: t_def)
      have mp: "my_pt u = my_pt s" "my_pt s' = my_pt s" using mf t ih(5,6) by (simp_all add: myproc_def)
      have D: "unat (addr + of_nat i) div 4096 \<in> D" using it pg tpg by (simp add: user_inv_def)
      have "\<forall>k\<in>{i + 1..<n}. unat (addr + of_nat i) \<noteq> unat (addr + of_nat k)"
        using addr_inj [of i _ addr] i Suc.prems(4) by auto
      then have "umem s' (my_pt s) (unat (addr + of_nat i)) = c"
        using ih(12) D u(3) [OF D] mp by auto
      then have ub: "user_bytes s' addr [i..<m] = c # user_bytes s' addr [i + 1..<m]"
        using ih(2) mp by (simp add: user_bytes_def upt_conv_Cons)
      have keep: "umem s' (my_pt s) y = umem s (my_pt s) y"
        if y: "y div 4096 \<in> D" "\<forall>k\<in>{i..<n}. y \<noteq> unat (addr + of_nat k)" for y
      proof -
        have "umem s' (my_pt s) y = umem u (my_pt s) y" using ih(12) y mp by auto
        also have "\<dots> = umem t (my_pt s) y" using u(3) [OF y(1)] y(2) i by auto
        finally show ?thesis using umem_cong [OF t(1)] by simp
      qed
      have all: "\<forall>k\<in>{i..<m}. user_page s (my_pt s) (unat (addr + of_nat k) div 4096)"
        using ih(11) pg unfolding upg by (auto simp: le_less Suc_le_eq)
      have len: "length lost = (if m < n \<and> m - i < length (pipe_bytes (pipes s pi)) then 1 else 0)"
        using ih(2,9) gc(2) mf t by auto
      show ?thesis
        using run ih(2-7,8,10) mp ub keep gc(2) mf t all len unfolding upg
        by (intro exI [of _ m] exI [of _ s'] exI [of _ lost]) auto
    qed
  qed
qed

section \<open>Properties\<close>

text \<open>
  A run of the system as one pipe sees it, with the bytes its writers took from their memory
  and what became of the bytes its readers took out: \<open>Some c\<close> for a byte found in the reader's
  memory, \<open>None\<close> for one that a faulting read lost. Writers and readers run in any order, each up
  to its return or its next sleep and in any process with a well-formed address space; in between
  anything may happen that leaves the queue alone, including closing an end.
\<close>

inductive pipe_trace ::
  "u64 \<Rightarrow> 'a pipestate_scheme \<Rightarrow> byte list \<Rightarrow> byte option list \<Rightarrow> 'a pipestate_scheme \<Rightarrow> bool" for pi s where
  trace_start: "pipe_trace pi s [] [] s"
| trace_write: "pipe_trace pi s ib ob t \<Longrightarrow> user_inv t (my_pt t) D ps \<Longrightarrow> i \<le> n \<Longrightarrow>
    pipewrite_run pi addr i n t = Inr ((r, j), u) \<Longrightarrow>
    pipe_trace pi s (ib @ user_bytes t addr [i..<j]) ob u"
| trace_read: "pipe_trace pi s ib ob t \<Longrightarrow> user_inv t (my_pt t) D ps \<Longrightarrow> n < 2 ^ 31 \<Longrightarrow>
    piperead_run pi addr n t = Inr (Some r, u) \<Longrightarrow>
    pipe_trace pi s ib (ob @ map Some (user_bytes u addr [0..<nat r]) @
      (if read_faults addr (nat n) (nat r) pi t then [None] else [])) u"
| trace_other: "pipe_trace pi s ib ob t \<Longrightarrow> pdata (pipes u pi) = pdata (pipes t pi) \<Longrightarrow>
    nread (pipes u pi) = nread (pipes t pi) \<Longrightarrow> nwrite (pipes u pi) = nwrite (pipes t pi) \<Longrightarrow>
    pipe_trace pi s ib ob u"

lemma piperead_run_spec:
  assumes "piperead_run pi addr n s = Inr (Some r, s')" "user_inv s (my_pt s) D ps" "pipe_ok (pipes s pi)" "n < 2 ^ 31"
  shows "\<exists>lost. pipe_ok (pipes s' pi) \<and>
    pipe_bytes (pipes s pi) = user_bytes s' addr [0..<nat r] @ lost @ pipe_bytes (pipes s' pi) \<and>
    length lost = (if read_faults addr (nat n) (nat r) pi s then 1 else 0)"
proof (cases "nread (pipes s pi) = nwrite (pipes s pi) \<and> writeopen (pipes s pi)")
  case True
  then have "pipe_bytes (pipes s pi) = []" by (simp add: pipe_bytes_def)
  then show ?thesis using True assms(1,3) by (auto simp: piperead_run_def user_bytes_def read_faults_def split: if_splits)
next
  case False
  have n32: "nat n < 2 ^ 32" using assms(4) by simp
  obtain m t lost where l: "piperead_loop pi addr 0 (nat n) s = Inr (int m, t)" "procs t = procs s" "cur t = cur s"
    "pipe_ok (pipes t pi)" "pipe_bytes (pipes s pi) = user_bytes t addr [0..<m] @ lost @ pipe_bytes (pipes t pi)"
    "length lost = (if m < nat n \<and> m - 0 < length (pipe_bytes (pipes s pi)) then 1 else 0)"
    "lost \<noteq> [] \<longrightarrow> \<not> user_page s (my_pt s) (unat (addr + of_nat m) div 4096)"
    using piperead_loop_spec [OF assms(2,3) le0 n32, of addr] by blast
  have s': "s' = wakeup (Some (Ch_pipe_nwrite pi)) t" "r = int m"
    using assms(1) False l(1) by (auto simp: piperead_run_def)
  have ub: "user_bytes s' addr = user_bytes t addr" and pb: "pipes s' = pipes t" and r: "nat r = m"
    using umem_cong [of s' t] s' by (simp_all add: user_bytes_def fun_eq_iff)
  have "length lost = (if read_faults addr (nat n) m pi s then 1 else 0)"
    using l(6,7) by (cases lost) (auto simp: read_faults_def split: if_splits)
  then show ?thesis unfolding ub pb r using l(4,5) by blast
qed

text \<open>What was written as the readers may see it: the same bytes in the same places, some of them lost.\<close>

definition received :: "byte option list \<Rightarrow> byte list \<Rightarrow> bool" where
  "received = list_all2 (\<lambda>ob c. ob = None \<or> ob = Some c)"

lemma received_append: "received ob xs \<Longrightarrow> received ob' ys \<Longrightarrow> received (ob @ ob') (xs @ ys)"
  by (simp add: received_def list_all2_appendI)

lemma received_all: "received (map Some xs) xs" "length ys = length lost \<Longrightarrow> set lost \<subseteq> {None} \<Longrightarrow> received lost ys"
  by (auto simp: received_def list_all2_conv_all_nth dest: nth_mem)

lemma received_exact: "received ob xs \<Longrightarrow> None \<notin> set ob \<Longrightarrow> ob = map Some xs"
  unfolding received_def by (induction rule: list_all2_induct) auto

lemma pipe_trace_inv:
  assumes "pipe_trace pi s ib ob s'" "pipe_ok (pipes s pi)"
  shows "pipe_ok (pipes s' pi) \<and>
    (\<exists>taken. pipe_bytes (pipes s pi) @ ib = taken @ pipe_bytes (pipes s' pi) \<and> received ob taken)"
  using assms
proof (induction rule: pipe_trace.induct)
  case trace_start
  then show ?case by (auto simp: received_def)
next
  case (trace_write ib ob t D ps i n addr r j u)
  then obtain taken where "pipe_bytes (pipes s pi) @ ib = taken @ pipe_bytes (pipes t pi)" "received ob taken" "pipe_ok (pipes t pi)"
    by blast
  then show ?case
    using pipewrite_run_spec [OF trace_write.hyps(4) _ trace_write.hyps(3)] pipe_write_bytes [OF trace_write.hyps(4,2,3)]
    by (auto intro!: exI [of _ taken] simp flip: append_assoc)
next
  case (trace_read ib ob t D ps n addr r u)
  then obtain taken where t: "pipe_bytes (pipes s pi) @ ib = taken @ pipe_bytes (pipes t pi)" "received ob taken" "pipe_ok (pipes t pi)"
    by blast
  from piperead_run_spec [OF trace_read.hyps(4,2) t(3) trace_read.hyps(3)]
  obtain lost where l: "pipe_ok (pipes u pi)"
    "pipe_bytes (pipes t pi) = user_bytes u addr [0..<nat r] @ lost @ pipe_bytes (pipes u pi)"
    "length lost = (if read_faults addr (nat n) (nat r) pi t then 1 else 0)" by blast
  have "received (if read_faults addr (nat n) (nat r) pi t then [None] else []) lost"
    by (rule received_all(2)) (use l(3) in auto)
  then have "received (ob @ map Some (user_bytes u addr [0..<nat r]) @ (if read_faults addr (nat n) (nat r) pi t then [None] else []))
    (taken @ user_bytes u addr [0..<nat r] @ lost)"
    by (intro received_append t(2) received_all(1))
  then show ?case using t(1) l(1,2) by auto
next
  case (trace_other ib ob t u)
  then show ?case by (simp add: pipe_ok_def pipe_bytes_def)
qed

text \<open>C26: The bytes readers find in their memory are the bytes writers had in theirs, in order and
  without duplication: in every run of writers and readers in processes with well-formed address
  spaces, what was in the pipe followed by everything written is what readers took out followed by
  what is still in the pipe, which never exceeds its capacity. Every byte taken out is delivered
  unchanged, except the one byte a read loses when it stops at an address of its buffer that is
  not user memory; without such a read nothing is lost. The 32-bit counters may wrap.\<close>

theorem pipe_is_fifo:
  assumes "pipe_trace pi s ib ob s'" "pipe_ok (pipes s pi)"
  shows "(\<exists>taken. pipe_bytes (pipes s pi) @ ib = taken @ pipe_bytes (pipes s' pi) \<and> received ob taken) \<and>
    (None \<notin> set ob \<longrightarrow> map Some (pipe_bytes (pipes s pi) @ ib) = ob @ map Some (pipe_bytes (pipes s' pi))) \<and>
    length (pipe_bytes (pipes s' pi)) \<le> PIPESIZE"
proof (intro conjI impI)
  note inv = pipe_trace_inv [OF assms]
  then show "\<exists>taken. pipe_bytes (pipes s pi) @ ib = taken @ pipe_bytes (pipes s' pi) \<and> received ob taken" by blast
  show "length (pipe_bytes (pipes s' pi)) \<le> PIPESIZE" using inv by (simp add: pipe_ok_def pipe_bytes_def)
  show "map Some (pipe_bytes (pipes s pi) @ ib) = ob @ map Some (pipe_bytes (pipes s' pi))" if "None \<notin> set ob"
    using inv received_exact [OF _ that] by (metis map_append)
qed

text \<open>A process with two pages of user memory and a pipe whose counters are about to wrap.\<close>

definition pipe_start :: "kmem \<Rightarrow> u64 \<Rightarrow> pipestate" where
  "pipe_start k root = zero_pipestate\<lparr>pmem := pmem k, freelist := freelist k,
     procs := [zero_proc\<lparr>pagetable := root, pst := RUNNING\<rparr>], cur := Some 0,
     pipes := (\<lambda>_. \<lparr>pdata = replicate PIPESIZE 0, nread = - 1, nwrite = - 1, readopen = True, writeopen = True\<rparr>)\<rparr>"

lemma pipe_start_user:
  obtains k :: kmem and root ps where "user_inv (pipe_start k root) root {..<2} ps" "user_page (pipe_start k root) root 0"
    "my_pt (pipe_start k root) = root" "\<not> killed (procs (pipe_start k root) ! myproc (pipe_start k root))"
proof -
  have b: "unat (0x2000 :: u64) \<le> 255 * 4096" by simp
  have n: "npg 0x2000 = 2" by (simp add: npg_def)
  obtain k :: kmem and root ps where k: "user_inv k root {..<2} ps" "\<forall>i<2. user_page k root i"
    using boot_user [OF b] unfolding n by blast
  have s: "pmem (pipe_start k root) = pmem k" "freelist (pipe_start k root) = freelist k"
    by (simp_all add: pipe_start_def)
  show ?thesis
    by (rule that [of k root ps])
      (use k user_inv_cong [OF s] s(1) in \<open>simp_all add: user_page_def pipe_start_def myproc_def zero_proc_def\<close>)
qed

lemma pipe_write_one:
  assumes "user_inv s (my_pt s) D ps" "user_page s (my_pt s) 0" "\<not> killed (procs s ! myproc s)" "readopen (pipes s 0)"
    "\<not> pipe_full (pipes s 0)"
  shows "pipewrite_run 0 0 0 1 s = Inr ((Some 1, 1), wakeup (Some (Ch_pipe_nread 0)) (upd_pipe 0 (pipe_put (umem s (my_pt s) 0)) s))"
  using copyin_byte [OF assms(1), of 0] assms by (simp add: pipewrite_run.simps)

lemma pipe_read_one:
  assumes "user_inv s (my_pt s) D ps" "user_page s (my_pt s) 0" "pipe_ok (pipes s 0)" "length (pipe_bytes (pipes s 0)) = 1"
  obtains s' where "piperead_run 0 1 1 s = Inr (Some 1, s')"
proof -
  have n: "(1 :: nat) < 2 ^ 32" by simp
  obtain m t and lost :: "byte list" where v: "piperead_loop 0 1 0 1 s = Inr (int m, t)" "m \<le> 1"
    "length lost = (if m < 1 \<and> m - 0 < length (pipe_bytes (pipes s 0)) then 1 else 0)"
    "lost \<noteq> [] \<longrightarrow> \<not> user_page s (my_pt s) (unat (1 + of_nat m :: u64) div 4096)"
    using piperead_loop_spec [OF assms(1,3) le0 n, of 1] by blast
  have "m = 1" using v(2-4) assms(2,4) by (cases "m = 0") auto
  moreover have "nread (pipes s 0) \<noteq> nwrite (pipes s 0)" using assms(4) by (auto simp: pipe_bytes_def)
  ultimately show ?thesis using v(1) by (intro that) (simp add: piperead_run_def)
qed

theorem pipe_is_fifo_witness:
  "\<exists>(s :: pipestate) u v c. pipewrite_run 0 0 0 1 s = Inr ((Some 1, 1), u) \<and>
     piperead_run 0 1 1 u = Inr (Some 1, v) \<and> pipe_trace 0 s [c] [Some c] v \<and>
     map Some (pipe_bytes (pipes s 0) @ [c]) = [Some c] @ map Some (pipe_bytes (pipes v 0))"
proof -
  obtain k :: kmem and root ps where k: "user_inv (pipe_start k root) root {..<2} ps" "user_page (pipe_start k root) root 0"
    "my_pt (pipe_start k root) = root" "\<not> killed (procs (pipe_start k root) ! myproc (pipe_start k root))"
    by (rule pipe_start_user)
  define s where "s = pipe_start k root"
  note s = k [folded s_def]
  have p: "nread (pipes s 0) = - 1" "nwrite (pipes s 0) = - 1" "readopen (pipes s 0)" "pipe_ok (pipes s 0)"
    "\<not> pipe_full (pipes s 0)" "pipe_bytes (pipes s 0) = []"
    by (simp_all add: s_def pipe_start_def pipe_ok_def pipe_full_def pipe_bytes_def PIPESIZE_def)
  define c where "c = umem s root 0"
  define u where "u = wakeup (Some (Ch_pipe_nread 0)) (upd_pipe 0 (pipe_put c) s)"
  have inv: "user_inv s (my_pt s) {..<2} ps" using s(1,3) by simp
  have w: "pipewrite_run 0 0 0 1 s = Inr ((Some 1, 1), u)"
    using pipe_write_one [OF inv] s(2-4) p unfolding u_def c_def by simp
  have t1: "pipe_trace 0 s ([] @ user_bytes s 0 [0..<1]) [] u" by (rule trace_write [OF trace_start inv _ w]) simp
  have ub: "user_bytes s 0 [0..<1] = [c]" using s(3) by (simp add: user_bytes_def c_def)
  have u: "pmem u = pmem s" "freelist u = freelist s" "my_pt u = root"
    using s(3) by (simp_all add: u_def) (simp add: upd_pipe_def)
  have invu: "user_inv u (my_pt u) {..<2} ps" using inv user_inv_cong [OF u(1,2)] u(3) s(3) by simp
  have pgu: "user_page u (my_pt u) 0" using s(2) u by (simp add: user_page_def)
  have oku: "pipe_ok (pipes u 0)" "pipe_bytes (pipes u 0) = [c]"
    using pipe_fifo.put_ok [OF p(4,5), of c] pipe_fifo.put_items [OF p(4,5), of c] p(6) by (simp_all add: u_def)
  obtain v where r: "piperead_run 0 1 1 u = Inr (Some 1, v)" using pipe_read_one [OF invu pgu oku(1)] oku(2) by auto
  have nf: "\<not> read_faults 1 (nat 1) (nat 1) 0 u" by (simp add: read_faults_def)
  have t2: "pipe_trace 0 s [c] (map Some (user_bytes v 1 [0..<nat 1])) v"
    using trace_read [OF t1 [unfolded ub, simplified] invu _ r] nf by simp
  have nn: "None \<notin> set (map Some (user_bytes v 1 [0..<nat 1]))" by auto
  have f: "map Some (pipe_bytes (pipes s 0) @ [c]) = map Some (user_bytes v 1 [0..<nat 1]) @ map Some (pipe_bytes (pipes v 0))"
    using pipe_is_fifo [OF t2 p(4)] nn by blast
  then have "user_bytes v 1 [0..<nat 1] = [c]" using p(6) by (auto simp: user_bytes_def)
  then show ?thesis using w r t2 f by auto
qed







end
