(* ===== verification/File.thy ===== *)
theory File
  imports Pipe
begin

text \<open>
  \<open>kernel/file.c\<close> and \<open>pipealloc\<close>: the table of open files. A file is its index in \<open>ftable\<close>.
\<close>

definition NFILE :: nat where "NFILE = 100"
definition NDEV :: nat where "NDEV = 10"

datatype ftype = FD_NONE | FD_PIPE | FD_INODE | FD_DEVICE

record kfile =
  ftype :: ftype
  fref :: int
  readable :: bool
  writable :: bool
  fpipe :: u64
  fip :: nat
  foff :: nat
  fmajor :: u16

record filestate = pipestate +
  ftable :: "kfile list"

definition zero_filestate :: filestate where
  "zero_filestate = pipestate.extend zero_pipestate (filestate.fields (replicate NFILE
     \<lparr>ftype = FD_NONE, fref = 0, readable = False, writable = False, fpipe = 0, fip = 0, foff = 0, fmajor = 0\<rparr>))"

definition upd_file :: "nat \<Rightarrow> (kfile \<Rightarrow> kfile) \<Rightarrow> 'a filestate_scheme \<Rightarrow> 'a filestate_scheme" where
  "upd_file f g s = s\<lparr>ftable := (ftable s)[f := g (ftable s ! f)]\<rparr>"

fun file_scan :: "nat \<Rightarrow> kfile list \<Rightarrow> nat option" where
  "file_scan i [] = None"
| "file_scan i (f # fs) = (if fref f = 0 then Some i else file_scan (Suc i) fs)"

definition filealloc :: "'a filestate_scheme \<Rightarrow> nat option \<times> 'a filestate_scheme" where
  "filealloc s =
     (case file_scan 0 (ftable s) of
        Some f \<Rightarrow> (Some f, upd_file f (\<lambda>x. x\<lparr>fref := 1\<rparr>) s)
      | None \<Rightarrow> (None, s))"

definition filedup :: "nat \<Rightarrow> 'a filestate_scheme \<Rightarrow> (nat \<times> 'a filestate_scheme) res" where
  "filedup f s =
     (if fref (ftable s ! f) < 1 then Inl (Panic ''filedup'')
      else Inr (f, upd_file f (\<lambda>x. x\<lparr>fref := fref x + 1\<rparr>) s))"

definition fileclose :: "nat \<Rightarrow> 'a filestate_scheme \<Rightarrow> 'a filestate_scheme res" where
  "fileclose f s =
     (if fref (ftable s ! f) < 1 then Inl (Panic ''fileclose'')
      else
        let s = upd_file f (\<lambda>x. x\<lparr>fref := fref x - 1\<rparr>) s in
        if fref (ftable s ! f) > 0 then Inr s
        else
          let ff = ftable s ! f;
              s = upd_file f (\<lambda>x. x\<lparr>fref := 0, ftype := FD_NONE\<rparr>) s
          in case ftype ff of
               FD_PIPE \<Rightarrow> pipeclose (fpipe ff) (writable ff) s
             | FD_NONE \<Rightarrow> Inr s
             | _ \<Rightarrow> kbind (begin_op s) (\<lambda>s. kbind (iput (fip ff) s) end_op))"

text \<open>
  \<open>struct stat\<close> in memory: the four bytes between \<open>nlink\<close> and \<open>size\<close> are padding, whose value
  \<open>pad\<close> is whatever the kernel stack held.
\<close>

definition stat_bytes :: "byte list \<Rightarrow> stat \<Rightarrow> byte list" where
  "stat_bytes pad st =
     word_bytes 4 (of_nat (st_dev st) :: u32) @ word_bytes 4 (of_nat (st_ino st) :: u32) @
     word_bytes 2 (st_type st) @ word_bytes 2 (st_nlink st) @ pad @
     word_bytes 8 (of_nat (st_size st) :: u64)"

definition filestat ::
  "byte list \<Rightarrow> nat \<Rightarrow> u64 \<Rightarrow> 'a filestate_scheme \<Rightarrow> (int \<times> 'a filestate_scheme) res" where
  "filestat pad f addr s =
     (let ff = ftable s ! f in
      if ftype ff = FD_INODE \<or> ftype ff = FD_DEVICE then
        kbind (ilock (Some (fip ff)) s) (\<lambda>s.
        let st = stati (fip ff) s in
        kbind (iunlock (Some (fip ff)) s) (\<lambda>s.
        kbind (copyout (pagetable (procs s ! myproc s)) addr (stat_bytes pad st) s) (\<lambda>(r, s).
          Inr (if r < 0 then - 1 else 0, s))))
      else Inr (- 1, s))"

text \<open>The device behind a major number; \<open>None\<close> when the code rejects it.\<close>

definition dev_lookup :: "u16 \<Rightarrow> 'a cstate_scheme \<Rightarrow> device option" where
  "dev_lookup m s =
     (if sint m < 0 \<or> sint m \<ge> int NDEV then None else devsw s ! nat (sint m))"

definition fileread :: "nat \<Rightarrow> u64 \<Rightarrow> int \<Rightarrow> 'a filestate_scheme \<Rightarrow> (int \<times> 'a filestate_scheme) res" where
  "fileread f addr n s =
     (let ff = ftable s ! f in
      if \<not> readable ff then Inr (- 1, s)
      else case ftype ff of
        FD_PIPE \<Rightarrow> piperead (fpipe ff) addr n s
      | FD_DEVICE \<Rightarrow>
          (case dev_lookup (fmajor ff) s of
             None \<Rightarrow> Inr (- 1, s)
           | Some Console_dev \<Rightarrow> consoleread True addr n s)
      | FD_INODE \<Rightarrow>
          kbind (ilock (Some (fip ff)) s) (\<lambda>s.
          kbind (readi (fip ff) (User_dst addr) (foff ff) (nat (n mod 2 ^ 32)) s) (\<lambda>(r, _, s).
          let s = (if r > 0 then upd_file f (\<lambda>x. x\<lparr>foff := (foff x + nat r) mod 2 ^ 32\<rparr>) s else s) in
          kbind (iunlock (Some (fip ff)) s) (\<lambda>s.
          Inr (r, s))))
      | FD_NONE \<Rightarrow> Inl (Panic ''fileread''))"

definition max_write :: nat where
  "max_write = ((MAXOPBLOCKS - 1 - 1 - 2) div 2) * BSIZE"

function filewrite_loop ::
  "nat \<Rightarrow> u64 \<Rightarrow> nat \<Rightarrow> nat \<Rightarrow> 'a filestate_scheme \<Rightarrow> (nat \<times> 'a filestate_scheme) res" where
  "filewrite_loop f addr i n s =
     (if i < n then
        let n1 = min (n - i) max_write; ip = fip (ftable s ! f) in
        kbind (begin_op s) (\<lambda>s.
        kbind (ilock (Some ip) s) (\<lambda>s.
        kbind (writei ip (User_src (addr + of_nat i)) (foff (ftable s ! f)) n1 s) (\<lambda>(r, s).
        let s = (if r > 0 then upd_file f (\<lambda>x. x\<lparr>foff := (foff x + nat r) mod 2 ^ 32\<rparr>) s else s) in
        kbind (iunlock (Some ip) s) (\<lambda>s.
        kbind (end_op s) (\<lambda>s.
          if r \<noteq> int n1 then Inr (i, s) else filewrite_loop f addr (i + n1) n s)))))
      else Inr (i, s))"
  by pat_completeness auto
termination
  by (relation "measure (\<lambda>(f, addr, i, n, s). n - i)")
    (auto simp: max_write_def MAXOPBLOCKS_def BSIZE_def)

declare filewrite_loop.simps [simp del]

definition filewrite :: "nat \<Rightarrow> u64 \<Rightarrow> int \<Rightarrow> 'a filestate_scheme \<Rightarrow> (int \<times> 'a filestate_scheme) res" where
  "filewrite f addr n s =
     (let ff = ftable s ! f in
      if \<not> writable ff then Inr (- 1, s)
      else case ftype ff of
        FD_PIPE \<Rightarrow> pipewrite (fpipe ff) addr n s
      | FD_DEVICE \<Rightarrow>
          (case dev_lookup (fmajor ff) s of
             None \<Rightarrow> Inr (- 1, s)
           | Some Console_dev \<Rightarrow> consolewrite True addr n s)
      | FD_INODE \<Rightarrow>
          kbind (filewrite_loop f addr 0 (nat n) s) (\<lambda>(i, s).
          Inr (if int i = n then n else - 1, s))
      | FD_NONE \<Rightarrow> Inl (Panic ''filewrite''))"

section \<open>pipealloc (pipe.c)\<close>

definition pipealloc :: "'a filestate_scheme \<Rightarrow> ((nat \<times> nat) option \<times> 'a filestate_scheme) res" where
  "pipealloc s =
     (case filealloc s of
        (None, s) \<Rightarrow> Inr (None, s)
      | (Some f0, s) \<Rightarrow>
        (case filealloc s of
           (None, s) \<Rightarrow> kbind (fileclose f0 s) (\<lambda>s. Inr (None, s))
         | (Some f1, s) \<Rightarrow>
           (case kalloc s of (pi, s) \<Rightarrow>
              if pi = 0 then
                kbind (fileclose f0 s) (\<lambda>s. kbind (fileclose f1 s) (\<lambda>s. Inr (None, s)))
              else
                let s = upd_pipe pi (\<lambda>p. p\<lparr>readopen := True, writeopen := True, nwrite := 0, nread := 0\<rparr>) s;
                    s = upd_file f0 (\<lambda>x. x\<lparr>ftype := FD_PIPE, readable := True, writable := False, fpipe := pi\<rparr>) s;
                    s = upd_file f1 (\<lambda>x. x\<lparr>ftype := FD_PIPE, readable := False, writable := True, fpipe := pi\<rparr>) s
                in Inr (Some (f0, f1), s))))"

end
