(* ===== verification/ProcLife.thy ===== *)
theory ProcLife
  imports File
begin

text \<open>
  The operations of \<open>kernel/proc.c\<close> that need the file system: creating the first process,
  \<open>fork\<close> and \<open>exit\<close>.
\<close>

definition initcode :: "byte list" where
  "initcode =
    [0x04, 0x00, 0x00, 0x1c, 0x84, 0x00, 0xc1, 0x28,
     0x05, 0x00, 0x00, 0x1c, 0xa5, 0x00, 0xc1, 0x28,
     0x0b, 0x1c, 0x80, 0x03, 0x00, 0x00, 0x2b, 0x00,
     0x0b, 0x08, 0x80, 0x03, 0x00, 0x00, 0x2b, 0x00,
     0xff, 0xfb, 0xff, 0x57, 0x2f, 0x69, 0x6e, 0x69,
     0x74, 0x00, 0x00, 0x00, 0x24, 0x00, 0x00, 0x00,
     0x00, 0x00, 0x00, 0x00, 0x00, 0x00, 0x00, 0x00,
     0x00, 0x00, 0x00, 0x00, 0x00, 0x00, 0x00, 0x00,
     0x24, 0x00, 0x00, 0x00, 0x00, 0x00, 0x00, 0x00,
     0x2c, 0x00, 0x00, 0x00, 0x00, 0x00, 0x00, 0x00]"

text \<open>A string literal as a C string.\<close>

definition cstring :: "byte list \<Rightarrow> cptr" where
  "cstring bs = (\<lambda>k. if k < length bs then bs ! k else 0)"

text \<open>\<open>userinit\<close> uses the result of \<open>allocproc\<close> without a test; a null result is undefined.\<close>

definition userinit :: "'a filestate_scheme \<Rightarrow> 'a filestate_scheme res" where
  "userinit s =
     kbind (allocproc s) (\<lambda>(r, s).
     let s = s\<lparr>initproc := r\<rparr> in
     case r of None \<Rightarrow> Inl Undef | Some i \<Rightarrow>
       kbind (uvminit (pagetable (procs s ! i)) initcode s) (\<lambda>s.
       let s = upd_proc i (\<lambda>p. p\<lparr>psz := of_nat PGSIZE\<rparr>) s;
           s = tf_store i TF_era 0 s;
           s = tf_store i TF_sp (of_nat PGSIZE) s;
           s = upd_proc i (\<lambda>p. p\<lparr>pname := safestrcpy (pname p) (cstring (ascii ''initcode'')) 16\<rparr>) s
       in kbind (namei [slash] s) (\<lambda>(d, s).
       Inr (init_link i d s))))"

definition fork_files :: "nat \<Rightarrow> nat \<Rightarrow> 'a filestate_scheme \<Rightarrow> 'a filestate_scheme res" where
  "fork_files i np s =
     kfor (\<lambda>fd s. case ofile (procs s ! i) ! fd of
           Some f \<Rightarrow> kbind (filedup f s) (\<lambda>(f, s).
             Inr (upd_proc np (\<lambda>p. p\<lparr>ofile := (ofile p)[fd := Some f]\<rparr>) s))
         | None \<Rightarrow> Inr s) [0..<NOFILE] s"

definition fork :: "'a filestate_scheme \<Rightarrow> (int \<times> 'a filestate_scheme) res" where
  "fork s =
     (let i = myproc s in
      kbind (allocproc s) (\<lambda>(r, s).
      case r of None \<Rightarrow> Inr (- 1, s) | Some np \<Rightarrow>
        kbind (uvmcopy (pagetable (procs s ! i)) (pagetable (procs s ! np)) (psz (procs s ! i)) s) (\<lambda>(r, s).
        if r < 0 then kbind (freeproc np s) (\<lambda>s. Inr (- 1, s))
        else
          let s = upd_proc np (\<lambda>p. p\<lparr>psz := psz (procs s ! i)\<rparr>) s;
              s = s\<lparr>pmem := store_bytes (pmem s) (trapframe (procs s ! np))
                             (load_bytes (pmem s) (trapframe (procs s ! i)) TF_size)\<rparr>;
              s = tf_store np TF_a0 0 s
          in kbind (fork_files i np s) (\<lambda>s.
             case idup (the (cwd (procs s ! i))) s of (d, s) \<Rightarrow>
             let s = upd_proc np (\<lambda>p. p\<lparr>cwd := Some d\<rparr>) s;
                 s = upd_proc np (\<lambda>p. p\<lparr>pname := safestrcpy (pname p) (pname (procs s ! i)) 16\<rparr>) s;
                 n = sint (pid (procs s ! np))
             in Inr (n, fork_link i np s)))))"

text \<open>\<open>exit\<close> up to its call of \<open>sched\<close>, from which it never returns.\<close>

definition exit_files :: "nat \<Rightarrow> 'a filestate_scheme \<Rightarrow> 'a filestate_scheme res" where
  "exit_files i s =
     kfor (\<lambda>fd s. case ofile (procs s ! i) ! fd of
           Some f \<Rightarrow> kbind (fileclose f s) (\<lambda>s.
             Inr (upd_proc i (\<lambda>p. p\<lparr>ofile := (ofile p)[fd := None]\<rparr>) s))
         | None \<Rightarrow> Inr s) [0..<NOFILE] s"

definition exit :: "u32 \<Rightarrow> 'a filestate_scheme \<Rightarrow> 'a filestate_scheme res" where
  "exit status s =
     (let i = myproc s in
      if Some i = initproc s then Inl (Panic ''init exiting'')
      else
        kbind (exit_files i s) (\<lambda>s.
        kbind (begin_op s) (\<lambda>s.
        kbind (iput (the (cwd (procs s ! i))) s) (\<lambda>s.
        kbind (end_op s) (\<lambda>s.
        Inr (exit_leave i status (upd_proc i (\<lambda>p. p\<lparr>cwd := None\<rparr>) s)))))))"

end
