(* ===== verification/Exec.thy ===== *)
theory Exec
  imports ProcLife
begin

text \<open>
  \<open>kernel/exec.c\<close>: replacing the image of the current process. \<open>argv\<close> is the list of argument
  strings without their NUL. The C function jumps to \<open>bad\<close> with \<open>pagetable\<close>, \<open>sz\<close> and \<open>ip\<close> as
  they are then; here every failing branch calls \<open>exec_bad\<close> with them.
\<close>

definition ELF_MAGIC :: u32 where "ELF_MAGIC = 0x464C457F"
definition ELF_PROG_LOAD :: u32 where "ELF_PROG_LOAD = 1"
definition MAXARG :: nat where "MAXARG = 32"

definition get64 :: "byte list \<Rightarrow> nat \<Rightarrow> u64" where
  "get64 d i = bytes_word (slice i 8 d)"

text \<open>The fields of \<open>struct elfhdr\<close> (64 bytes) and \<open>struct proghdr\<close> (56 bytes) \<open>exec\<close> uses.\<close>

record elfhdr =
  elf_magic :: u32
  elf_entry :: u64
  elf_phoff :: u64
  elf_phnum :: u16

record proghdr =
  ph_type :: u32
  ph_off :: u64
  ph_vaddr :: u64
  ph_filesz :: u64
  ph_memsz :: u64

definition decode_elf :: "byte list \<Rightarrow> elfhdr" where
  "decode_elf d = \<lparr>elf_magic = get32 d 0, elf_entry = get64 d 24, elf_phoff = get64 d 32,
     elf_phnum = get16 d 56\<rparr>"

definition decode_ph :: "byte list \<Rightarrow> proghdr" where
  "decode_ph d = \<lparr>ph_type = get32 d 0, ph_off = get64 d 8, ph_vaddr = get64 d 16,
     ph_filesz = get64 d 32, ph_memsz = get64 d 40\<rparr>"

section \<open>Loading segments\<close>

text \<open>
  \<open>offset\<close> and \<open>sz\<close> are 32-bit; \<open>i\<close> counts in pages, so it wraps only after \<open>sz\<close> is passed for
  every \<open>sz\<close> up to \<open>2 ^ 32 - 4096\<close>. The result is \<open>-1\<close> when \<open>readi\<close> came up short.
\<close>

function loadseg_loop ::
  "u64 \<Rightarrow> u64 \<Rightarrow> nat \<Rightarrow> u32 \<Rightarrow> nat \<Rightarrow> nat \<Rightarrow> 'a fsstate_scheme \<Rightarrow> (int \<times> 'a fsstate_scheme) res" where
  "loadseg_loop pt va ip offset i sz s =
     (if i < sz then
        kbind (walkaddr pt (va + of_nat i) s) (\<lambda>pa.
          if pa = 0 then Inl (Panic ''loadseg: address should exist'')
          else
            let n = (if sz - i < PGSIZE then sz - i else PGSIZE) in
            kbind (readi ip Kernel_dst (unat (offset + of_nat i)) n s) (\<lambda>(r, bs, s).
            let s = s\<lparr>pmem := store_bytes (pmem s) (pa OR DMWIN_MASK) bs\<rparr> in
            if r \<noteq> int n then Inr (- 1, s)
            else loadseg_loop pt va ip offset (i + PGSIZE) sz s))
      else Inr (0, s))"
  by pat_completeness auto
termination
  by (relation "measure (\<lambda>(pt, va, ip, offset, i, sz, s). sz - i)") (auto simp: PGSIZE_def)

declare loadseg_loop.simps [simp del]

definition loadseg ::
  "u64 \<Rightarrow> u64 \<Rightarrow> nat \<Rightarrow> u32 \<Rightarrow> u32 \<Rightarrow> 'a fsstate_scheme \<Rightarrow> (int \<times> 'a fsstate_scheme) res" where
  "loadseg pt va ip offset sz s = loadseg_loop pt va ip offset 0 (unat sz) s"

text \<open>The loop over the program headers: success, and the size reached.\<close>

fun exec_load ::
  "u64 \<Rightarrow> nat \<Rightarrow> nat \<Rightarrow> u32 \<Rightarrow> u64 \<Rightarrow> 'a fsstate_scheme \<Rightarrow> (bool \<times> u64 \<times> 'a fsstate_scheme) res" where
  "exec_load pt ip 0 off sz s = Inr (True, sz, s)"
| "exec_load pt ip (Suc k) off sz s =
     kbind (readi ip Kernel_dst (unat off) 56 s) (\<lambda>(r, d, s).
       if r \<noteq> 56 then Inr (False, sz, s)
       else
         let ph = decode_ph d in
         if ph_type ph \<noteq> ELF_PROG_LOAD then exec_load pt ip k (off + 56) sz s
         else if ph_memsz ph < ph_filesz ph then Inr (False, sz, s)
         else if ph_vaddr ph + ph_memsz ph < ph_vaddr ph then Inr (False, sz, s)
         else
           kbind (uvmalloc pt sz (ph_vaddr ph + ph_memsz ph) s) (\<lambda>(sz1, s).
             if sz1 = 0 then Inr (False, sz, s)
             else if unat (ph_vaddr ph) mod PGSIZE \<noteq> 0 then Inr (False, sz1, s)
             else
               kbind (loadseg pt (ph_vaddr ph) ip (ucast (ph_off ph)) (ucast (ph_filesz ph)) s) (\<lambda>(r, s).
                 if r < 0 then Inr (False, sz1, s)
                 else exec_load pt ip k (off + 56) sz1 s)))"

section \<open>Pushing the arguments\<close>

definition align16 :: "u64 \<Rightarrow> u64" where
  "align16 sp = sp - of_nat (unat sp mod 16)"

text \<open>
  The loop over \<open>argv\<close>: \<open>None\<close> when it jumps to \<open>bad\<close>, else the stack pointer and \<open>ustack\<close>.
\<close>

fun push_args ::
  "u64 \<Rightarrow> u64 \<Rightarrow> byte list list \<Rightarrow> u64 \<Rightarrow> u64 list \<Rightarrow> 'a kmem_scheme \<Rightarrow>
     ((u64 \<times> u64 list) option \<times> 'a kmem_scheme) res" where
  "push_args pt stackbase [] sp ustack s = Inr (Some (sp, ustack), s)"
| "push_args pt stackbase (a # as) sp ustack s =
     (if length ustack \<ge> MAXARG then Inr (None, s)
      else
        let sp = align16 (sp - of_nat (length a + 1)) in
        if sp < stackbase then Inr (None, s)
        else kbind (copyout pt sp (a @ [0]) s) (\<lambda>(r, s).
          if r < 0 then Inr (None, s)
          else push_args pt stackbase as sp (ustack @ [sp]) s))"

section \<open>exec\<close>

definition exec_bad ::
  "u64 \<Rightarrow> u64 \<Rightarrow> nat option \<Rightarrow> 'a filestate_scheme \<Rightarrow> (int \<times> 'a filestate_scheme) res" where
  "exec_bad pt sz ip s =
     kbind (if pt \<noteq> 0 then proc_freepagetable pt sz s else Inr s) (\<lambda>s.
       case ip of
         Some i \<Rightarrow> kbind (iunlockput i s) (\<lambda>s. kbind (end_op s) (\<lambda>s. Inr (- 1, s)))
       | None \<Rightarrow> Inr (- 1, s))"

text \<open>The part of the path after its last slash.\<close>

fun last_elem :: "byte list \<Rightarrow> byte list \<Rightarrow> byte list" where
  "last_elem acc [] = acc"
| "last_elem acc (c # cs) = (if c = slash then last_elem cs cs else last_elem acc cs)"

text \<open>From the allocation of the stack on: the inode has been released.\<close>

definition exec_stack ::
  "u64 \<Rightarrow> u64 \<Rightarrow> u64 \<Rightarrow> byte list \<Rightarrow> byte list list \<Rightarrow> 'a filestate_scheme \<Rightarrow>
     (int \<times> 'a filestate_scheme) res" where
  "exec_stack pt sz entry path argv s =
     (let p = myproc s; oldsz = psz (procs s ! p); sz = PGROUNDUP sz in
      kbind (uvmalloc pt sz (sz + 2 * of_nat PGSIZE) s) (\<lambda>(sz1, s).
      if sz1 = 0 then exec_bad pt sz None s
      else
        kbind (uvmclear pt (sz1 - 2 * of_nat PGSIZE) s) (\<lambda>s.
        let stackbase = sz1 - of_nat PGSIZE in
        kbind (push_args pt stackbase argv sz1 [] s) (\<lambda>(r, s).
          case r of
            None \<Rightarrow> exec_bad pt sz1 None s
          | Some (sp, ustack) \<Rightarrow>
              let argc = length ustack;
                  sp = align16 (sp - of_nat (argc + 1) * 8)
              in
              if sp < stackbase then exec_bad pt sz1 None s
              else
                kbind (copyout pt sp (concat (map (word_bytes 8) (ustack @ [0]))) s) (\<lambda>(r, s).
                if r < 0 then exec_bad pt sz1 None s
                else
                  let s = tf_store p TF_a1 sp s;
                      s = upd_proc p (\<lambda>q. q\<lparr>pname := safestrcpy (pname q) (cstring (last_elem path path)) 16\<rparr>) s;
                      oldpt = pagetable (procs s ! p);
                      s = upd_proc p (\<lambda>q. q\<lparr>pagetable := pt, psz := sz1\<rparr>) s;
                      s = tf_store p TF_era entry s;
                      s = tf_store p TF_sp sp s
                  in kbind (proc_freepagetable oldpt oldsz s) (\<lambda>s.
                     Inr (int argc, s)))))))"

definition exec :: "byte list \<Rightarrow> byte list list \<Rightarrow> 'a filestate_scheme \<Rightarrow> (int \<times> 'a filestate_scheme) res" where
  "exec path argv s =
     kbind (begin_op s) (\<lambda>s.
     kbind (namei path s) (\<lambda>(r, s).
     case r of
       None \<Rightarrow> kbind (end_op s) (\<lambda>s. Inr (- 1, s))
     | Some ip \<Rightarrow>
         kbind (ilock (Some ip) s) (\<lambda>s.
         kbind (readi ip Kernel_dst 0 64 s) (\<lambda>(r, d, s).
           if r \<noteq> 64 then exec_bad 0 0 (Some ip) s
           else
             let elf = decode_elf d in
             if elf_magic elf \<noteq> ELF_MAGIC then exec_bad 0 0 (Some ip) s
             else
               kbind (proc_pagetable (myproc s) s) (\<lambda>(pt, s).
               if pt = 0 then exec_bad 0 0 (Some ip) s
               else
                 kbind (exec_load pt ip (unat (elf_phnum elf)) (ucast (elf_phoff elf)) 0 s) (\<lambda>(ok, sz, s).
                 if \<not> ok then exec_bad pt sz (Some ip) s
                 else
                   kbind (iunlockput ip s) (\<lambda>s.
                   kbind (end_op s) (\<lambda>s.
                   exec_stack pt sz (elf_entry elf) path argv s))))))))"

end
