(* ===== verification/Syscall.thy ===== *)
theory Syscall
  imports Exec
begin

text \<open>
  \<open>kernel/syscall.c\<close> (argument fetching) and \<open>kernel/sysproc.c\<close>. System calls return the 64-bit
  value that goes into \<open>a0\<close>. The dispatcher is in \<open>Trap\<close>.
\<close>

section \<open>Arguments\<close>

definition fetchaddr :: "u64 \<Rightarrow> 'a pstate_scheme \<Rightarrow> (int \<times> u64) res" where
  "fetchaddr addr s =
     (let p = procs s ! myproc s in
      if addr \<ge> psz p \<or> addr + 8 > psz p then Inr (- 1, 0)
      else kbind (copyin (pagetable p) addr 8 s) (\<lambda>(r, bs).
        if r \<noteq> 0 then Inr (- 1, 0) else Inr (0, bytes_word bs)))"

text \<open>The length \<open>strlen\<close> finds, and the string without its NUL.\<close>

definition fetchstr :: "u64 \<Rightarrow> nat \<Rightarrow> 'a pstate_scheme \<Rightarrow> (int \<times> byte list) res" where
  "fetchstr addr maxn s =
     kbind (copyinstr (pagetable (procs s ! myproc s)) addr maxn s) (\<lambda>(err, bs).
       if err < 0 then Inr (err, [])
       else let str = takeWhile (\<lambda>b. b \<noteq> 0) bs in Inr (int (length str), str))"

definition argraw :: "nat \<Rightarrow> 'a pstate_scheme \<Rightarrow> u64 res" where
  "argraw n s =
     (if n < 6 then Inr (tf_load (myproc s) ([TF_a0, TF_a1, TF_a2, TF_a3, TF_a4, TF_a5] ! n) s)
      else Inl (Panic ''argraw''))"

definition argint :: "nat \<Rightarrow> 'a pstate_scheme \<Rightarrow> u32 res" where
  "argint n s = kbind (argraw n s) (\<lambda>v. Inr (ucast v))"

definition argaddr :: "nat \<Rightarrow> 'a pstate_scheme \<Rightarrow> u64 res" where
  "argaddr n s = argraw n s"

definition argstr :: "nat \<Rightarrow> nat \<Rightarrow> 'a pstate_scheme \<Rightarrow> (int \<times> byte list) res" where
  "argstr n maxn s = kbind (argaddr n s) (\<lambda>addr. fetchstr addr maxn s)"

section \<open>sysproc.c\<close>

text \<open>\<open>sys_exit\<close> does not return to its caller: the state is the one \<open>exit\<close> switches away with.\<close>

definition sys_exit :: "'a filestate_scheme \<Rightarrow> 'a filestate_scheme res" where
  "sys_exit s = kbind (argint 0 s) (\<lambda>n. exit n s)"

definition sys_getpid :: "'a pstate_scheme \<Rightarrow> (u64 \<times> 'a pstate_scheme) res" where
  "sys_getpid s = Inr (scast (pid (procs s ! myproc s)), s)"

definition sys_fork :: "'a filestate_scheme \<Rightarrow> (u64 \<times> 'a filestate_scheme) res" where
  "sys_fork s = kbind (fork s) (\<lambda>(r, s). Inr (of_int r, s))"

definition sys_wait :: "'a pstate_scheme \<Rightarrow> (u64 \<times> 'a pstate_scheme) res" where
  "sys_wait s = kbind (argaddr 0 s) (\<lambda>p. kbind (wait p s) (\<lambda>(r, s). Inr (of_int r, s)))"

definition sys_sbrk :: "'a pstate_scheme \<Rightarrow> (u64 \<times> 'a pstate_scheme) res" where
  "sys_sbrk s =
     kbind (argint 0 s) (\<lambda>n.
     let addr = (ucast (psz (procs s ! myproc s)) :: u32) in
     kbind (growproc n s) (\<lambda>(r, s).
     Inr (if r < 0 then - 1 else scast addr, s)))"

text \<open>
  One test of the loop in \<open>sys_sleep\<close>: the elapsed ticks and \<open>n\<close> are compared as unsigned
  numbers. \<open>ticks0\<close> is the local variable.
\<close>

definition sleep_test :: "u32 \<Rightarrow> u32 \<Rightarrow> 'a pstate_scheme \<Rightarrow> u64 res" where
  "sleep_test n ticks0 s =
     (if ticks s - ticks0 < n then
        if killed (procs s ! myproc s) then Inr (- 1) else Inl (Sleep Ch_ticks)
      else Inr 0)"

definition sys_sleep :: "'a pstate_scheme \<Rightarrow> (u64 \<times> 'a pstate_scheme) res" where
  "sys_sleep s = kbind (argint 0 s) (\<lambda>n. kbind (sleep_test n (ticks s) s) (\<lambda>r. Inr (r, s)))"

definition sys_kill :: "'a pstate_scheme \<Rightarrow> (u64 \<times> 'a pstate_scheme) res" where
  "sys_kill s = kbind (argint 0 s) (\<lambda>n. case kill n s of (r, s) \<Rightarrow> Inr (of_int r, s))"

definition sys_uptime :: "'a pstate_scheme \<Rightarrow> (u64 \<times> 'a pstate_scheme) res" where
  "sys_uptime s = Inr (ucast (ticks s), s)"

end
