(* ===== verification/Sysfile.thy ===== *)
theory Sysfile
  imports Syscall
begin

text \<open>
  \<open>kernel/sysfile.c\<close>: the file system calls. Most of them check their arguments and compose
  the operations of \<open>Fs\<close>, \<open>File\<close> and \<open>Log\<close>.
\<close>

definition MAXPATH :: nat where "MAXPATH = 128"
definition O_RDONLY :: u32 where "O_RDONLY = 0"
definition O_WRONLY :: u32 where "O_WRONLY = 1"
definition O_RDWR :: u32 where "O_RDWR = 2"
definition O_CREATE :: u32 where "O_CREATE = 0x200"
definition O_TRUNC :: u32 where "O_TRUNC = 0x400"

section \<open>Descriptors\<close>

text \<open>The descriptor and its file; \<open>None\<close> where the code returns \<open>-1\<close>.\<close>

definition argfd :: "nat \<Rightarrow> 'a filestate_scheme \<Rightarrow> (nat \<times> nat) option res" where
  "argfd n s =
     kbind (argint n s) (\<lambda>fd.
       if sint fd < 0 \<or> sint fd \<ge> int NOFILE then Inr None
       else case ofile (procs s ! myproc s) ! unat fd of
         None \<Rightarrow> Inr None
       | Some f \<Rightarrow> Inr (Some (unat fd, f)))"

fun fd_scan :: "nat \<Rightarrow> nat option list \<Rightarrow> nat option" where
  "fd_scan fd [] = None"
| "fd_scan fd (f # fs) = (if f = None then Some fd else fd_scan (Suc fd) fs)"

definition set_fd :: "nat \<Rightarrow> nat option \<Rightarrow> 'a pstate_scheme \<Rightarrow> 'a pstate_scheme" where
  "set_fd fd f s = upd_proc (myproc s) (\<lambda>p. p\<lparr>ofile := (ofile p)[fd := f]\<rparr>) s"

definition fdalloc :: "nat \<Rightarrow> 'a pstate_scheme \<Rightarrow> nat option \<times> 'a pstate_scheme" where
  "fdalloc f s =
     (case fd_scan 0 (ofile (procs s ! myproc s)) of
        Some fd \<Rightarrow> (Some fd, set_fd fd (Some f) s)
      | None \<Rightarrow> (None, s))"

definition sys_dup :: "'a filestate_scheme \<Rightarrow> (u64 \<times> 'a filestate_scheme) res" where
  "sys_dup s =
     kbind (argfd 0 s) (\<lambda>r.
     case r of None \<Rightarrow> Inr (- 1, s) | Some (_, f) \<Rightarrow>
       (case fdalloc f s of
          (None, s) \<Rightarrow> Inr (- 1, s)
        | (Some fd, s) \<Rightarrow> kbind (filedup f s) (\<lambda>(_, s). Inr (of_nat fd, s))))"

definition sys_read :: "'a filestate_scheme \<Rightarrow> (u64 \<times> 'a filestate_scheme) res" where
  "sys_read s =
     kbind (argfd 0 s) (\<lambda>r.
     case r of None \<Rightarrow> Inr (- 1, s) | Some (_, f) \<Rightarrow>
       kbind (argint 2 s) (\<lambda>n. kbind (argaddr 1 s) (\<lambda>p.
       kbind (fileread f p (sint n) s) (\<lambda>(r, s). Inr (of_int r, s)))))"

definition sys_write :: "'a filestate_scheme \<Rightarrow> (u64 \<times> 'a filestate_scheme) res" where
  "sys_write s =
     kbind (argfd 0 s) (\<lambda>r.
     case r of None \<Rightarrow> Inr (- 1, s) | Some (_, f) \<Rightarrow>
       kbind (argint 2 s) (\<lambda>n. kbind (argaddr 1 s) (\<lambda>p.
       kbind (filewrite f p (sint n) s) (\<lambda>(r, s). Inr (of_int r, s)))))"

definition sys_close :: "'a filestate_scheme \<Rightarrow> (u64 \<times> 'a filestate_scheme) res" where
  "sys_close s =
     kbind (argfd 0 s) (\<lambda>r.
     case r of None \<Rightarrow> Inr (- 1, s) | Some (fd, f) \<Rightarrow>
       kbind (fileclose f (set_fd fd None s)) (\<lambda>s. Inr (0, s)))"

definition sys_fstat :: "byte list \<Rightarrow> 'a filestate_scheme \<Rightarrow> (u64 \<times> 'a filestate_scheme) res" where
  "sys_fstat pad s =
     kbind (argfd 0 s) (\<lambda>r.
     case r of None \<Rightarrow> Inr (- 1, s) | Some (_, f) \<Rightarrow>
       kbind (argaddr 1 s) (\<lambda>st. kbind (filestat pad f st s) (\<lambda>(r, s). Inr (of_int r, s))))"

section \<open>Links\<close>

definition add_nlink :: "nat \<Rightarrow> u16 \<Rightarrow> 'a fsstate_scheme \<Rightarrow> 'a fsstate_scheme" where
  "add_nlink i d s = upd_inode i (\<lambda>ip. ip\<lparr>inlink := inlink ip + d\<rparr>) s"

text \<open>End the transaction and return \<open>r\<close>.\<close>

definition end_with :: "'r \<Rightarrow> 'a lstate_scheme \<Rightarrow> ('r \<times> 'a lstate_scheme) res" where
  "end_with r s = kbind (end_op s) (\<lambda>s. Inr (r, s))"

text \<open>The label \<open>bad\<close> of \<open>sys_link\<close>.\<close>

definition link_bad :: "nat \<Rightarrow> 'a filestate_scheme \<Rightarrow> (u64 \<times> 'a filestate_scheme) res" where
  "link_bad ip s =
     kbind (ilock (Some ip) s) (\<lambda>s.
     kbind (iupdate ip (add_nlink ip (- 1) s)) (\<lambda>s.
     kbind (iunlockput ip s) (\<lambda>s.
     end_with (- 1) s)))"

definition sys_link :: "'a filestate_scheme \<Rightarrow> (u64 \<times> 'a filestate_scheme) res" where
  "sys_link s =
     kbind (argstr 0 MAXPATH s) (\<lambda>(r, old).
     if r < 0 then Inr (- 1, s)
     else
       kbind (argstr 1 MAXPATH s) (\<lambda>(r, new).
       if r < 0 then Inr (- 1, s)
       else
         kbind (begin_op s) (\<lambda>s.
         kbind (namei old s) (\<lambda>(r, s).
         case r of
           None \<Rightarrow> end_with (- 1) s
         | Some ip \<Rightarrow>
             kbind (ilock (Some ip) s) (\<lambda>s.
             if itype (inodes s ! ip) = T_DIR then
               kbind (iunlockput ip s) (\<lambda>s. end_with (- 1) s)
             else
               kbind (iupdate ip (add_nlink ip 1 s)) (\<lambda>s.
               kbind (iunlock (Some ip) s) (\<lambda>s.
               kbind (nameiparent new (\<lambda>_. 0) s) (\<lambda>(r, name, s).
               case r of
                 None \<Rightarrow> link_bad ip s
               | Some dp \<Rightarrow>
                   kbind (ilock (Some dp) s) (\<lambda>s.
                   kbind (if idev (inodes s ! dp) \<noteq> idev (inodes s ! ip) then Inr (- 1, s)
                          else dirlink dp name (inum (inodes s ! ip)) s) (\<lambda>(r, s).
                   kbind (iunlockput dp s) (\<lambda>s.
                   if r < 0 then link_bad ip s
                   else kbind (iput ip s) (\<lambda>s. end_with 0 s))))))))))))"

function isdirempty_from :: "nat \<Rightarrow> nat \<Rightarrow> nat \<Rightarrow> 'a fsstate_scheme \<Rightarrow> (bool \<times> 'a fsstate_scheme) res" where
  "isdirempty_from i off sz s =
     (if off < sz then
        kbind (readi i Kernel_dst off 16 s) (\<lambda>(r, de, s).
          if r \<noteq> 16 then Inl (Panic ''isdirempty: readi'')
          else if de_inum de \<noteq> 0 then Inr (False, s)
          else isdirempty_from i (off + 16) sz s)
      else Inr (True, s))"
  by pat_completeness auto
termination
  by (relation "measure (\<lambda>(i, off, sz, s). sz - off)") auto

declare isdirempty_from.simps [simp del]

definition isdirempty :: "nat \<Rightarrow> 'a fsstate_scheme \<Rightarrow> (bool \<times> 'a fsstate_scheme) res" where
  "isdirempty i s = isdirempty_from i 32 (isize (inodes s ! i)) s"

definition unlink_bad :: "nat \<Rightarrow> 'a filestate_scheme \<Rightarrow> (u64 \<times> 'a filestate_scheme) res" where
  "unlink_bad dp s = kbind (iunlockput dp s) (\<lambda>s. end_with (- 1) s)"

text \<open>\<open>sys_unlink\<close> once the entry is found at \<open>off\<close> and both inodes are locked.\<close>

definition unlink_entry ::
  "nat \<Rightarrow> nat \<Rightarrow> nat \<Rightarrow> 'a filestate_scheme \<Rightarrow> (u64 \<times> 'a filestate_scheme) res" where
  "unlink_entry dp ip off s =
     kbind (writei dp (Kernel_src (replicate 16 0)) off 16 s) (\<lambda>(r, s).
     if r \<noteq> 16 then Inl (Panic ''unlink: writei'')
     else
       kbind (if itype (inodes s ! ip) = T_DIR then iupdate dp (add_nlink dp (- 1) s) else Inr s) (\<lambda>s.
       kbind (iunlockput dp s) (\<lambda>s.
       kbind (iupdate ip (add_nlink ip (- 1) s)) (\<lambda>s.
       kbind (iunlockput ip s) (\<lambda>s.
       end_with 0 s)))))"

definition sys_unlink :: "'a filestate_scheme \<Rightarrow> (u64 \<times> 'a filestate_scheme) res" where
  "sys_unlink s =
     kbind (argstr 0 MAXPATH s) (\<lambda>(r, path).
     if r < 0 then Inr (- 1, s)
     else
       kbind (begin_op s) (\<lambda>s.
       kbind (nameiparent path (\<lambda>_. 0) s) (\<lambda>(r, name, s).
       case r of
         None \<Rightarrow> end_with (- 1) s
       | Some dp \<Rightarrow>
           kbind (ilock (Some dp) s) (\<lambda>s.
           if namecmp name (cstring [46]) = 0 \<or> namecmp name (cstring [46, 46]) = 0 then unlink_bad dp s
           else
             kbind (dirlookup dp name s) (\<lambda>(r, s).
             case r of
               None \<Rightarrow> unlink_bad dp s
             | Some (ip, off) \<Rightarrow>
                 kbind (ilock (Some ip) s) (\<lambda>s.
                 if sint (inlink (inodes s ! ip)) < 1 then Inl (Panic ''unlink: nlink < 1'')
                 else
                   kbind (if itype (inodes s ! ip) = T_DIR then isdirempty ip s else Inr (True, s)) (\<lambda>(ok, s).
                   if \<not> ok then kbind (iunlockput ip s) (\<lambda>s. unlink_bad dp s)
                   else unlink_entry dp ip off s)))))))"

section \<open>Creating and opening\<close>

definition create ::
  "byte list \<Rightarrow> u16 \<Rightarrow> u16 \<Rightarrow> u16 \<Rightarrow> 'a fsstate_scheme \<Rightarrow> (nat option \<times> 'a fsstate_scheme) res" where
  "create path type major minor s =
     kbind (nameiparent path (\<lambda>_. 0) s) (\<lambda>(r, name, s).
     case r of
       None \<Rightarrow> Inr (None, s)
     | Some dp \<Rightarrow>
         kbind (ilock (Some dp) s) (\<lambda>s.
         kbind (dirlookup dp name s) (\<lambda>(r, s).
         case r of
           Some (ip, _) \<Rightarrow>
             kbind (iunlockput dp s) (\<lambda>s.
             kbind (ilock (Some ip) s) (\<lambda>s.
             if type = T_FILE \<and> (itype (inodes s ! ip) = T_FILE \<or> itype (inodes s ! ip) = T_DEVICE)
             then Inr (Some ip, s)
             else kbind (iunlockput ip s) (\<lambda>s. Inr (None, s))))
         | None \<Rightarrow>
             kbind (ialloc (idev (inodes s ! dp)) type s) (\<lambda>(ip, s).
             kbind (ilock (Some ip) s) (\<lambda>s.
             kbind (iupdate ip (upd_inode ip (\<lambda>x. x\<lparr>imajor := major, iminor := minor, inlink := 1\<rparr>) s)) (\<lambda>s.
             kbind (if type = T_DIR then
                 kbind (iupdate dp (add_nlink dp 1 s)) (\<lambda>s.
                 kbind (dirlink ip (cstring [46]) (inum (inodes s ! ip)) s) (\<lambda>(r, s).
                 if r < 0 then Inl (Panic ''create dots'')
                 else
                   kbind (dirlink ip (cstring [46, 46]) (inum (inodes s ! dp)) s) (\<lambda>(r, s).
                   if r < 0 then Inl (Panic ''create dots'') else Inr s)))
               else Inr s) (\<lambda>s.
             kbind (dirlink dp name (inum (inodes s ! ip)) s) (\<lambda>(r, s).
             if r < 0 then Inl (Panic ''create: dirlink'')
             else kbind (iunlockput dp s) (\<lambda>s. Inr (Some ip, s))))))))))"

text \<open>Unlock and release the inode, end the transaction, return \<open>r\<close>.\<close>

definition put_end :: "nat \<Rightarrow> u64 \<Rightarrow> 'a filestate_scheme \<Rightarrow> (u64 \<times> 'a filestate_scheme) res" where
  "put_end ip r s = kbind (iunlockput ip s) (\<lambda>s. end_with r s)"

text \<open>\<open>sys_open\<close> from the allocation of the file on.\<close>

definition open_file :: "nat \<Rightarrow> u32 \<Rightarrow> 'a filestate_scheme \<Rightarrow> (u64 \<times> 'a filestate_scheme) res" where
  "open_file ip omode s =
     (case filealloc s of
        (None, s) \<Rightarrow> put_end ip (- 1) s
      | (Some f, s) \<Rightarrow>
        (case fdalloc f s of
           (None, s) \<Rightarrow> kbind (fileclose f s) (\<lambda>s. put_end ip (- 1) s)
         | (Some fd, s) \<Rightarrow>
             let s = (if itype (inodes s ! ip) = T_DEVICE
                      then upd_file f (\<lambda>x. x\<lparr>ftype := FD_DEVICE, fmajor := imajor (inodes s ! ip)\<rparr>) s
                      else upd_file f (\<lambda>x. x\<lparr>ftype := FD_INODE, foff := 0\<rparr>) s);
                 s = upd_file f (\<lambda>x. x\<lparr>fip := ip,
                       readable := (omode AND O_WRONLY = 0),
                       writable := (omode AND O_WRONLY \<noteq> 0 \<or> omode AND O_RDWR \<noteq> 0)\<rparr>) s
             in kbind (if omode AND O_TRUNC \<noteq> 0 \<and> itype (inodes s ! ip) = T_FILE then itrunc ip s
                       else Inr s) (\<lambda>s.
                kbind (iunlock (Some ip) s) (\<lambda>s.
                end_with (of_nat fd) s))))"

definition sys_open :: "'a filestate_scheme \<Rightarrow> (u64 \<times> 'a filestate_scheme) res" where
  "sys_open s =
     kbind (argstr 0 MAXPATH s) (\<lambda>(r, path).
     if r < 0 then Inr (- 1, s)
     else
       kbind (argint 1 s) (\<lambda>omode.
       kbind (begin_op s) (\<lambda>s.
       kbind (if omode AND O_CREATE \<noteq> 0 then create path T_FILE 0 0 s
              else
                kbind (namei path s) (\<lambda>(r, s).
                case r of
                  None \<Rightarrow> Inr (None, s)
                | Some ip \<Rightarrow> kbind (ilock (Some ip) s) (\<lambda>s.
                    if itype (inodes s ! ip) = T_DIR \<and> omode \<noteq> O_RDONLY
                    then kbind (iunlockput ip s) (\<lambda>s. Inr (None, s)) else Inr (Some ip, s)))) (\<lambda>(r, s).
       case r of
         None \<Rightarrow> end_with (- 1) s
       | Some ip \<Rightarrow>
           if itype (inodes s ! ip) = T_DEVICE \<and>
              (sint (imajor (inodes s ! ip)) < 0 \<or> sint (imajor (inodes s ! ip)) \<ge> int NDEV)
           then put_end ip (- 1) s
           else open_file ip omode s))))"

definition sys_mkdir :: "'a filestate_scheme \<Rightarrow> (u64 \<times> 'a filestate_scheme) res" where
  "sys_mkdir s =
     kbind (begin_op s) (\<lambda>s.
     kbind (argstr 0 MAXPATH s) (\<lambda>(r, path).
     if r < 0 then end_with (- 1) s
     else
       kbind (create path T_DIR 0 0 s) (\<lambda>(r, s).
       case r of None \<Rightarrow> end_with (- 1) s | Some ip \<Rightarrow> put_end ip 0 s)))"

definition sys_mknod :: "'a filestate_scheme \<Rightarrow> (u64 \<times> 'a filestate_scheme) res" where
  "sys_mknod s =
     kbind (begin_op s) (\<lambda>s.
     kbind (argstr 0 MAXPATH s) (\<lambda>(r, path).
     if r < 0 then end_with (- 1) s
     else
       kbind (argint 1 s) (\<lambda>major. kbind (argint 2 s) (\<lambda>minor.
       kbind (create path T_DEVICE (ucast major) (ucast minor) s) (\<lambda>(r, s).
       case r of None \<Rightarrow> end_with (- 1) s | Some ip \<Rightarrow> put_end ip 0 s)))))"

definition sys_chdir :: "'a filestate_scheme \<Rightarrow> (u64 \<times> 'a filestate_scheme) res" where
  "sys_chdir s =
     kbind (begin_op s) (\<lambda>s.
     kbind (argstr 0 MAXPATH s) (\<lambda>(r, path).
     if r < 0 then end_with (- 1) s
     else
       kbind (namei path s) (\<lambda>(r, s).
       case r of
         None \<Rightarrow> end_with (- 1) s
       | Some ip \<Rightarrow>
           kbind (ilock (Some ip) s) (\<lambda>s.
           if itype (inodes s ! ip) \<noteq> T_DIR then put_end ip (- 1) s
           else
             kbind (iunlock (Some ip) s) (\<lambda>s.
             kbind (iput (the (cwd (procs s ! myproc s))) s) (\<lambda>s.
             kbind (end_op s) (\<lambda>s.
             Inr (0, upd_proc (myproc s) (\<lambda>p. p\<lparr>cwd := Some ip\<rparr>) s))))))))"

section \<open>exec and pipe\<close>

text \<open>
  The loop that fetches the argument strings, over the \<open>k\<close> slots left in \<open>argv\<close>: the pages
  allocated so far and the strings, with a flag for the jump to \<open>bad\<close>.
\<close>

fun fetch_argv ::
  "nat \<Rightarrow> u64 \<Rightarrow> nat \<Rightarrow> u64 list \<Rightarrow> byte list list \<Rightarrow> 'a pstate_scheme \<Rightarrow>
     (bool \<times> u64 list \<times> byte list list \<times> 'a pstate_scheme) res" where
  "fetch_argv 0 uargv i pgs strs s = Inr (False, pgs, strs, s)"
| "fetch_argv (Suc k) uargv i pgs strs s =
     kbind (fetchaddr (uargv + 8 * of_nat i) s) (\<lambda>(r, uarg).
       if r < 0 then Inr (False, pgs, strs, s)
       else if uarg = 0 then Inr (True, pgs, strs, s)
       else case kalloc s of (pg, s) \<Rightarrow>
         if pg = 0 then Inr (False, pgs, strs, s)
         else
           kbind (fetchstr uarg PGSIZE s) (\<lambda>(r, str).
           if r < 0 then Inr (False, pgs @ [pg], strs, s)
           else fetch_argv k uargv (i + 1) (pgs @ [pg]) (strs @ [str])
                  (s\<lparr>pmem := store_bytes (pmem s) pg (str @ [0])\<rparr>)))"

definition sys_exec :: "'a filestate_scheme \<Rightarrow> (u64 \<times> 'a filestate_scheme) res" where
  "sys_exec s =
     kbind (argstr 0 MAXPATH s) (\<lambda>(r, path).
     if r < 0 then Inr (- 1, s)
     else
       kbind (argaddr 1 s) (\<lambda>uargv.
       kbind (fetch_argv MAXARG uargv 0 [] [] s) (\<lambda>(ok, pgs, argv, s).
       if ok then
         kbind (exec path argv s) (\<lambda>(r, s).
         kbind (kfor kfree pgs s) (\<lambda>s. Inr (of_int r, s)))
       else kbind (kfor kfree pgs s) (\<lambda>s. Inr (- 1, s)))))"

text \<open>Both ends closed again after a failure in \<open>sys_pipe\<close>.\<close>

definition pipe_undo :: "nat \<Rightarrow> nat \<Rightarrow> 'a filestate_scheme \<Rightarrow> (u64 \<times> 'a filestate_scheme) res" where
  "pipe_undo rfl wfl s =
     kbind (fileclose rfl s) (\<lambda>s. kbind (fileclose wfl s) (\<lambda>s. Inr (- 1, s)))"

definition sys_pipe :: "'a filestate_scheme \<Rightarrow> (u64 \<times> 'a filestate_scheme) res" where
  "sys_pipe s =
     kbind (argaddr 0 s) (\<lambda>fdarray.
     kbind (pipealloc s) (\<lambda>(r, s).
     case r of None \<Rightarrow> Inr (- 1, s) | Some (rfl, wfl) \<Rightarrow>
       (case fdalloc rfl s of
          (None, s) \<Rightarrow> pipe_undo rfl wfl s
        | (Some fd0, s) \<Rightarrow>
          (case fdalloc wfl s of
             (None, s) \<Rightarrow> pipe_undo rfl wfl (set_fd fd0 None s)
           | (Some fd1, s) \<Rightarrow>
               let pt = pagetable (procs s ! myproc s) in
               kbind (copyout pt fdarray (word_bytes 4 (of_nat fd0 :: u32)) s) (\<lambda>(r, s).
               if r < 0 then pipe_undo rfl wfl (set_fd fd1 None (set_fd fd0 None s))
               else
                 kbind (copyout pt (fdarray + 4) (word_bytes 4 (of_nat fd1 :: u32)) s) (\<lambda>(r, s).
                 if r < 0 then pipe_undo rfl wfl (set_fd fd1 None (set_fd fd0 None s))
                 else Inr (0, s)))))))"

end
