(* ===== verification/Csr.thy ===== *)
theory Csr
  imports Sysfile
begin

text \<open>
  The processor's control registers (\<open>kernel/loongarch.h\<close>), the interrupt controllers
  (\<open>kernel/apic.c\<close>, \<open>kernel/extioi.c\<close>) and the boot-time setup that writes them. \<open>csr\<close> is the CSR
  file; \<open>ext_isr\<close> is what the interrupt status register of the extended I/O controller shows,
  and the writes to the controllers are recorded in \<open>iocsr_log\<close> and \<open>mmio_log\<close>.
\<close>

record mstate = filestate +
  csr :: "nat \<Rightarrow> u64"
  tp :: u64
  ext_isr :: u64
  iocsr_log :: "(nat \<times> u64) list"
  mmio_log :: "(u64 \<times> u64) list"
  first :: bool

definition zero_mstate :: mstate where
  "zero_mstate = filestate.extend zero_filestate (mstate.fields (\<lambda>_. 0) 0 0 [] [] True)"

text \<open>Link-time addresses of the assembly entry points and of \<open>usertrap\<close>.\<close>

record symbols =
  kernelvec :: u64
  uservec :: u64
  handle_tlbr :: u64
  handle_merr :: u64
  usertrap_entry :: u64

section \<open>Control and status registers\<close>

definition csrrd :: "nat \<Rightarrow> 'a mstate_scheme \<Rightarrow> u64" where
  "csrrd n s = csr s n"

definition csrwr :: "nat \<Rightarrow> u64 \<Rightarrow> 'a mstate_scheme \<Rightarrow> 'a mstate_scheme" where
  "csrwr n v s = s\<lparr>csr := (csr s)(n := v)\<rparr>"

definition r_tp :: "'a mstate_scheme \<Rightarrow> u64" where "r_tp s = tp s"
definition cpuid :: "'a mstate_scheme \<Rightarrow> u32" where "cpuid s = ucast (r_tp s)"

definition r_csr_crmd :: "'a mstate_scheme \<Rightarrow> u32" where "r_csr_crmd s = ucast (csrrd 0x0 s)"
definition w_csr_crmd :: "u32 \<Rightarrow> 'a mstate_scheme \<Rightarrow> 'a mstate_scheme" where "w_csr_crmd x = csrwr 0x0 (ucast x)"
definition r_csr_prmd :: "'a mstate_scheme \<Rightarrow> u32" where "r_csr_prmd s = ucast (csrrd 0x1 s)"
definition w_csr_prmd :: "u32 \<Rightarrow> 'a mstate_scheme \<Rightarrow> 'a mstate_scheme" where "w_csr_prmd x = csrwr 0x1 (ucast x)"
definition r_csr_era :: "'a mstate_scheme \<Rightarrow> u64" where "r_csr_era s = csrrd 0x6 s"
definition w_csr_era :: "u64 \<Rightarrow> 'a mstate_scheme \<Rightarrow> 'a mstate_scheme" where "w_csr_era x = csrwr 0x6 x"
definition r_csr_estat :: "'a mstate_scheme \<Rightarrow> u32" where "r_csr_estat s = ucast (csrrd 0x5 s)"
definition r_csr_ecfg :: "'a mstate_scheme \<Rightarrow> u32" where "r_csr_ecfg s = ucast (csrrd 0x4 s)"
definition w_csr_ecfg :: "u32 \<Rightarrow> 'a mstate_scheme \<Rightarrow> 'a mstate_scheme" where "w_csr_ecfg x = csrwr 0x4 (ucast x)"
definition r_csr_ticlr :: "'a mstate_scheme \<Rightarrow> u32" where "r_csr_ticlr s = ucast (csrrd 0x44 s)"
definition w_csr_ticlr :: "u32 \<Rightarrow> 'a mstate_scheme \<Rightarrow> 'a mstate_scheme" where "w_csr_ticlr x = csrwr 0x44 (ucast x)"
definition r_csr_eentry :: "'a mstate_scheme \<Rightarrow> u64" where "r_csr_eentry s = csrrd 0xc s"
definition w_csr_eentry :: "u64 \<Rightarrow> 'a mstate_scheme \<Rightarrow> 'a mstate_scheme" where "w_csr_eentry x = csrwr 0xc x"
definition w_csr_tlbrentry :: "u64 \<Rightarrow> 'a mstate_scheme \<Rightarrow> 'a mstate_scheme" where "w_csr_tlbrentry x = csrwr 0x88 x"
definition w_csr_merrentry :: "u64 \<Rightarrow> 'a mstate_scheme \<Rightarrow> 'a mstate_scheme" where "w_csr_merrentry x = csrwr 0x93 x"
definition w_csr_stlbps :: "u32 \<Rightarrow> 'a mstate_scheme \<Rightarrow> 'a mstate_scheme" where "w_csr_stlbps x = csrwr 0x1e (ucast x)"
definition w_csr_asid :: "u32 \<Rightarrow> 'a mstate_scheme \<Rightarrow> 'a mstate_scheme" where "w_csr_asid x = csrwr 0x18 (ucast x)"
definition w_csr_tcfg :: "u64 \<Rightarrow> 'a mstate_scheme \<Rightarrow> 'a mstate_scheme" where "w_csr_tcfg x = csrwr 0x41 x"
definition w_csr_tlbrehi :: "u64 \<Rightarrow> 'a mstate_scheme \<Rightarrow> 'a mstate_scheme" where "w_csr_tlbrehi x = csrwr 0x8e x"
definition r_csr_pgdl :: "'a mstate_scheme \<Rightarrow> u64" where "r_csr_pgdl s = csrrd 0x19 s"
definition w_csr_pgdl :: "u64 \<Rightarrow> 'a mstate_scheme \<Rightarrow> 'a mstate_scheme" where "w_csr_pgdl x = csrwr 0x19 x"
definition w_csr_pwcl :: "u32 \<Rightarrow> 'a mstate_scheme \<Rightarrow> 'a mstate_scheme" where "w_csr_pwcl x = csrwr 0x1c (ucast x)"
definition w_csr_pwch :: "u32 \<Rightarrow> 'a mstate_scheme \<Rightarrow> 'a mstate_scheme" where "w_csr_pwch x = csrwr 0x1d (ucast x)"
definition r_csr_badi :: "'a mstate_scheme \<Rightarrow> u32" where "r_csr_badi s = ucast (csrrd 0x8 s)"

definition CSR_CRMD_IE :: u32 where "CSR_CRMD_IE = push_bit 2 1"

definition csr_intr_get :: "'a mstate_scheme \<Rightarrow> bool" where
  "csr_intr_get s \<longleftrightarrow> r_csr_crmd s AND CSR_CRMD_IE \<noteq> 0"

definition csr_intr_on :: "'a mstate_scheme \<Rightarrow> 'a mstate_scheme" where
  "csr_intr_on s = w_csr_crmd (r_csr_crmd s OR CSR_CRMD_IE) s"

definition csr_intr_off :: "'a mstate_scheme \<Rightarrow> 'a mstate_scheme" where
  "csr_intr_off s = w_csr_crmd (r_csr_crmd s AND NOT CSR_CRMD_IE) s"

section \<open>Interrupt controllers\<close>

definition UART0_IRQ :: nat where "UART0_IRQ = 2"

definition mmio_write :: "u64 \<Rightarrow> u64 \<Rightarrow> 'a mstate_scheme \<Rightarrow> 'a mstate_scheme" where
  "mmio_write a v s = s\<lparr>mmio_log := mmio_log s @ [(a, v)]\<rparr>"

definition iocsr_writeq :: "u64 \<Rightarrow> nat \<Rightarrow> 'a mstate_scheme \<Rightarrow> 'a mstate_scheme" where
  "iocsr_writeq v r s = s\<lparr>iocsr_log := iocsr_log s @ [(r, v)]\<rparr>"

definition LS7A_PCH_REG_BASE :: u64 where "LS7A_PCH_REG_BASE = 0x10000000 OR DMWIN_MASK"

definition apic_init :: "'a mstate_scheme \<Rightarrow> 'a mstate_scheme" where
  "apic_init s =
     (let s = mmio_write (LS7A_PCH_REG_BASE + 0x020) (NOT (push_bit UART0_IRQ 1)) s;
          s = mmio_write (LS7A_PCH_REG_BASE + 0x060) (push_bit UART0_IRQ 1) s;
          s = mmio_write (LS7A_PCH_REG_BASE + 0x200 + of_nat UART0_IRQ) (of_nat UART0_IRQ) s
      in mmio_write (LS7A_PCH_REG_BASE + 0x3e0) 0 s)"

definition apic_complete :: "u64 \<Rightarrow> 'a mstate_scheme \<Rightarrow> 'a mstate_scheme" where
  "apic_complete irq s = mmio_write (LS7A_PCH_REG_BASE + 0x080) irq s"

definition extioi_init :: "'a mstate_scheme \<Rightarrow> 'a mstate_scheme" where
  "extioi_init s =
     (let s = iocsr_writeq (push_bit UART0_IRQ 1) 0x1600 s;
          s = iocsr_writeq 1 0x14c0 s;
          s = iocsr_writeq 0x10000 0x1c00 s
      in iocsr_writeq 1 0x14a0 s)"

definition extioi_claim :: "'a mstate_scheme \<Rightarrow> u64" where
  "extioi_claim s = ext_isr s"

definition extioi_complete :: "u64 \<Rightarrow> 'a mstate_scheme \<Rightarrow> 'a mstate_scheme" where
  "extioi_complete irq s = iocsr_writeq irq 0x1800 s"

section \<open>Paging and trap setup (vm.c, trap.c)\<close>

definition tlbinit :: "'a mstate_scheme \<Rightarrow> 'a mstate_scheme" where
  "tlbinit s = w_csr_tlbrehi 0xc (w_csr_asid 0 (w_csr_stlbps 0xc s))"

definition vminit :: "'a mstate_scheme \<Rightarrow> 'a mstate_scheme res" where
  "vminit s =
     (case kalloc s of (kpgtbl, s) \<Rightarrow>
      let s = s\<lparr>pmem := memset kpgtbl 0 PGSIZE (pmem s)\<rparr> in
      kbind (proc_mapstacks kpgtbl s) (\<lambda>s.
      let s = tlbinit (w_csr_pgdl kpgtbl s);
          s = w_csr_pwcl (push_bit 30 0 OR push_bit 25 9 OR push_bit 20 30 OR push_bit 15 9 OR
                          push_bit 10 21 OR push_bit 5 9 OR push_bit 0 12) s
      in Inr (w_csr_pwch (push_bit 18 0 OR push_bit 6 9 OR push_bit 0 39) s)))"

definition HWI_VEC :: u32 where "HWI_VEC = 0x3fc"
definition TI_VEC :: u32 where "TI_VEC = push_bit 11 1"

definition trapinit :: "symbols \<Rightarrow> 'a mstate_scheme \<Rightarrow> 'a mstate_scheme" where
  "trapinit syms s =
     (let s = w_csr_ecfg (push_bit 16 0 OR HWI_VEC OR TI_VEC) s;
          s = w_csr_tcfg (0x1000000 OR 1 OR 2) s;
          s = w_csr_eentry (kernelvec syms) s;
          s = w_csr_tlbrentry (handle_tlbr syms) s;
          s = w_csr_merrentry (handle_merr syms) s
      in csr_intr_on s)"

end
