(* ===== verification/Trap.thy ===== *)
theory Trap
  imports Csr
begin

text \<open>
  \<open>kernel/trap.c\<close>, the system call dispatcher of \<open>kernel/syscall.c\<close>, \<open>forkret\<close> and the boot sequence
  of \<open>kernel/main.c\<close>. \<open>pad\<close> is the stack garbage that \<open>filestat\<close> copies out as padding.
\<close>

section \<open>System calls (syscall.c)\<close>

text \<open>A call that returns yields the value for \<open>a0\<close>; \<open>exit\<close> does not return.\<close>

datatype 'a sysret = Returns u64 'a | Exits 'a

definition returns :: "(u64 \<times> 'a) res \<Rightarrow> 'a sysret res" where
  "returns r = kbind r (\<lambda>(v, s). Inr (Returns v s))"

definition syscalls :: "byte list \<Rightarrow> int \<Rightarrow> ('a mstate_scheme \<Rightarrow> 'a mstate_scheme sysret res) option" where
  "syscalls pad num =
     (if num = 1 then Some (\<lambda>s. returns (sys_fork s))
      else if num = 2 then Some (\<lambda>s. kbind (sys_exit s) (\<lambda>s. Inr (Exits s)))
      else if num = 3 then Some (\<lambda>s. returns (sys_wait s))
      else if num = 4 then Some (\<lambda>s. returns (sys_pipe s))
      else if num = 5 then Some (\<lambda>s. returns (sys_read s))
      else if num = 6 then Some (\<lambda>s. returns (sys_kill s))
      else if num = 7 then Some (\<lambda>s. returns (sys_exec s))
      else if num = 8 then Some (\<lambda>s. returns (sys_fstat pad s))
      else if num = 9 then Some (\<lambda>s. returns (sys_chdir s))
      else if num = 10 then Some (\<lambda>s. returns (sys_dup s))
      else if num = 11 then Some (\<lambda>s. returns (sys_getpid s))
      else if num = 12 then Some (\<lambda>s. returns (sys_sbrk s))
      else if num = 13 then Some (\<lambda>s. returns (sys_sleep s))
      else if num = 14 then Some (\<lambda>s. returns (sys_uptime s))
      else if num = 15 then Some (\<lambda>s. returns (sys_open s))
      else if num = 16 then Some (\<lambda>s. returns (sys_write s))
      else if num = 17 then Some (\<lambda>s. returns (sys_mknod s))
      else if num = 18 then Some (\<lambda>s. returns (sys_unlink s))
      else if num = 19 then Some (\<lambda>s. returns (sys_link s))
      else if num = 20 then Some (\<lambda>s. returns (sys_mkdir s))
      else if num = 21 then Some (\<lambda>s. returns (sys_close s))
      else None)"

text \<open>The flag says whether the process has exited.\<close>

definition syscall :: "byte list \<Rightarrow> 'a mstate_scheme \<Rightarrow> (bool \<times> 'a mstate_scheme) res" where
  "syscall pad s =
     (let p = myproc s; num = sint (ucast (tf_load p TF_a7 s) :: u32) in
      case syscalls pad num of
        Some f \<Rightarrow> kbind (f s) (\<lambda>r. case r of
            Returns v s \<Rightarrow> Inr (False, tf_store p TF_a0 v s)
          | Exits s \<Rightarrow> Inr (True, s))
      | None \<Rightarrow>
          kbind (printf (Some (ascii ''%d %s: unknown sys call %d'' @ [10]))
                   [AInt (pid (procs s ! p)), AStr (Some (cstr 16 (pname (procs s ! p)))), AInt (of_int num)] s) (\<lambda>s.
          Inr (False, tf_store p TF_a0 (- 1) s)))"

section \<open>Interrupts (trap.c)\<close>

definition clockintr :: "'a mstate_scheme \<Rightarrow> 'a mstate_scheme" where
  "clockintr s = wakeup (Some Ch_ticks) (s\<lparr>ticks := ticks s + 1\<rparr>)"

definition devintr :: "'a mstate_scheme \<Rightarrow> (nat \<times> 'a mstate_scheme) res" where
  "devintr s =
     (let estat = r_csr_estat s; ecfg = r_csr_ecfg s in
      if estat AND ecfg AND HWI_VEC \<noteq> 0 then
        let irq = extioi_claim s in
        if irq AND push_bit UART0_IRQ 1 \<noteq> 0 then
          kbind (uartintr s) (\<lambda>s. Inr (1, extioi_complete (push_bit UART0_IRQ 1) s))
        else if irq \<noteq> 0 then
          kbind (printf (Some (ascii ''unexpected interrupt irq=%d'' @ [10])) [AInt (ucast irq)] s) (\<lambda>s.
          Inr (1, extioi_complete irq (apic_complete irq s)))
        else Inr (1, s)
      else if estat AND ecfg AND TI_VEC \<noteq> 0 then
        let s = (if cpuid s = 0 then clockintr s else s)
        in Inr (2, w_csr_ticlr (r_csr_ticlr s OR 1) s)
      else Inr (0, s))"

definition PRMD_PPLV :: u32 where "PRMD_PPLV = 3"
definition PRMD_PIE :: u32 where "PRMD_PIE = 4"

text \<open>\<open>usertrapret\<close> up to the jump into \<open>userret\<close> with the trapframe and the user page table.\<close>

definition usertrapret :: "symbols \<Rightarrow> 'a mstate_scheme \<Rightarrow> u64 \<times> 'a mstate_scheme" where
  "usertrapret syms s =
     (let p = myproc s;
          s = csr_intr_off s;
          s = w_csr_eentry (uservec syms) s;
          s = tf_store p TF_kernel_pgdl (r_csr_pgdl s) s;
          s = tf_store p TF_kernel_sp (kstack (procs s ! p) + of_nat PGSIZE) s;
          s = tf_store p TF_kernel_trap (usertrap_entry syms) s;
          s = tf_store p TF_kernel_hartid (r_tp s) s;
          s = w_csr_prmd (r_csr_prmd s OR PRMD_PPLV OR PRMD_PIE) s;
          s = w_csr_era (tf_load p TF_era s) s
      in (pagetable (procs s ! p), s))"

text \<open>
  How \<open>usertrap\<close> ends: back to user space with a page table, having given up the CPU first
  (then \<open>usertrapret\<close> runs when the process is scheduled again), or the process has exited.
\<close>

datatype trap_end = To_user u64 | Yields | Gone

definition usertrap_finish ::
  "symbols \<Rightarrow> nat \<Rightarrow> 'a mstate_scheme \<Rightarrow> (trap_end \<times> 'a mstate_scheme) res" where
  "usertrap_finish syms which_dev s =
     (if killed (procs s ! myproc s) then kbind (exit (- 1) s) (\<lambda>s. Inr (Gone, s))
      else if which_dev = 2 then Inr (Yields, yield s)
      else case usertrapret syms s of (pt, s) \<Rightarrow> Inr (To_user pt, s))"

definition usertrap :: "symbols \<Rightarrow> byte list \<Rightarrow> 'a mstate_scheme \<Rightarrow> (trap_end \<times> 'a mstate_scheme) res" where
  "usertrap syms pad s =
     (if r_csr_prmd s AND PRMD_PPLV = 0 then Inl (Panic ''usertrap: not from user mode'')
      else
        let s = w_csr_eentry (kernelvec syms) s;
            p = myproc s;
            s = tf_store p TF_era (r_csr_era s) s
        in
        if drop_bit 16 (r_csr_estat s AND push_bit 16 0x3f) = 0xb then
          if killed (procs s ! p) then kbind (exit (- 1) s) (\<lambda>s. Inr (Gone, s))
          else
            let s = tf_store p TF_era (tf_load p TF_era s + 4) s;
                s = csr_intr_on s
            in kbind (syscall pad s) (\<lambda>(gone, s).
               if gone then Inr (Gone, s) else usertrap_finish syms 0 s)
        else
          kbind (devintr s) (\<lambda>(which_dev, s).
            if which_dev \<noteq> 0 then usertrap_finish syms which_dev s
            else
              kbind (printf (Some (ascii ''usertrap(): unexpected trapcause %x pid=%d'' @ [10]))
                       [AInt (r_csr_estat s), AInt (pid (procs s ! p))] s) (\<lambda>s.
              kbind (printf (Some (ascii ''            era=%p badi=%x'' @ [10]))
                       [APtr (r_csr_era s), AInt (r_csr_badi s)] s) (\<lambda>s.
              usertrap_finish syms 0 (upd_proc p (\<lambda>q. q\<lparr>killed := True\<rparr>) s)))))"

text \<open>
  \<open>kerneltrap\<close>; the flag says that it gave up the CPU in between, after which it restores
  \<open>era\<close> and \<open>prmd\<close>.
\<close>

definition kerneltrap :: "'a mstate_scheme \<Rightarrow> (bool \<times> 'a mstate_scheme) res" where
  "kerneltrap s =
     (let era = r_csr_era s; prmd = (ucast (r_csr_prmd s) :: u64) in
      if prmd AND ucast PRMD_PPLV \<noteq> 0 then Inl (Panic ''kerneltrap: not from privilege0'')
      else if csr_intr_get s then Inl (Panic ''kerneltrap: interrupts enabled'')
      else
        kbind (devintr s) (\<lambda>(which_dev, s).
          if which_dev = 0 then
            kbind (printf (Some (ascii ''estat %x'' @ [10])) [AInt (r_csr_estat s)] s) (\<lambda>s.
            kbind (printf (Some (ascii ''era=%p eentry=%p'' @ [10])) [APtr (r_csr_era s), APtr (r_csr_eentry s)] s) (\<lambda>s.
            Inl (Panic ''kerneltrap'')))
          else
            let yields = (which_dev = 2 \<and> cur s \<noteq> None \<and> pst (procs s ! myproc s) = RUNNING);
                s = (if yields then yield s else s)
            in Inr (yields, w_csr_prmd (ucast prmd) (w_csr_era era s))))"

definition machine_trap :: "'a mstate_scheme \<Rightarrow> 'a mstate_scheme res" where
  "machine_trap s = Inl (Panic ''machine error'')"

section \<open>First return of a process (proc.c) and boot (main.c)\<close>

definition forkret :: "symbols \<Rightarrow> 'a mstate_scheme \<Rightarrow> (u64 \<times> 'a mstate_scheme) res" where
  "forkret syms s =
     kbind (if first s then fsinit ROOTDEV (s\<lparr>first := False\<rparr>) else Inr s) (\<lambda>s.
     Inr (usertrapret syms s))"

text \<open>\<open>main\<close> on CPU 0, up to its call of \<open>scheduler\<close>.\<close>

definition kmain :: "symbols \<Rightarrow> 'a mstate_scheme \<Rightarrow> 'a mstate_scheme res" where
  "kmain syms s =
     kbind (kinit (consoleinit s)) (\<lambda>s.
     kbind (vminit s) (\<lambda>s.
     let s = procinit s;
         s = trapinit syms s;
         s = apic_init s;
         s = extioi_init s;
         s = binit s;
         s = iinit s
     in userinit s))"

end
