(* ===== verification/BioCache.thy ===== *)
theory BioCache
  imports Bio
begin

text \<open>
  The buffer cache of \<open>Bio\<close> as its clients see it: the doubly-linked list is a list of buffers
  in order of use, a block is cached at most once, and reading, changing and releasing
  buffers are operations on the blocks' contents.
\<close>

section \<open>Linked lists\<close>

text \<open>Following \<open>f\<close> from \<open>a\<close> passes through \<open>xs\<close> and arrives at \<open>b\<close>.\<close>

fun chain :: "(nat \<Rightarrow> nat) \<Rightarrow> nat \<Rightarrow> nat list \<Rightarrow> nat \<Rightarrow> bool" where
  "chain f a [] b \<longleftrightarrow> f a = b"
| "chain f a (x # xs) b \<longleftrightarrow> f a = x \<and> chain f x xs b"

lemma chain_cong: "(\<And>x. x \<in> set (a # xs) \<Longrightarrow> f x = g x) \<Longrightarrow> chain f a xs b \<longleftrightarrow> chain g a xs b"
  by (induction xs arbitrary: a) auto

lemma chain_upd: "y \<notin> set (a # xs) \<Longrightarrow> chain (f(y := v)) a xs b \<longleftrightarrow> chain f a xs b"
  by (rule chain_cong) auto

lemma chain_first: "chain f a xs b \<Longrightarrow> f a = hd (xs @ [b])"
  by (cases xs) auto

lemma chain_append: "chain f a (xs @ y # ys) b \<longleftrightarrow> chain f a xs y \<and> chain f y ys b"
  by (induction xs arbitrary: a) auto

lemma chain_remove:
  assumes "chain f a (xs @ x # ys) b" "distinct (a # xs @ x # ys)"
  shows "chain (f(last (a # xs) := f x)) a (xs @ ys) b"
  using assms
proof (induction xs arbitrary: a)
  case Nil
  then show ?case using chain_upd [of a "hd ys" "tl ys" f "f x" b] by (cases ys) (simp_all add: fun_upd_def)
next
  case (Cons y xs)
  then have "chain (f(last (y # xs) := f x)) y (xs @ ys) b" by (intro Cons.IH) auto
  moreover have "a \<noteq> last (y # xs)" using Cons.prems(2) last_in_set [of "y # xs"] by auto
  ultimately show ?case using Cons.prems by (cases "xs = []") (simp_all add: fun_upd_def)
qed

lemma chain_cons:
  assumes "chain f a xs b" "x \<notin> set (a # xs)" "a \<notin> set xs"
  shows "chain (f(x := f a, a := x)) a (x # xs) b"
  using assms by (cases xs) (simp_all add: chain_upd)

lemma chain_snoc:
  assumes "chain f a xs b" "x \<notin> set (a # xs)" "distinct (a # xs)"
  shows "chain (f(last (a # xs) := x, x := b)) a (xs @ [x]) b"
  using assms
proof (induction xs arbitrary: a)
  case (Cons y xs)
  then have "chain (f(last (y # xs) := x, x := b)) y (xs @ [x]) b" by (intro Cons.IH) auto
  moreover have "a \<noteq> last (y # xs)" using Cons.prems(3) last_in_set [of "y # xs"] by auto
  ultimately show ?case using Cons.prems by (simp add: fun_upd_def)
qed auto

section \<open>The list of buffers\<close>

text \<open>The list through \<open>bnext\<close> is \<open>xs\<close>, from the most to the least recently released buffer.\<close>

definition linked :: "buf list \<Rightarrow> nat list \<Rightarrow> bool" where
  "linked bs xs \<longleftrightarrow> length bs = Suc NBUF \<and> distinct xs \<and> set xs \<subseteq> {..<NBUF} \<and>
     chain (\<lambda>i. bnext (bs ! i)) NBUF xs NBUF \<and> chain (\<lambda>i. bprev (bs ! i)) NBUF (rev xs) NBUF"

lemma linkedD:
  assumes "linked bs xs"
  shows "length bs = Suc NBUF" "distinct xs" "set xs \<subseteq> {..<NBUF}" "NBUF \<notin> set xs"
    "chain (\<lambda>i. bnext (bs ! i)) NBUF xs NBUF" "chain (\<lambda>i. bprev (bs ! i)) NBUF (rev xs) NBUF"
  using assms by (auto simp: linked_def)

lemma linked_cong:
  assumes "length bs' = length bs" "\<And>i. i \<le> NBUF \<Longrightarrow> bnext (bs' ! i) = bnext (bs ! i) \<and> bprev (bs' ! i) = bprev (bs ! i)"
  shows "linked bs' xs \<longleftrightarrow> linked bs xs"
proof (cases "set xs \<subseteq> {..<NBUF}")
  case True
  then have "chain (\<lambda>i. bnext (bs' ! i)) NBUF xs NBUF \<longleftrightarrow> chain (\<lambda>i. bnext (bs ! i)) NBUF xs NBUF"
    "chain (\<lambda>i. bprev (bs' ! i)) NBUF (rev xs) NBUF \<longleftrightarrow> chain (\<lambda>i. bprev (bs ! i)) NBUF (rev xs) NBUF"
    using assms(2) by (auto intro!: chain_cong simp: less_imp_le subset_iff)
  then show ?thesis using assms(1) by (simp add: linked_def)
qed (simp add: linked_def)

lemma linked_ends:
  assumes "linked bs (xs @ b # ys)"
  shows "bnext (bs ! b) = hd (ys @ [NBUF])" "bprev (bs ! b) = last (NBUF # xs)"
proof -
  show "bnext (bs ! b) = hd (ys @ [NBUF])"
    using linkedD(5) [OF assms] chain_first by (fastforce simp: chain_append)
  have "bprev (bs ! b) = hd (rev xs @ [NBUF])"
    using linkedD(6) [OF assms] chain_first [of _ b "rev xs"] by (fastforce simp: chain_append)
  then show "bprev (bs ! b) = last (NBUF # xs)" by (cases xs rule: rev_cases) auto
qed

lemma hd_last_rev: "hd (ys @ [a]) = last (a # rev ys)"
  by (cases ys) auto

lemma linked_unlink:
  assumes l: "linked bs (xs @ b # ys)"
  shows "linked (unlink_buf b bs) (xs @ ys)"
proof -
  let ?n = "bnext (bs ! b)" and ?p = "bprev (bs ! b)"
  have n: "?n = last (NBUF # rev ys)" and p: "?p = last (NBUF # xs)"
    using linked_ends [OF l] hd_last_rev [of ys NBUF] by simp_all
  have d: "distinct (NBUF # xs @ b # ys)" using linkedD(2,4) [OF l] by simp
  have d': "distinct (NBUF # rev ys @ b # rev xs)" using d by auto
  have nb: "?n \<noteq> b" unfolding n using d by (cases ys) auto
  have lb: "b < NBUF" using linkedD(3) [OF l] by auto
  have le: "?n \<le> NBUF" "?p \<le> NBUF"
    unfolding n p using linkedD(3) [OF l] last_in_set [of "NBUF # rev ys"] last_in_set [of "NBUF # xs"] by fastforce+
  have len: "length bs = Suc NBUF" by (rule linkedD(1) [OF l])
  have nx: "(\<lambda>i. bnext (unlink_buf b bs ! i)) = ((\<lambda>i. bnext (bs ! i))(?p := ?n))"
    and pv: "(\<lambda>i. bprev (unlink_buf b bs ! i)) = ((\<lambda>i. bprev (bs ! i))(?n := ?p))"
    using nb lb le len by (auto simp: unlink_buf_def Let_def nth_list_update fun_eq_iff)
  have "chain ((\<lambda>i. bnext (bs ! i))(?p := ?n)) NBUF (xs @ ys) NBUF"
    unfolding p using chain_remove [OF linkedD(5) [OF l] d] by simp
  moreover have "chain ((\<lambda>i. bprev (bs ! i))(?n := ?p)) NBUF (rev ys @ rev xs) NBUF"
    unfolding n using chain_remove [of "\<lambda>i. bprev (bs ! i)" NBUF "rev ys" b "rev xs"] linkedD(6) [OF l] d' by simp
  ultimately show ?thesis
    using d linkedD(3) [OF l] len unfolding linked_def nx pv by (auto simp: unlink_buf_def Let_def)
qed

lemma linked_front:
  assumes l: "linked bs xs" and b: "b < NBUF" "b \<notin> set xs"
  shows "linked (link_front b bs) (b # xs)"
proof -
  let ?f = "bnext (bs ! NBUF)"
  have f: "?f = last (NBUF # rev xs)"
    using chain_first [OF linkedD(5) [OF l]] hd_last_rev by metis
  have le: "?f \<le> NBUF" unfolding f using linkedD(3) [OF l] last_in_set [of "NBUF # rev xs"] by fastforce
  have fb: "?f \<noteq> b" unfolding f using b last_in_set [of "NBUF # rev xs"] by auto
  have len: "length bs = Suc NBUF" by (rule linkedD(1) [OF l])
  have nx: "(\<lambda>i. bnext (link_front b bs ! i)) = ((\<lambda>i. bnext (bs ! i))(b := ?f, NBUF := b))"
    and pv: "(\<lambda>i. bprev (link_front b bs ! i)) = ((\<lambda>i. bprev (bs ! i))(?f := b, b := NBUF))"
    using fb b le len by (auto simp: link_front_def Let_def nth_list_update fun_eq_iff)
  have "chain ((\<lambda>i. bnext (bs ! i))(b := ?f, NBUF := b)) NBUF (b # xs) NBUF"
    using chain_cons [OF linkedD(5) [OF l], of b] b linkedD(4) [OF l] by simp
  moreover have "chain ((\<lambda>i. bprev (bs ! i))(?f := b, b := NBUF)) NBUF (rev xs @ [b]) NBUF"
    unfolding f using chain_snoc [OF linkedD(6) [OF l], of b] b linkedD(2,4) [OF l] by simp
  ultimately show ?thesis
    using b linkedD(2,3) [OF l] len unfolding linked_def nx pv by (auto simp: link_front_def Let_def)
qed


text \<open>The scans of \<open>bget\<close> end and find what a search of the list finds.\<close>

lemma bscan_cached_find:
  assumes "chain (\<lambda>i. bnext (bs ! i)) a xs NBUF" "NBUF \<notin> set xs" "length xs < fuel"
  shows "bscan_cached fuel (bnext (bs ! a)) dev n bs =
    Inr (find (\<lambda>b. bdev (bs ! b) = dev \<and> bblockno (bs ! b) = n) xs)"
  using assms
proof (induction xs arbitrary: a fuel)
  case Nil
  then show ?case by (cases fuel) auto
next
  case (Cons x xs)
  then show ?case by (cases fuel) auto
qed

lemma bscan_unused_find:
  assumes "chain (\<lambda>i. bprev (bs ! i)) a xs NBUF" "NBUF \<notin> set xs" "length xs < fuel"
  shows "bscan_unused fuel (bprev (bs ! a)) bs = Inr (find (\<lambda>b. brefcnt (bs ! b) = 0) xs)"
  using assms
proof (induction xs arbitrary: a fuel)
  case Nil
  then show ?case by (cases fuel) auto
next
  case (Cons x xs)
  then show ?case by (cases fuel) auto
qed

lemma linked_scans:
  assumes "linked bs xs"
  shows "bscan_cached (Suc NBUF) (bnext (bs ! NBUF)) dev n bs =
      Inr (find (\<lambda>b. bdev (bs ! b) = dev \<and> bblockno (bs ! b) = n) xs)"
    "bscan_unused (Suc NBUF) (bprev (bs ! NBUF)) bs = Inr (find (\<lambda>b. brefcnt (bs ! b) = 0) (rev xs))"
proof -
  have "card (set xs) \<le> card {..<NBUF}" by (rule card_mono) (use linkedD(3) [OF assms] in auto)
  then have "length xs < Suc NBUF" using linkedD(2) [OF assms] by (simp add: distinct_card)
  then show "bscan_cached (Suc NBUF) (bnext (bs ! NBUF)) dev n bs =
      Inr (find (\<lambda>b. bdev (bs ! b) = dev \<and> bblockno (bs ! b) = n) xs)"
    "bscan_unused (Suc NBUF) (bprev (bs ! NBUF)) bs = Inr (find (\<lambda>b. brefcnt (bs ! b) = 0) (rev xs))"
    using linkedD(4) [OF assms]
    by (intro bscan_cached_find bscan_unused_find linkedD(5) [OF assms] linkedD(6) [OF assms]; simp)+
qed

lemma upd_buf_simps [simp]:
  "bufs (upd_buf b f s) = (bufs s)[b := f (bufs s ! b)]"
  "disk (upd_buf b f s) = disk s" "procs (upd_buf b f s) = procs s" "cur (upd_buf b f s) = cur s"
  "dtrace (upd_buf b f s) = dtrace s" "pmem (upd_buf b f s) = pmem s"
  "myproc (upd_buf b f s) = myproc s" "mypid (upd_buf b f s) = mypid s"
  "upd_buf b g (upd_buf b f s) = upd_buf b (g \<circ> f) s"
  by (simp_all add: upd_buf_def myproc_def mypid_def, cases "b < length (bufs s)", simp_all add: list_update_beyond)

lemma linked_upd:
  assumes "\<And>k. bnext (f k) = bnext k" "\<And>k. bprev (f k) = bprev k"
  shows "linked (bs[b := f (bs ! b)]) xs \<longleftrightarrow> linked bs xs"
proof (rule linked_cong)
  fix i
  show "bnext (bs[b := f (bs ! b)] ! i) = bnext (bs ! i) \<and> bprev (bs[b := f (bs ! b)] ! i) = bprev (bs ! i)"
    using assms by (cases "b < length bs") (auto simp: nth_list_update list_update_beyond)
qed simp

lemma linked_binit:
  assumes "length (bufs s) = Suc NBUF"
  shows "linked (bufs (binit s)) (rev [0..<NBUF])"
proof -
  let ?bs = "(bufs s)[NBUF := (bufs s ! NBUF)\<lparr>bprev := NBUF, bnext := NBUF\<rparr>]"
  have "linked (fold (\<lambda>b bs. link_front b (bs[b := (bs ! b)\<lparr>block_lock := initsleeplock ''buffer''\<rparr>])) [0..<n] ?bs)
      (rev [0..<n])" if "n \<le> NBUF" for n
    using that
  proof (induction n)
    case 0
    then show ?case using assms by (simp add: linked_def)
  next
    case (Suc n)
    then show ?case by (auto simp: linked_upd intro!: linked_front)
  qed
  from this [of NBUF] show ?thesis by (simp add: binit_def Let_def)
qed


text \<open>Everything in a buffer but its links.\<close>

definition core :: "buf \<Rightarrow> bool \<times> nat \<times> nat \<times> sleeplock \<times> u32 \<times> byte list" where
  "core k = (bvalid k, bdev k, bblockno k, block_lock k, brefcnt k, bdata k)"

lemma core_upd [simp]:
  "core (bs[j := (bs ! j)\<lparr>bprev := v\<rparr>] ! i) = core (bs ! i)"
  "core (bs[j := (bs ! j)\<lparr>bnext := u\<rparr>] ! i) = core (bs ! i)"
  "core (bs[j := (bs ! j)\<lparr>bprev := v, bnext := u\<rparr>] ! i) = core (bs ! i)"
  "core (bs[j := (bs ! j)\<lparr>bnext := u, bprev := v\<rparr>] ! i) = core (bs ! i)"
  by (cases "j < length bs"; simp add: nth_list_update list_update_beyond core_def)+

lemma core_links [simp]:
  "core (link_front b bs ! i) = core (bs ! i)" "core (unlink_buf b bs ! i) = core (bs ! i)"
  by (simp_all add: link_front_def unlink_buf_def Let_def)

lemma core_binit:
  assumes "length (bufs s) = Suc NBUF" "i < NBUF"
  shows "core (bufs (binit s) ! i) = core ((bufs s ! i)\<lparr>block_lock := initsleeplock ''buffer''\<rparr>)"
proof -
  let ?bs = "(bufs s)[NBUF := (bufs s ! NBUF)\<lparr>bprev := NBUF, bnext := NBUF\<rparr>]"
  let ?f = "\<lambda>n. fold (\<lambda>b bs. link_front b (bs[b := (bs ! b)\<lparr>block_lock := initsleeplock ''buffer''\<rparr>])) [0..<n] ?bs"
  have "linked (?f n) (rev [0..<n]) \<and> (\<forall>i<NBUF. core (?f n ! i) =
      (if i < n then core ((bufs s ! i)\<lparr>block_lock := initsleeplock ''buffer''\<rparr>) else core (bufs s ! i)))"
    if "n \<le> NBUF" for n
    using that
  proof (induction n)
    case 0
    then show ?case using assms(1) by (simp add: linked_def)
  next
    case (Suc n)
    define bs where "bs = ?f n"
    have l: "linked bs (rev [0..<n])"
      and c: "\<And>i. i < NBUF \<Longrightarrow> core (bs ! i) =
        (if i < n then core ((bufs s ! i)\<lparr>block_lock := initsleeplock ''buffer''\<rparr>) else core (bufs s ! i))"
      using Suc by (simp_all add: bs_def)
    have "?f (Suc n) = link_front n (bs[n := (bs ! n)\<lparr>block_lock := initsleeplock ''buffer''\<rparr>])" by (simp add: bs_def)
    moreover have "linked (bs[n := (bs ! n)\<lparr>block_lock := initsleeplock ''buffer''\<rparr>]) (rev [0..<n])"
      using l by (simp add: linked_upd)
    then have "linked (link_front n (bs[n := (bs ! n)\<lparr>block_lock := initsleeplock ''buffer''\<rparr>])) (rev [0..<Suc n])"
      using linked_front [of _ "rev [0..<n]" n] Suc.prems by simp
    moreover have "core (bs[n := (bs ! n)\<lparr>block_lock := initsleeplock ''buffer''\<rparr>] ! i) =
        (if i < Suc n then core ((bufs s ! i)\<lparr>block_lock := initsleeplock ''buffer''\<rparr>) else core (bufs s ! i))"
      if "i < NBUF" for i
      using c [OF that] linkedD(1) [OF l] that by (cases "i = n") (auto simp: core_def)
    ultimately show ?case by (simp only: core_links) simp
  qed
  from this [of NBUF] show ?thesis using assms(2) by (simp add: binit_def Let_def)
qed

section \<open>Recycling\<close>

text \<open>
  Runs of the cache: \<open>hs\<close> lists the buffers whose last reference was dropped, latest first, and
  before them the buffers in the order in which \<open>binit\<close> linked them. Other kernel code and other
  processes run between the steps, which is any change that leaves the buffers alone; a \<open>bget\<close>
  that finds its buffer locked has counted its reference, as \<open>bpin\<close> does, and continues
  with the acquisition of the lock later.
\<close>

inductive cache_run :: "nat list \<Rightarrow> 'a bstate_scheme \<Rightarrow> bool" where
  start: "length (bufs s) = Suc NBUF \<Longrightarrow> cache_run (rev [0..<NBUF]) (binit s)"
| get: "cache_run hs s \<Longrightarrow> bget dev n s = Inr (b, s') \<Longrightarrow> cache_run hs s'"
| acquire: "cache_run hs s \<Longrightarrow> block_acquire b s = Inr s' \<Longrightarrow> cache_run hs s'"
| read: "cache_run hs s \<Longrightarrow> bread dev n s = Inr (b, s') \<Longrightarrow> cache_run hs s'"
| flush: "cache_run hs s \<Longrightarrow> bwrite b s = Inr s' \<Longrightarrow> cache_run hs s'"
| release: "cache_run hs s \<Longrightarrow> b < NBUF \<Longrightarrow> brelse b s = Inr s' \<Longrightarrow>
    cache_run (if brefcnt (bufs s ! b) = 1 then b # hs else hs) s'"
| pin: "cache_run hs s \<Longrightarrow> cache_run hs (bpin b s)"
| unpin: "cache_run hs s \<Longrightarrow> cache_run hs (bunpin b s)"
| data: "cache_run hs s \<Longrightarrow> cache_run hs (set_data b d s)"
| other: "cache_run hs s \<Longrightarrow> bufs s' = bufs s \<Longrightarrow> cache_run hs s'"

text \<open>Each buffer once, at its latest release.\<close>

definition recency :: "nat list \<Rightarrow> nat list" where
  "recency hs = rev (remdups (rev hs))"

lemma remdups_snoc: "remdups (xs @ [b]) = filter (\<lambda>x. x \<noteq> b) (remdups xs) @ [b]"
  by (induction xs) auto

lemma recency_Cons: "recency (b # hs) = b # filter (\<lambda>x. x \<noteq> b) (recency hs)"
  by (simp add: recency_def remdups_snoc rev_filter)

lemma linked_touch:
  assumes "linked bs xs" "b \<in> set xs"
  shows "linked (link_front b (unlink_buf b bs)) (b # filter (\<lambda>x. x \<noteq> b) xs)"
proof -
  obtain us vs where e: "xs = us @ b # vs" using split_list [OF assms(2)] by blast
  then have n: "b \<notin> set us" "b \<notin> set vs" and b: "b < NBUF" using linkedD(2,3) [OF assms(1)] by auto
  have "filter (\<lambda>x. x \<noteq> b) us = us" "filter (\<lambda>x. x \<noteq> b) vs = vs" using n by (auto intro!: filter_True)
  then have "filter (\<lambda>x. x \<noteq> b) xs = us @ vs" unfolding e by simp
  then show ?thesis using linked_front [OF linked_unlink [of bs us b vs] b] assms(1) n by (simp add: e)
qed

lemma linked_block_acquire:
  "block_acquire b s = Inr s' \<Longrightarrow> linked (bufs s') xs \<longleftrightarrow> linked (bufs s) xs"
  by (auto simp: block_acquire_def kbind_eq_Inr linked_upd)

lemma linked_bget:
  assumes "bget dev n s = Inr (b, s')"
  shows "linked (bufs s') xs \<longleftrightarrow> linked (bufs s) xs"
proof -
  obtain f where "block_acquire b (upd_buf b f s) = Inr s'" "\<And>k. bnext (f k) = bnext k" "\<And>k. bprev (f k) = bprev k"
    using assms unfolding bget_def Let_def kbind_eq_Inr
    by (force simp del: bscan_cached.simps bscan_unused.simps split: option.splits)
  then show ?thesis using linked_block_acquire linked_upd [of f "bufs s" b xs] by fastforce
qed

lemma linked_ramdiskrw: "ramdiskrw b w s = Inr s' \<Longrightarrow> linked (bufs s') xs \<longleftrightarrow> linked (bufs s) xs"
  by (auto simp: ramdiskrw_def Let_def linked_upd split: if_splits)

lemma linked_bread: "bread dev n s = Inr (b, s') \<Longrightarrow> linked (bufs s') xs \<longleftrightarrow> linked (bufs s) xs"
  by (auto simp: bread_def kbind_eq_Inr linked_upd dest!: linked_bget [where xs = xs]
      linked_ramdiskrw [where xs = xs] split: if_splits)

lemma linked_brelse:
  assumes "brelse b s = Inr s'" "linked (bufs s) xs" "b \<in> set xs"
  shows "linked (bufs s') (if brefcnt (bufs s ! b) = 1 then b # filter (\<lambda>x. x \<noteq> b) xs else xs)"
proof -
  let ?bs = "bufs s" and ?k = "bufs s ! b"
  have w: "bufs (wakeup c s) = bufs s" for c by (simp add: wakeup_def)
  have b: "b < length ?bs" using linkedD(1,3) [OF assms(2)] assms(3) by auto
  define k' where "k' = ?k\<lparr>block_lock := (block_lock ?k)\<lparr>slocked := False, spid := 0\<rparr>, brefcnt := brefcnt ?k - 1\<rparr>"
  have l: "linked (?bs[b := k']) xs"
    using linked_upd [of "\<lambda>k. k\<lparr>block_lock := (block_lock ?k)\<lparr>slocked := False, spid := 0\<rparr>, brefcnt := brefcnt ?k - 1\<rparr>" ?bs b xs]
      assms(2) by (simp add: k'_def)
  have "bufs s' = (if brefcnt ?k - 1 = 0 then link_front b (unlink_buf b (?bs[b := k'])) else ?bs[b := k'])"
    using assms(1) b by (auto simp: brelse_def releasesleep_def Let_def w k'_def split: if_splits)
  moreover have "brefcnt ?k - 1 = 0 \<longleftrightarrow> brefcnt ?k = 1" by simp
  ultimately show ?thesis using l linked_touch [OF l assms(3)] by simp
qed

lemma cache_run_linked:
  assumes "cache_run hs s"
  shows "linked (bufs s) (recency hs)" "set hs = {..<NBUF}"
  using assms
proof (induction rule: cache_run.induct)
  case (start s)
  { case 1 show ?case using linked_binit [OF start] by (simp add: recency_def)
  next case 2 show ?case by auto }
next
  case (release hs s b s')
  have b: "b \<in> set (recency hs)" using release.hyps release.IH(2) by (simp add: recency_def)
  { case 1 show ?case
      using linked_brelse [OF release.hyps(3) release.IH(1) b] by (simp add: recency_Cons split: if_splits)
  next case 2 show ?case using release.hyps release.IH(2) by auto }
next
  case (flush hs s b s')
  { case 1 show ?case using flush by (auto simp: bwrite_def dest!: linked_ramdiskrw split: if_splits)
  next case 2 show ?case by (rule flush.IH) }
qed (simp_all add: linked_bget linked_bread linked_block_acquire bpin_def bunpin_def set_data_def linked_upd)


text \<open>\<open>bget\<close> over the list of buffers instead of the pointers.\<close>

definition bget_hit :: "nat \<Rightarrow> 'a bstate_scheme \<Rightarrow> (nat \<times> 'a bstate_scheme) res" where
  "bget_hit b s = kbind (block_acquire b (upd_buf b (\<lambda>k. k\<lparr>brefcnt := brefcnt k + 1\<rparr>) s)) (\<lambda>s. Inr (b, s))"

definition bget_miss :: "nat \<Rightarrow> nat \<Rightarrow> nat \<Rightarrow> 'a bstate_scheme \<Rightarrow> (nat \<times> 'a bstate_scheme) res" where
  "bget_miss dev n b s = kbind (block_acquire b (upd_buf b (\<lambda>k. k\<lparr>bdev := dev, bblockno := n,
     bvalid := False, brefcnt := 1\<rparr>) s)) (\<lambda>s. Inr (b, s))"

lemma bget_eq:
  assumes "linked (bufs s) xs"
  shows "bget dev n s =
    (case find (\<lambda>b. bdev (bufs s ! b) = dev \<and> bblockno (bufs s ! b) = n) xs of
       Some b \<Rightarrow> bget_hit b s
     | None \<Rightarrow> (case find (\<lambda>b. brefcnt (bufs s ! b) = 0) (rev xs) of
         Some b \<Rightarrow> bget_miss dev n b s | None \<Rightarrow> Inl (Panic ''bget: no buffers'')))"
  unfolding bget_def linked_scans [OF assms] bget_hit_def bget_miss_def Let_def
  by (simp cong: option.case_cong)

lemma find_Some_split:
  "find P xs = Some x \<longleftrightarrow> (\<exists>us vs. xs = us @ x # vs \<and> P x \<and> (\<forall>u\<in>set us. \<not> P u))"
proof
  show "find P xs = Some x \<Longrightarrow> \<exists>us vs. xs = us @ x # vs \<and> P x \<and> (\<forall>u\<in>set us. \<not> P u)"
  proof (induction xs)
    case (Cons y xs)
    show ?case
    proof (cases "P y")
      case True
      then show ?thesis using Cons.prems by (rule_tac exI [of _ "[]"]) auto
    next
      case False
      then obtain us vs where "xs = us @ x # vs" "P x" "\<forall>u\<in>set us. \<not> P u" using Cons by auto
      then show ?thesis using False by (rule_tac exI [of _ "y # us"]) auto
    qed
  qed simp
next
  assume "\<exists>us vs. xs = us @ x # vs \<and> P x \<and> (\<forall>u\<in>set us. \<not> P u)"
  then obtain us vs where xs: "xs = us @ x # vs" "P x" "\<forall>u\<in>set us. \<not> P u" by blast
  have "find P (us @ x # vs) = Some x" using xs(2,3) by (induction us) auto
  then show "find P xs = Some x" using xs(1) by simp
qed

text \<open>In the history, \<open>c\<close> was released after \<open>b\<close>.\<close>

definition released_after :: "nat list \<Rightarrow> nat \<Rightarrow> nat \<Rightarrow> bool" where
  "released_after hs c b \<longleftrightarrow> (\<exists>us vs ws. recency hs = us @ c # vs @ b # ws)"

lemma find_rev_least:
  assumes "find P (rev xs) = Some b" "c \<in> set xs" "P c" "c \<noteq> b"
  shows "\<exists>us vs ws. xs = us @ c # vs @ b # ws"
proof -
  obtain us vs where e: "rev xs = us @ b # vs" "\<forall>u\<in>set us. \<not> P u"
    using assms(1) unfolding find_Some_split by blast
  then have xs: "xs = rev vs @ b # rev us" by (metis append.assoc append_Cons append_Nil rev.simps(2) rev_append rev_rev_ident)
  then have "c \<in> set (rev vs)" using assms(2-4) e(2) by auto
  then obtain a d where "rev vs = a @ c # d" using split_list by fastforce
  then have "xs = a @ c # d @ b # rev us" using xs by simp
  then show ?thesis by blast
qed

definition is_cached :: "nat \<Rightarrow> nat \<Rightarrow> 'a bstate_scheme \<Rightarrow> nat \<Rightarrow> bool" where
  "is_cached dev n s b \<longleftrightarrow> b < NBUF \<and> bdev (bufs s ! b) = dev \<and> bblockno (bufs s ! b) = n"

lemma block_acquire_Inr:
  "block_acquire b s = Inr s' \<longleftrightarrow> \<not> slocked (block_lock (bufs s ! b)) \<and>
     s' = upd_buf b (\<lambda>k. k\<lparr>block_lock := (block_lock (bufs s ! b))\<lparr>slocked := True, spid := mypid s\<rparr>\<rparr>) s"
  by (auto simp: block_acquire_def acquiresleep_def kbind_eq_Inr)

lemma block_acquire_Inl:
  "block_acquire b s = Inl e \<longleftrightarrow> slocked (block_lock (bufs s ! b)) \<and> e = Sleep (Ch_buf b)"
  by (auto simp: block_acquire_def acquiresleep_def kbind_eq_Inl)

text \<open>C17: The cache recycles the least recently used buffer. In every run from \<open>binit\<close>, looking up a
  block ends: a cached block is found again; otherwise the buffer taken has no reference, and
  every other buffer without a reference was released later; with every buffer in use the
  kernel panics. No buffer other than the one returned changes.\<close>

theorem bget_recycles_least_recent:
  assumes "cache_run hs s"
  shows "bget dev n s \<noteq> Inl Diverge \<and>
    (bget dev n s = Inl (Panic p) \<longleftrightarrow> p = ''bget: no buffers'' \<and> (\<nexists>b. is_cached dev n s b) \<and>
      (\<forall>b<NBUF. brefcnt (bufs s ! b) \<noteq> 0)) \<and>
    (bget dev n s = Inr (b, s') \<longrightarrow> b < NBUF \<and> (\<forall>c. c \<noteq> b \<longrightarrow> bufs s' ! c = bufs s ! c) \<and> is_cached dev n s' b \<and>
      (if \<exists>c. is_cached dev n s c
       then is_cached dev n s b \<and> brefcnt (bufs s' ! b) = brefcnt (bufs s ! b) + 1 \<and>
         bvalid (bufs s' ! b) = bvalid (bufs s ! b) \<and> bdata (bufs s' ! b) = bdata (bufs s ! b)
       else brefcnt (bufs s ! b) = 0 \<and> brefcnt (bufs s' ! b) = 1 \<and> \<not> bvalid (bufs s' ! b) \<and>
         (\<forall>c<NBUF. brefcnt (bufs s ! c) = 0 \<longrightarrow> c = b \<or> released_after hs c b)))"
proof (rule conjI [OF _ conjI [OF _ impI]])
  have l: "linked (bufs s) (recency hs)" and hs: "set (recency hs) = {..<NBUF}"
    using cache_run_linked [OF assms] by (simp_all add: recency_def)
  let ?hit = "find (\<lambda>b. bdev (bufs s ! b) = dev \<and> bblockno (bufs s ! b) = n) (recency hs)"
  let ?free = "find (\<lambda>b. brefcnt (bufs s ! b) = 0) (rev (recency hs))"
  have len: "length (bufs s) = Suc NBUF" by (rule linkedD(1) [OF l])
  have hit: "?hit = None \<longleftrightarrow> (\<nexists>c. is_cached dev n s c)" "\<And>b. ?hit = Some b \<Longrightarrow> is_cached dev n s b"
    using hs by (auto simp: find_None_iff is_cached_def find_Some_split)
  have free: "?free = None \<longleftrightarrow> (\<forall>b<NBUF. brefcnt (bufs s ! b) \<noteq> 0)"
    "\<And>b. ?free = Some b \<Longrightarrow> b < NBUF \<and> brefcnt (bufs s ! b) = 0"
    using hs by (auto simp: find_None_iff find_Some_iff) (metis lessThan_iff nth_mem rev_nth set_rev length_rev)+
  note e = bget_eq [OF l, of dev n]
  show "bget dev n s \<noteq> Inl Diverge"
    unfolding e by (auto simp: bget_hit_def bget_miss_def kbind_eq_Inl block_acquire_Inl split: option.splits)
  show "bget dev n s = Inl (Panic p) \<longleftrightarrow> p = ''bget: no buffers'' \<and> (\<nexists>b. is_cached dev n s b) \<and>
      (\<forall>b<NBUF. brefcnt (bufs s ! b) \<noteq> 0)"
    unfolding e hit(1) [symmetric] free(1) [symmetric]
    by (auto simp: bget_hit_def bget_miss_def kbind_eq_Inl block_acquire_Inl split: option.splits)
  assume g: "bget dev n s = Inr (b, s')"
  show "b < NBUF \<and> (\<forall>c. c \<noteq> b \<longrightarrow> bufs s' ! c = bufs s ! c) \<and> is_cached dev n s' b \<and>
      (if \<exists>c. is_cached dev n s c
       then is_cached dev n s b \<and> brefcnt (bufs s' ! b) = brefcnt (bufs s ! b) + 1 \<and>
         bvalid (bufs s' ! b) = bvalid (bufs s ! b) \<and> bdata (bufs s' ! b) = bdata (bufs s ! b)
       else brefcnt (bufs s ! b) = 0 \<and> brefcnt (bufs s' ! b) = 1 \<and> \<not> bvalid (bufs s' ! b) \<and>
         (\<forall>c<NBUF. brefcnt (bufs s ! c) = 0 \<longrightarrow> c = b \<or> released_after hs c b))"
  proof (cases ?hit)
    case (Some c)
    then have "c = b" using g unfolding e by (auto simp: bget_hit_def kbind_eq_Inr)
    then show ?thesis using g Some hit(2) [OF Some] len unfolding e
      by (auto simp: bget_hit_def kbind_eq_Inr block_acquire_Inr is_cached_def)
  next
    case None
    then obtain c where f: "?free = Some c" using g unfolding e by (auto split: option.splits)
    then have c: "c = b" using g None unfolding e by (auto simp: bget_miss_def kbind_eq_Inr)
    have "released_after hs d b" if "d < NBUF" "brefcnt (bufs s ! d) = 0" "d \<noteq> b" for d
      using find_rev_least [OF f [unfolded c], of d] that hs by (simp add: released_after_def)
    then show ?thesis using g None hit(1) free(2) [OF f] f c len unfolding e
      by (auto simp: bget_miss_def kbind_eq_Inr block_acquire_Inr is_cached_def)
  qed
qed


theorem bget_recycles_least_recent_witness:
  "\<exists>s'. bget 1 5 (binit zero_bstate) = Inr (0, s') \<and> is_cached 1 5 s' 0 \<and> \<not> bvalid (bufs s' ! 0) \<and>
     bufs s' ! 3 = bufs (binit zero_bstate) ! 3"
proof -
  let ?s = "binit zero_bstate" and ?hs = "rev [0..<NBUF]"
  have z: "bufs zero_bstate = replicate (Suc NBUF) zero_buf"
    by (simp add: zero_bstate_def zero_cstate_def zero_ustate_def zero_pstate_def bstate.defs cstate.defs
        ustate.defs pstate.defs del: replicate_Suc)
  then have len: "length (bufs zero_bstate) = Suc NBUF" by simp
  have run: "cache_run ?hs ?s" by (rule cache_run.start [OF len])
  have "core (bufs ?s ! i) = (False, 0, 0, initsleeplock ''buffer'', 0, replicate BSIZE 0)" if "i < NBUF" for i
    using core_binit [OF len that] that
    by (simp add: core_def z zero_buf_def del: replicate_Suc)
  then have c: "bdev (bufs ?s ! i) = 0" "brefcnt (bufs ?s ! i) = 0"
    "block_lock (bufs ?s ! i) = initsleeplock ''buffer''" if "i < NBUF" for i
    using that by (simp_all add: core_def)
  have "\<nexists>b. is_cached 1 5 ?s b" using c(1) by (auto simp: is_cached_def)
  have l: "linked (bufs ?s) ?hs" using linked_binit [OF len] .
  have "find (\<lambda>b. bdev (bufs ?s ! b) = 1 \<and> bblockno (bufs ?s ! b) = 5) ?hs = None"
    using c(1) by (auto simp: find_None_iff)
  moreover have "find (\<lambda>b. brefcnt (bufs ?s ! b) = 0) (rev ?hs) = Some 0"
    using c(2) [of 0] by (simp add: NBUF_def upt_conv_Cons)
  ultimately obtain s' where g: "bget 1 5 ?s = Inr (0, s')"
    using bget_eq [OF l, of 1 5] c(3) [of 0] len linkedD(1) [OF l]
    by (auto simp: bget_miss_def block_acquire_def acquiresleep_def initsleeplock_def NBUF_def)
  show ?thesis using bget_recycles_least_recent [OF run, of 1 5 _ 0 s'] g \<open>\<nexists>b. is_cached 1 5 ?s b\<close> by auto
qed

end
