(* ===== verification/BlockView.thy ===== *)
theory BlockView
  imports BioCache
begin

text \<open>
  The blocks behind the buffer cache. \<open>blk dev s n\<close> is the content of block \<open>n\<close>: the cached copy or,
  without one, the disk. \<open>cache_ok dev L H s\<close> says that the cache is sound when the blocks \<open>L\<close> are
  pinned and the blocks \<open>H\<close> are held by the current process: a block has at most one buffer,
  the reference counts are exact and an unreferenced valid buffer agrees with the disk. The
  lemmas give each cache operation as an operation on contents.
\<close>

section \<open>Processes that were woken\<close>

definition woke :: "proc list \<Rightarrow> proc list \<Rightarrow> bool" where
  "woke ps qs \<longleftrightarrow> list_all2 (\<lambda>p q. q = p \<or> pst p = SLEEPING \<and> q = p\<lparr>pst := RUNNABLE\<rparr>) ps qs"

lemma woke_refl [simp]: "woke ps ps"
  by (simp add: woke_def list_all2_refl)

lemma woke_trans [trans]: "woke ps qs \<Longrightarrow> woke qs rs \<Longrightarrow> woke ps rs"
  unfolding woke_def by (erule list_all2_trans [rotated], assumption) auto

lemma woke_wakeup [simp]: "woke (procs s) (procs (wakeup c s))"
  by (auto simp: woke_def wakeup_def wakeup1_def list_all2_conv_all_nth)

lemma woke_fields:
  assumes "woke ps qs"
  shows "length qs = length ps" "pid (qs ! i) = pid (ps ! i)" "pagetable (qs ! i) = pagetable (ps ! i)"
    "killed (qs ! i) = killed (ps ! i)" "cwd (qs ! i) = cwd (ps ! i)" "ofile (qs ! i) = ofile (ps ! i)"
    "psz (qs ! i) = psz (ps ! i)" "trapframe (qs ! i) = trapframe (ps ! i)" "parent (qs ! i) = parent (ps ! i)"
proof -
  show len: "length qs = length ps" using assms by (simp add: woke_def list_all2_lengthD)
  have "qs ! i = ps ! i \<or> qs ! i = (ps ! i)\<lparr>pst := RUNNABLE\<rparr>"
  proof (cases "i < length ps")
    case True
    then show ?thesis using assms by (auto simp: woke_def list_all2_conv_all_nth)
  qed (simp add: nth_beyond [OF len] len)
  then show "pid (qs ! i) = pid (ps ! i)" "pagetable (qs ! i) = pagetable (ps ! i)"
    "killed (qs ! i) = killed (ps ! i)" "cwd (qs ! i) = cwd (ps ! i)" "ofile (qs ! i) = ofile (ps ! i)"
    "psz (qs ! i) = psz (ps ! i)" "trapframe (qs ! i) = trapframe (ps ! i)" "parent (qs ! i) = parent (ps ! i)"
    by auto
qed

section \<open>Contents and invariant\<close>

definition blk :: "nat \<Rightarrow> 'a bstate_scheme \<Rightarrow> nat \<Rightarrow> byte list" where
  "blk dev s n =
     (case find (\<lambda>b. bdev (bufs s ! b) = dev \<and> bblockno (bufs s ! b) = n \<and> bvalid (bufs s ! b)) [0..<NBUF] of
        Some b \<Rightarrow> bdata (bufs s ! b) | None \<Rightarrow> disk s n)"

definition buf_ok :: "nat \<Rightarrow> nat set \<Rightarrow> nat set \<Rightarrow> u32 \<Rightarrow> (nat \<Rightarrow> byte list) \<Rightarrow> buf \<Rightarrow> bool" where
  "buf_ok dev L H me d k \<longleftrightarrow> length (bdata k) = BSIZE \<and>
     (if bdev k = dev then
        unat (brefcnt k) = of_bool (bblockno k \<in> L) + of_bool (bblockno k \<in> H) \<and>
        (slocked (block_lock k) \<longleftrightarrow> bblockno k \<in> H) \<and> (bblockno k \<in> H \<longrightarrow> spid (block_lock k) = me) \<and>
        (bblockno k \<in> L \<union> H \<longrightarrow> bvalid k) \<and>
        (bblockno k \<notin> L \<union> H \<and> bvalid k \<longrightarrow> bdata k = d (bblockno k))
      else brefcnt k = 0 \<and> \<not> slocked (block_lock k))"

definition cache_ok :: "nat \<Rightarrow> nat set \<Rightarrow> nat set \<Rightarrow> 'a bstate_scheme \<Rightarrow> bool" where
  "cache_ok dev L H s \<longleftrightarrow> (\<exists>xs. linked (bufs s) xs \<and> set xs = {..<NBUF}) \<and>
     (\<forall>b<NBUF. buf_ok dev L H (mypid s) (disk s) (bufs s ! b)) \<and>
     (\<forall>n\<in>L \<union> H. \<exists>b. is_cached dev n s b) \<and>
     (\<forall>n b c. is_cached dev n s b \<and> is_cached dev n s c \<longrightarrow> b = c) \<and> (\<forall>n. length (disk s n) = BSIZE)"

lemma buf_ok_core: "core k = core k' \<Longrightarrow> buf_ok dev L H me d k \<longleftrightarrow> buf_ok dev L H me d k'"
  by (auto simp: core_def buf_ok_def)

lemma cache_okD:
  assumes "cache_ok dev L H s"
  shows "length (bufs s) = Suc NBUF" "\<And>b. b < NBUF \<Longrightarrow> buf_ok dev L H (mypid s) (disk s) (bufs s ! b)"
    "\<And>n. n \<in> L \<union> H \<Longrightarrow> \<exists>b. is_cached dev n s b"
    "\<And>n b c. is_cached dev n s b \<Longrightarrow> is_cached dev n s c \<Longrightarrow> b = c" "\<And>n. length (disk s n) = BSIZE"
  using assms by (auto simp: cache_ok_def dest: linkedD(1))

lemma blk_cong: "bufs s' = bufs s \<Longrightarrow> disk s' = disk s \<Longrightarrow> blk dev s' = blk dev s"
  by (rule ext) (simp add: blk_def cong: option.case_cong)

lemma cache_ok_cong:
  "bufs s' = bufs s \<Longrightarrow> disk s' = disk s \<Longrightarrow> mypid s' = mypid s \<Longrightarrow> cache_ok dev L H s' \<longleftrightarrow> cache_ok dev L H s"
  by (simp add: cache_ok_def is_cached_def)

lemma blk_cached:
  assumes "cache_ok dev L H s" "is_cached dev n s b"
  shows "blk dev s n = (if bvalid (bufs s ! b) then bdata (bufs s ! b) else disk s n)"
proof (cases "bvalid (bufs s ! b)")
  case True
  have "find (\<lambda>b. bdev (bufs s ! b) = dev \<and> bblockno (bufs s ! b) = n \<and> bvalid (bufs s ! b)) [0..<NBUF] = Some b"
  proof -
    obtain c where c: "find (\<lambda>b. bdev (bufs s ! b) = dev \<and> bblockno (bufs s ! b) = n \<and> bvalid (bufs s ! b)) [0..<NBUF] = Some c"
      using assms(2) True by (fastforce simp: find_None_iff is_cached_def not_None_eq [symmetric] simp del: not_None_eq)
    then have "is_cached dev n s c" by (auto simp: find_Some_iff is_cached_def)
    then have "c = b" using cache_okD(4) [OF assms(1)] assms(2) by blast
    then show ?thesis using c by simp
  qed
  then show ?thesis using True by (simp add: blk_def)
next
  case False
  have "find (\<lambda>b. bdev (bufs s ! b) = dev \<and> bblockno (bufs s ! b) = n \<and> bvalid (bufs s ! b)) [0..<NBUF] = None"
    using False cache_okD(4) [OF assms(1) assms(2)] by (auto simp: find_None_iff is_cached_def)
  then show ?thesis using False by (simp add: blk_def)
qed

lemma blk_uncached: "(\<And>b. \<not> is_cached dev n s b) \<Longrightarrow> blk dev s n = disk s n"
proof -
  assume "\<And>b. \<not> is_cached dev n s b"
  then have "find (\<lambda>b. bdev (bufs s ! b) = dev \<and> bblockno (bufs s ! b) = n \<and> bvalid (bufs s ! b)) [0..<NBUF] = None"
    by (auto simp: find_None_iff is_cached_def)
  then show ?thesis by (simp add: blk_def)
qed

lemma blk_clean:
  assumes "cache_ok dev L H s" "n \<notin> L \<union> H"
  shows "blk dev s n = disk s n"
proof (cases "\<exists>b. is_cached dev n s b")
  case True
  then obtain b where b: "is_cached dev n s b" by blast
  then show ?thesis using blk_cached [OF assms(1) b] cache_okD(2) [OF assms(1), of b] assms(2)
    by (auto simp: is_cached_def buf_ok_def)
qed (auto intro: blk_uncached)

lemma length_blk:
  assumes "cache_ok dev L H s"
  shows "length (blk dev s n) = BSIZE"
proof (cases "\<exists>b. is_cached dev n s b")
  case True
  then obtain b where b: "is_cached dev n s b" by blast
  then have "length (bdata (bufs s ! b)) = BSIZE"
    using cache_okD(2) [OF assms, of b] by (auto simp: is_cached_def buf_ok_def)
  then show ?thesis using blk_cached [OF assms b] cache_okD(5) [OF assms] by simp
next
  case False
  then show ?thesis using blk_uncached cache_okD(5) [OF assms] by fastforce
qed

text \<open>The blocks in \<open>R\<close> stay in their buffers.\<close>

definition keeps :: "nat \<Rightarrow> nat set \<Rightarrow> 'a bstate_scheme \<Rightarrow> 'a bstate_scheme \<Rightarrow> bool" where
  "keeps dev R s s' \<longleftrightarrow> (\<forall>m i. m \<in> R \<and> is_cached dev m s i \<longrightarrow> is_cached dev m s' i)"

lemma keepsD: "keeps dev R s s' \<Longrightarrow> m \<in> R \<Longrightarrow> is_cached dev m s i \<Longrightarrow> is_cached dev m s' i"
  by (auto simp: keeps_def)

lemma keeps_refl [simp]: "keeps dev R s s"
  by (simp add: keeps_def)

lemma keeps_trans [trans]: "keeps dev R s t \<Longrightarrow> keeps dev R t u \<Longrightarrow> keeps dev R s u"
  by (auto simp: keeps_def)

lemma keeps_mono: "keeps dev R s t \<Longrightarrow> R' \<subseteq> R \<Longrightarrow> keeps dev R' s t"
  by (auto simp: keeps_def)

lemma keeps_cong: "bufs s' = bufs s \<Longrightarrow> keeps dev R s s'"
  by (auto simp: keeps_def is_cached_def)

text \<open>Replacing one buffer: every cache operation is an instance.\<close>

lemma cache_ok_replace:
  assumes ok: "cache_ok dev L H s" and b: "b < NBUF"
    and l: "linked (bufs s') xs" "set xs = {..<NBUF}"
    and c: "\<And>i. i < NBUF \<Longrightarrow> core (bufs s' ! i) = core (if i = b then k else bufs s ! i)"
    and k: "bdev k = dev" "bblockno k = n" "buf_ok dev L' H' (mypid s) (disk s') k"
    and u: "\<And>j. is_cached dev n s j \<Longrightarrow> j = b"
    and old: "\<And>m. is_cached dev m s b \<Longrightarrow> m \<noteq> n \<Longrightarrow> m \<notin> L \<union> H"
    and same: "\<And>m. m \<noteq> n \<Longrightarrow> (m \<in> L' \<longleftrightarrow> m \<in> L) \<and> (m \<in> H' \<longleftrightarrow> m \<in> H) \<and> disk s' m = disk s m"
    and me: "mypid s' = mypid s" and d: "length (disk s' n) = BSIZE"
  shows "cache_ok dev L' H' s'" "is_cached dev n s' b"
    "blk dev s' = (blk dev s)(n := if bvalid k then bdata k else disk s' n)" "keeps dev (L \<union> H) s s'"
proof -
  have cc: "is_cached dev m s' i \<longleftrightarrow> (if i = b then m = n else is_cached dev m s i)" for m i
  proof (cases "i < NBUF")
    case True
    then show ?thesis using c [OF True] k by (auto simp: is_cached_def core_def)
  qed (use b in \<open>auto simp: is_cached_def\<close>)
  show ib: "is_cached dev n s' b" by (simp add: cc)
  show "keeps dev (L \<union> H) s s'" using old by (auto simp: keeps_def cc)
  have "buf_ok dev L' H' (mypid s') (disk s') (bufs s' ! i)" if i: "i < NBUF" for i
  proof (cases "i = b")
    case True
    then show ?thesis using k(3) buf_ok_core [OF c [OF i]] me by simp
  next
    case False
    have "bdev (bufs s ! i) = dev \<Longrightarrow> bblockno (bufs s ! i) \<noteq> n" using u [of i] False i by (auto simp: is_cached_def)
    then have "buf_ok dev L' H' (mypid s) (disk s') (bufs s ! i)"
      using cache_okD(2) [OF ok i] same by (auto simp: buf_ok_def)
    then show ?thesis using buf_ok_core [OF c [OF i]] False me by simp
  qed
  moreover have "\<exists>i. is_cached dev m s' i" if "m \<in> L' \<union> H'" for m
  proof (cases "m = n")
    case False
    then have "m \<in> L \<union> H" using that same by blast
    then obtain i where i: "is_cached dev m s i" using cache_okD(3) [OF ok] by blast
    then have "i \<noteq> b" using old [of m] False \<open>m \<in> L \<union> H\<close> by blast
    then show ?thesis using i cc by metis
  qed (use ib in blast)
  moreover have "i = j" if "is_cached dev m s' i" "is_cached dev m s' j" for m i j
    using that cache_okD(4) [OF ok] u by (auto simp: cc split: if_splits)
  moreover have "length (disk s' m) = BSIZE" for m using same [of m] d cache_okD(5) [OF ok] by (cases "m = n") auto
  ultimately show ok': "cache_ok dev L' H' s'" using l unfolding cache_ok_def by blast
  show "blk dev s' = (blk dev s)(n := if bvalid k then bdata k else disk s' n)"
  proof
    fix m
    show "blk dev s' m = ((blk dev s)(n := if bvalid k then bdata k else disk s' n)) m"
    proof (cases "m = n")
      case True
      then show ?thesis using blk_cached [OF ok' ib] c [OF b] by (auto simp: core_def)
    next
      case False
      show ?thesis
      proof (cases "\<exists>i. i \<noteq> b \<and> is_cached dev m s i")
        case True
        then obtain i where i: "i \<noteq> b" "is_cached dev m s i" by blast
        then have "is_cached dev m s' i" by (simp add: cc)
        moreover have "i < NBUF" using i by (simp add: is_cached_def)
        ultimately show ?thesis
          using blk_cached [OF ok' \<open>is_cached dev m s' i\<close>] blk_cached [OF ok i(2)] c [of i] i(1) False same
          by (auto simp: core_def)
      next
        case none: False
        then have "\<not> is_cached dev m s' i" for i using False by (auto simp: cc)
        then have "blk dev s' m = disk s m" using blk_uncached [of dev m s'] False same by auto
        moreover have "blk dev s m = disk s m"
        proof (cases "is_cached dev m s b")
          case True
          then show ?thesis using blk_clean [OF ok old [OF True False]] by simp
        next
          case False
          then show ?thesis using none by (auto intro: blk_uncached)
        qed
        ultimately show ?thesis using False by simp
      qed
    qed
  qed
qed


section \<open>Reading a block\<close>

lemma finite_refs:
  assumes "cache_ok dev L H s"
  shows "finite (L \<union> H)"
proof -
  have "L \<union> H \<subseteq> (\<lambda>b. bblockno (bufs s ! b)) ` {..<NBUF}"
    using cache_okD(3) [OF assms] by (auto simp: is_cached_def image_iff)
  then show ?thesis by (rule finite_subset) simp
qed

lemma unused_buffer:
  assumes ok: "cache_ok dev L H s" and c: "card (L \<union> H) < NBUF"
  shows "\<exists>b<NBUF. brefcnt (bufs s ! b) = 0"
proof (rule ccontr)
  assume "\<not> (\<exists>b<NBUF. brefcnt (bufs s ! b) = 0)"
  then have r: "bdev (bufs s ! b) = dev \<and> bblockno (bufs s ! b) \<in> L \<union> H" if "b < NBUF" for b
    using cache_okD(2) [OF ok that] that by (fastforce simp: buf_ok_def unat_eq_0 split: if_splits)
  have ic: "is_cached dev (bblockno (bufs s ! b)) s b" if "b < NBUF" for b
    using r [OF that] that by (simp add: is_cached_def)
  have "inj_on (\<lambda>b. bblockno (bufs s ! b)) {..<NBUF}"
  proof (rule inj_onI)
    fix b c
    assume "b \<in> {..<NBUF}" "c \<in> {..<NBUF}" "bblockno (bufs s ! b) = bblockno (bufs s ! c)"
    then show "b = c" using ic [of b] ic [of c] cache_okD(4) [OF ok] by auto
  qed
  then have "card {..<NBUF} \<le> card (L \<union> H)"
    using r finite_refs [OF ok] by (intro card_inj_on_le [of "\<lambda>b. bblockno (bufs s ! b)"]) auto
  then show False using c by simp
qed

definition read_buf :: "nat \<Rightarrow> nat \<Rightarrow> u32 \<Rightarrow> byte list \<Rightarrow> buf \<Rightarrow> buf" where
  "read_buf dev n me d k = k\<lparr>bvalid := True, bdev := dev, bblockno := n, brefcnt := brefcnt k + 1, bdata := d,
     block_lock := (block_lock k)\<lparr>slocked := True, spid := me\<rparr>\<rparr>"

lemma bufs_cong: "k = k' \<Longrightarrow> s\<lparr>bufs := (bufs s)[b := k]\<rparr> = s\<lparr>bufs := (bufs s)[b := k']\<rparr>"
  by simp

lemma bread_eq:
  assumes ok: "cache_ok dev L H s" and n: "n \<notin> H" "n < FSSIZE" "n \<in> L \<or> card (L \<union> H) < NBUF"
  shows "\<exists>b<NBUF. bread dev n s = Inr (b, s\<lparr>bufs := (bufs s)[b := read_buf dev n (mypid s) (blk dev s n) (bufs s ! b)]\<rparr>) \<and>
    (is_cached dev n s b \<or> (\<nexists>c. is_cached dev n s c) \<and> brefcnt (bufs s ! b) = 0)"
proof -
  obtain xs where l: "linked (bufs s) xs" "set xs = {..<NBUF}" using ok by (auto simp: cache_ok_def)
  note len = linkedD(1) [OF l(1)]
  let ?hit = "find (\<lambda>b. bdev (bufs s ! b) = dev \<and> bblockno (bufs s ! b) = n) xs"
  let ?free = "find (\<lambda>b. brefcnt (bufs s ! b) = 0) (rev xs)"
  show ?thesis
  proof (cases ?hit)
    case (Some b)
    then have ic: "is_cached dev n s b" using l(2) by (auto simp: find_Some_iff is_cached_def)
    then have b: "b < NBUF" by (simp add: is_cached_def)
    note k = cache_okD(2) [OF ok b]
    have nl: "\<not> slocked (block_lock (bufs s ! b))" using k ic n(1) by (auto simp: buf_ok_def is_cached_def)
    have g: "bget dev n s = Inr (b, s\<lparr>bufs := (bufs s)[b := (bufs s ! b)\<lparr>brefcnt := brefcnt (bufs s ! b) + 1,
        block_lock := (block_lock (bufs s ! b))\<lparr>slocked := True, spid := mypid s\<rparr>\<rparr>]\<rparr>)"
      unfolding bget_eq [OF l(1)] Some using nl b len
      by (simp add: bget_hit_def block_acquire_def acquiresleep_def upd_buf_def mypid_def myproc_def)
    have m: "mypid (s\<lparr>bufs := x\<rparr>) = mypid s" for x by (simp add: mypid_def myproc_def)
    show ?thesis
      using b ic n(2) len blk_cached [OF ok ic]
      by (intro exI [of _ b])
        (auto simp: bread_def g ramdiskrw_def holdingsleep_def m Let_def read_buf_def is_cached_def upd_buf_def
          intro!: bufs_cong buf.equality)
  next
    case None
    then have nc: "\<nexists>c. is_cached dev n s c" using l(2) by (auto simp: find_None_iff is_cached_def)
    have "n \<notin> L" using nc cache_okD(3) [OF ok, of n] by auto
    then obtain c where "c < NBUF" "brefcnt (bufs s ! c) = 0" using unused_buffer [OF ok] n(3) by auto
    then have "?free \<noteq> None" using l(2) by (auto simp: find_None_iff)
    then obtain b where f: "?free = Some b" by auto
    then obtain us vs where uv: "rev xs = us @ b # vs" "brefcnt (bufs s ! b) = 0" unfolding find_Some_split by blast
    have "b \<in> set (rev xs)" unfolding uv(1) by simp
    then have b: "b < NBUF" "brefcnt (bufs s ! b) = 0" using l(2) uv(2) by auto
    note k = cache_okD(2) [OF ok b(1)]
    have nl: "\<not> slocked (block_lock (bufs s ! b))"
      using k b(2) by (auto simp: buf_ok_def split: if_splits)
    have g: "bget dev n s = Inr (b, s\<lparr>bufs := (bufs s)[b := (bufs s ! b)\<lparr>bdev := dev, bblockno := n, bvalid := False,
        brefcnt := 1, block_lock := (block_lock (bufs s ! b))\<lparr>slocked := True, spid := mypid s\<rparr>\<rparr>]\<rparr>)"
      unfolding bget_eq [OF l(1)] None f using nl b len
      by (simp add: bget_miss_def block_acquire_def acquiresleep_def upd_buf_def mypid_def myproc_def)
    have m: "mypid (s\<lparr>bufs := x\<rparr>) = mypid s" for x by (simp add: mypid_def myproc_def)
    have "blk dev s n = disk s n" using nc by (auto intro: blk_uncached)
    then show ?thesis
      using b nc n(2) len
      by (intro exI [of _ b])
        (auto simp: bread_def g ramdiskrw_def holdingsleep_def m Let_def read_buf_def is_cached_def upd_buf_def
          intro!: bufs_cong buf.equality)
  qed
qed

lemma bread_ok:
  assumes ok: "cache_ok dev L H s" and n: "n \<notin> H" "n < FSSIZE" "n \<in> L \<or> card (L \<union> H) < NBUF"
  obtains b s' where "bread dev n s = Inr (b, s')" "cache_ok dev L (insert n H) s'" "is_cached dev n s' b"
    "bdata (bufs s' ! b) = blk dev s n" "blk dev s' = blk dev s" "s' = s\<lparr>bufs := bufs s'\<rparr>" "keeps dev (L \<union> H) s s'"
proof -
  obtain b where b: "b < NBUF" and r: "bread dev n s =
      Inr (b, s\<lparr>bufs := (bufs s)[b := read_buf dev n (mypid s) (blk dev s n) (bufs s ! b)]\<rparr>)" (is "_ = Inr (b, ?s)")
    and c: "is_cached dev n s b \<or> (\<nexists>c. is_cached dev n s c) \<and> brefcnt (bufs s ! b) = 0"
    using bread_eq [OF assms] by blast
  obtain xs where l: "linked (bufs s) xs" "set xs = {..<NBUF}" using ok by (auto simp: cache_ok_def)
  have len: "length (bufs s) = Suc NBUF" by (rule cache_okD(1) [OF ok])
  let ?k = "read_buf dev n (mypid s) (blk dev s n) (bufs s ! b)"
  have me: "mypid ?s = mypid s" by (simp add: mypid_def myproc_def)
  have l': "linked (bufs ?s) xs"
    using l(1) linked_upd [of "read_buf dev n (mypid s) (blk dev s n)"] by (simp add: read_buf_def)
  have ref: "unat (brefcnt (bufs s ! b)) = of_bool (n \<in> L)"
    using c cache_okD(2) [OF ok b] n(1) cache_okD(3) [OF ok, of n] by (auto simp: is_cached_def buf_ok_def)
  have "unat (brefcnt (bufs s ! b) + 1) = Suc (unat (brefcnt (bufs s ! b)))"
    using ref by (auto simp: unat_word_ariths)
  then have k: "buf_ok dev L (insert n H) (mypid s) (disk ?s) ?k"
    using ref n(1) length_blk [OF ok] by (auto simp: buf_ok_def read_buf_def)
  have u: "is_cached dev n s j \<Longrightarrow> j = b" for j using c cache_okD(4) [OF ok] by blast
  have old: "is_cached dev m s b \<Longrightarrow> m \<noteq> n \<Longrightarrow> m \<notin> L \<union> H" for m
    using c cache_okD(2) [OF ok b] by (auto simp: is_cached_def buf_ok_def)
  have "core (bufs ?s ! i) = core (if i = b then ?k else bufs s ! i)" for i
    using b len by (simp add: nth_list_update)
  from cache_ok_replace [where k = ?k, OF ok b l' l(2) this _ _ k u old _ me] cache_okD(5) [OF ok]
  have "cache_ok dev L (insert n H) ?s" "is_cached dev n ?s b"
    "blk dev ?s = (blk dev s)(n := blk dev s n)" "keeps dev (L \<union> H) s ?s"
    by (auto simp: read_buf_def)
  then show ?thesis using that [OF r] b len by (simp add: read_buf_def)
qed


section \<open>Changing, writing and releasing a block\<close>

lemma cache_ok_update:
  assumes ok: "cache_ok dev L H s" and b: "is_cached dev n s b"
    and s': "bufs s' = (bufs s)[b := f (bufs s ! b)]" "mypid s' = mypid s" "length (disk s' n) = BSIZE"
    and f: "\<And>k. bnext (f k) = bnext k" "\<And>k. bprev (f k) = bprev k" "\<And>k. bdev (f k) = bdev k"
      "\<And>k. bblockno (f k) = bblockno k"
    and k: "buf_ok dev L' H' (mypid s) (disk s') (f (bufs s ! b))"
    and same: "\<And>m. m \<noteq> n \<Longrightarrow> (m \<in> L' \<longleftrightarrow> m \<in> L) \<and> (m \<in> H' \<longleftrightarrow> m \<in> H) \<and> disk s' m = disk s m"
  shows "cache_ok dev L' H' s'" "is_cached dev n s' b"
    "blk dev s' = (blk dev s)(n := if bvalid (f (bufs s ! b)) then bdata (f (bufs s ! b)) else disk s' n)"
    "keeps dev (L \<union> H) s s'"
proof -
  obtain xs where l: "linked (bufs s) xs" "set xs = {..<NBUF}" using ok by (auto simp: cache_ok_def)
  have b': "b < NBUF" using b by (simp add: is_cached_def)
  have l': "linked (bufs s') xs" using l(1) linked_upd [of f] f by (simp add: s'(1))
  have c: "core (bufs s' ! i) = core (if i = b then f (bufs s ! b) else bufs s ! i)" if "i < NBUF" for i
    using b' cache_okD(1) [OF ok] by (simp add: s'(1) nth_list_update)
  have u: "is_cached dev n s j \<Longrightarrow> j = b" for j using b cache_okD(4) [OF ok] by blast
  have old: "is_cached dev m s b \<Longrightarrow> m \<noteq> n \<Longrightarrow> m \<notin> L \<union> H" for m using b by (auto simp: is_cached_def)
  have kk: "bdev (f (bufs s ! b)) = dev" "bblockno (f (bufs s ! b)) = n" using b f by (simp_all add: is_cached_def)
  note cache_ok_replace [OF ok b' l' l(2) c kk k u old same s'(2,3)]
  then show "cache_ok dev L' H' s'" "is_cached dev n s' b"
    "blk dev s' = (blk dev s)(n := if bvalid (f (bufs s ! b)) then bdata (f (bufs s ! b)) else disk s' n)"
    "keeps dev (L \<union> H) s s'" by auto
qed

lemma held_buf:
  assumes "cache_ok dev L H s" "is_cached dev n s b" "n \<in> H"
  shows "bvalid (bufs s ! b)" "blk dev s n = bdata (bufs s ! b)" "length (bdata (bufs s ! b)) = BSIZE"
    "holdingsleep (block_lock (bufs s ! b)) s" "unat (brefcnt (bufs s ! b)) = of_bool (n \<in> L) + 1"
proof -
  have "b < NBUF" using assms(2) by (simp add: is_cached_def)
  note k = cache_okD(2) [OF assms(1) this]
  show v: "bvalid (bufs s ! b)" "length (bdata (bufs s ! b)) = BSIZE" "holdingsleep (block_lock (bufs s ! b)) s"
    "unat (brefcnt (bufs s ! b)) = of_bool (n \<in> L) + 1"
    using k assms(2,3) by (auto simp: is_cached_def buf_ok_def holdingsleep_def)
  show "blk dev s n = bdata (bufs s ! b)" using blk_cached [OF assms(1,2)] v(1) by simp
qed

lemma mypid_cong: "procs s' = procs s \<Longrightarrow> cur s' = cur s \<Longrightarrow> mypid s' = mypid s"
  by (simp add: mypid_def myproc_def)

lemma set_data_ok:
  assumes ok: "cache_ok dev L H s" and b: "is_cached dev n s b" "n \<in> H" and d: "length d = BSIZE"
  shows "cache_ok dev L H (set_data b d s)" "is_cached dev n (set_data b d s) b"
    "blk dev (set_data b d s) = (blk dev s)(n := d)" "bdata (bufs (set_data b d s) ! b) = d"
    "set_data b d s = s\<lparr>bufs := bufs (set_data b d s)\<rparr>" "keeps dev (L \<union> H) s (set_data b d s)"
proof -
  have b': "b < NBUF" using b by (simp add: is_cached_def)
  note k = cache_okD(2) [OF ok b']
  have "buf_ok dev L H (mypid s) (disk s) ((bufs s ! b)\<lparr>bdata := d\<rparr>)"
    using k b d by (auto simp: buf_ok_def is_cached_def)
  from cache_ok_update [OF ok b(1), of "set_data b d s" "\<lambda>k. k\<lparr>bdata := d\<rparr>" L H] this cache_okD(5) [OF ok]
    held_buf(1) [OF ok b]
  show "cache_ok dev L H (set_data b d s)" "is_cached dev n (set_data b d s) b"
    "blk dev (set_data b d s) = (blk dev s)(n := d)" "keeps dev (L \<union> H) s (set_data b d s)"
    by (simp_all add: set_data_def)
  show "bdata (bufs (set_data b d s) ! b) = d" "set_data b d s = s\<lparr>bufs := bufs (set_data b d s)\<rparr>"
    using b' cache_okD(1) [OF ok] by (simp_all add: set_data_def upd_buf_def)
qed

lemma bpin_ok:
  assumes ok: "cache_ok dev L H s" and b: "is_cached dev n s b" "n \<in> H" "n \<notin> L"
  shows "cache_ok dev (insert n L) H (bpin b s)" "is_cached dev n (bpin b s) b"
    "blk dev (bpin b s) = blk dev s" "bdata (bufs (bpin b s) ! b) = bdata (bufs s ! b)"
    "bpin b s = s\<lparr>bufs := bufs (bpin b s)\<rparr>" "keeps dev (L \<union> H) s (bpin b s)"
proof -
  have b': "b < NBUF" using b by (simp add: is_cached_def)
  note k = cache_okD(2) [OF ok b']
  have r: "unat (brefcnt (bufs s ! b)) = 1" using held_buf(5) [OF ok b(1,2)] b(3) by simp
  then have "unat (brefcnt (bufs s ! b) + 1) = 2" by (simp add: unat_word_ariths)
  then have "buf_ok dev (insert n L) H (mypid s) (disk s) ((bufs s ! b)\<lparr>brefcnt := brefcnt (bufs s ! b) + 1\<rparr>)"
    using k b by (auto simp: buf_ok_def is_cached_def)
  from cache_ok_update [OF ok b(1), of "bpin b s" "\<lambda>k. k\<lparr>brefcnt := brefcnt k + 1\<rparr>" "insert n L" H] this
    cache_okD(5) [OF ok] held_buf(1,2) [OF ok b(1,2)]
  show "cache_ok dev (insert n L) H (bpin b s)" "is_cached dev n (bpin b s) b" "blk dev (bpin b s) = blk dev s"
    "keeps dev (L \<union> H) s (bpin b s)"
    by (simp_all add: bpin_def fun_eq_iff)
  show "bdata (bufs (bpin b s) ! b) = bdata (bufs s ! b)" "bpin b s = s\<lparr>bufs := bufs (bpin b s)\<rparr>"
    using b' cache_okD(1) [OF ok] by (simp_all add: bpin_def upd_buf_def)
qed

lemma bunpin_ok:
  assumes ok: "cache_ok dev L H s" and b: "is_cached dev n s b" "n \<in> H" "n \<in> L"
  shows "cache_ok dev (L - {n}) H (bunpin b s)" "is_cached dev n (bunpin b s) b"
    "blk dev (bunpin b s) = blk dev s" "bdata (bufs (bunpin b s) ! b) = bdata (bufs s ! b)"
    "bunpin b s = s\<lparr>bufs := bufs (bunpin b s)\<rparr>" "keeps dev (L \<union> H) s (bunpin b s)"
proof -
  have b': "b < NBUF" using b by (simp add: is_cached_def)
  note k = cache_okD(2) [OF ok b']
  have r: "unat (brefcnt (bufs s ! b)) = 2" using held_buf(5) [OF ok b(1,2)] b(3) by simp
  then have "brefcnt (bufs s ! b) \<noteq> 0" by auto
  then have "unat (brefcnt (bufs s ! b) - 1) = 1" using r by (simp add: unat_minus_one)
  then have "buf_ok dev (L - {n}) H (mypid s) (disk s) ((bufs s ! b)\<lparr>brefcnt := brefcnt (bufs s ! b) - 1\<rparr>)"
    using k b by (auto simp: buf_ok_def is_cached_def)
  from cache_ok_update [OF ok b(1), of "bunpin b s" "\<lambda>k. k\<lparr>brefcnt := brefcnt k - 1\<rparr>" "L - {n}" H] this
    cache_okD(5) [OF ok] held_buf(1,2) [OF ok b(1,2)]
  show "cache_ok dev (L - {n}) H (bunpin b s)" "is_cached dev n (bunpin b s) b" "blk dev (bunpin b s) = blk dev s"
    "keeps dev (L \<union> H) s (bunpin b s)"
    by (simp_all add: bunpin_def fun_eq_iff)
  show "bdata (bufs (bunpin b s) ! b) = bdata (bufs s ! b)" "bunpin b s = s\<lparr>bufs := bufs (bunpin b s)\<rparr>"
    using b' cache_okD(1) [OF ok] by (simp_all add: bunpin_def upd_buf_def)
qed

lemma bwrite_ok:
  assumes ok: "cache_ok dev L H s" and b: "is_cached dev n s b" "n \<in> H" "n < FSSIZE"
  defines "s' \<equiv> s\<lparr>disk := (disk s)(n := blk dev s n), dtrace := dtrace s @ [(n, blk dev s n)]\<rparr>"
  shows "bwrite b s = Inr s'" "cache_ok dev L H s'" "is_cached dev n s' b" "blk dev s' = blk dev s"
    "keeps dev (L \<union> H) s s'"
proof -
  have b': "b < NBUF" using b by (simp add: is_cached_def)
  note k = cache_okD(2) [OF ok b'] and h = held_buf [OF ok b(1,2)]
  show "bwrite b s = Inr s'" using h b(1,3) by (simp add: bwrite_def ramdiskrw_def is_cached_def s'_def)
  have "bufs s' = (bufs s)[b := bufs s ! b]" using b' cache_okD(1) [OF ok] by (simp add: s'_def)
  moreover have "mypid s' = mypid s" by (simp add: s'_def mypid_def myproc_def)
  moreover have "buf_ok dev L H (mypid s) (disk s') (bufs s ! b)"
    using k b by (auto simp: buf_ok_def is_cached_def s'_def)
  moreover have "length (disk s' n) = BSIZE" using length_blk [OF ok] by (simp add: s'_def)
  moreover have "m \<noteq> n \<Longrightarrow> disk s' m = disk s m" for m by (simp add: s'_def)
  ultimately show "cache_ok dev L H s'" "is_cached dev n s' b" "blk dev s' = blk dev s"
    "keeps dev (L \<union> H) s s'"
    using cache_ok_update [OF ok b(1), of s' "\<lambda>k. k" L H] h by (auto simp: fun_eq_iff)
qed

lemma brelse_ok:
  assumes ok: "cache_ok dev L H s" and b: "is_cached dev n s b" "n \<in> H" and c: "n \<in> L \<or> blk dev s n = disk s n"
  obtains s' where "brelse b s = Inr s'" "cache_ok dev L (H - {n}) s'" "blk dev s' = blk dev s"
    "s' = s\<lparr>bufs := bufs s', procs := procs s'\<rparr>" "woke (procs s) (procs s')" "keeps dev (L \<union> H) s s'"
proof -
  have b': "b < NBUF" using b by (simp add: is_cached_def)
  obtain xs where l: "linked (bufs s) xs" "set xs = {..<NBUF}" using ok by (auto simp: cache_ok_def)
  note k = cache_okD(2) [OF ok b'] and h = held_buf [OF ok b(1,2)] and len = cache_okD(1) [OF ok]
  define k' where "k' = (bufs s ! b)\<lparr>block_lock := (block_lock (bufs s ! b))\<lparr>slocked := False, spid := 0\<rparr>,
    brefcnt := brefcnt (bufs s ! b) - 1\<rparr>"
  define bs where "bs = (if brefcnt (bufs s ! b) - 1 = 0 then link_front b (unlink_buf b ((bufs s)[b := k']))
    else (bufs s)[b := k'])"
  define s' where "s' = (wakeup (Some (Ch_buf b)) s)\<lparr>bufs := bs\<rparr>"
  have w: "bufs (wakeup c s) = bufs s" for c by (simp add: wakeup_def)
  have r: "brelse b s = Inr s'"
    using h b' len by (simp add: brelse_def releasesleep_def upd_buf_def w s'_def bs_def k'_def Let_def)
  have "b \<in> set xs" using b' l(2) by simp
  note l1 = linked_brelse [OF r l(1) this]
  have l2: "set (if brefcnt (bufs s ! b) = 1 then b # filter (\<lambda>x. x \<noteq> b) xs else xs) = {..<NBUF}"
    using l(2) b' by auto
  have cc: "core (bufs s' ! i) = core (if i = b then k' else bufs s ! i)" if "i < NBUF" for i
    using b' len by (simp add: s'_def bs_def nth_list_update)
  have me: "mypid s' = mypid s" by (simp add: s'_def mypid_def myproc_def)
  have "brefcnt (bufs s ! b) \<noteq> 0" using h(5) by auto
  then have "unat (brefcnt (bufs s ! b) - 1) = of_bool (n \<in> L)" using h(5) by (simp add: unat_minus_one)
  moreover have d: "disk s' = disk s" by (simp add: s'_def wakeup_def)
  ultimately have k2: "buf_ok dev L (H - {n}) (mypid s) (disk s') k'"
    using k b c h(2) by (auto simp: buf_ok_def is_cached_def k'_def)
  have u: "is_cached dev n s j \<Longrightarrow> j = b" for j using b(1) cache_okD(4) [OF ok] by blast
  have old: "is_cached dev m s b \<Longrightarrow> m \<noteq> n \<Longrightarrow> m \<notin> L \<union> H" for m using b(1) by (auto simp: is_cached_def)
  have kk: "bdev k' = dev" "bblockno k' = n" "bvalid k'" "bdata k' = bdata (bufs s ! b)"
    using b(1) h(1) by (simp_all add: k'_def is_cached_def)
  from cache_ok_replace [OF ok b' l1 l2 cc kk(1,2) k2 u old _ me] d cache_okD(5) [OF ok] kk(3,4) h(2)
  have "cache_ok dev L (H - {n}) s'" "blk dev s' = blk dev s" "keeps dev (L \<union> H) s s'" by (auto simp: fun_eq_iff)
  moreover have "s' = s\<lparr>bufs := bufs s', procs := procs s'\<rparr>" "woke (procs s) (procs s')"
    by (simp add: s'_def wakeup_def) (simp add: s'_def)
  ultimately show ?thesis using that [OF r] by simp
qed


section \<open>After boot\<close>

lemma boot_cache_ok:
  assumes len: "length (bufs s) = Suc NBUF"
    and k: "\<And>i. i < NBUF \<Longrightarrow> bdev (bufs s ! i) \<noteq> dev \<and> brefcnt (bufs s ! i) = 0 \<and> length (bdata (bufs s ! i)) = BSIZE"
    and d: "\<And>n. length (disk s n) = BSIZE"
  shows "cache_ok dev {} {} (binit s)"
proof -
  have l: "linked (bufs (binit s)) (rev [0..<NBUF])" by (rule linked_binit [OF len])
  have c: "buf_ok dev {} {} me x (bufs (binit s) ! i)" "bdev (bufs (binit s) ! i) \<noteq> dev" if "i < NBUF" for i me x
    using core_binit [OF len that] k [OF that] by (auto simp: core_def buf_ok_def initsleeplock_def)
  then have "\<not> is_cached dev n (binit s) i" for n i by (auto simp: is_cached_def)
  moreover have "disk (binit s) = disk s" by (simp add: binit_def Let_def)
  ultimately show ?thesis using l c(1) d by (auto simp: cache_ok_def)
qed

end
