(* ===== verification/LogView.thy ===== *)
theory LogView
  imports Log BlockView
begin

text \<open>
  Transactions over the blocks of \<open>BlockView\<close>. \<open>tx_ok H s\<close> is the invariant of the log while the
  current process holds the buffers of the blocks \<open>H\<close>: the cache is sound with exactly the logged
  blocks pinned, the header lists each of them once, and the header on disk is empty. A
  read-modify-write through \<open>log_write\<close> changes one block's content and nothing on disk.
\<close>

section \<open>Words inside a block\<close>

lemma get32_put32_same: "i + 4 \<le> length d \<Longrightarrow> get32 (put32 d i w) i = w"
  by (simp add: get32_def put32_def)

lemma get32_put32_other:
  "i + 4 \<le> length d \<Longrightarrow> j + 4 \<le> length d \<Longrightarrow> i + 4 \<le> j \<or> j + 4 \<le> i \<Longrightarrow> get32 (put32 d i w) j = get32 d j"
  by (simp add: get32_def put32_def slice_splice_disjoint)

lemma length_put32 [simp]: "i + 4 \<le> length d \<Longrightarrow> length (put32 d i w) = length d"
  by (simp add: put32_def)

lemma put_header_upto:
  assumes "length d = BSIZE" "n \<le> LOGSIZE"
  shows "length (fold (\<lambda>i d. put32 d (4 + 4 * i) (f i)) [0..<n] d) = BSIZE \<and>
    get32 (fold (\<lambda>i d. put32 d (4 + 4 * i) (f i)) [0..<n] d) 0 = get32 d 0 \<and>
    (\<forall>i<n. get32 (fold (\<lambda>i d. put32 d (4 + 4 * i) (f i)) [0..<n] d) (4 + 4 * i) = f i)"
  using assms(2)
proof (induction n)
  case 0
  then show ?case using assms(1) by simp
next
  case (Suc n)
  then have n: "4 + 4 * n + 4 \<le> BSIZE" by (simp add: LOGSIZE_def BSIZE_def)
  have "4 + 4 * i + 4 \<le> BSIZE" if "i < n" for i using that n by simp
  then show ?case using Suc n
    by (auto simp: get32_put32_same get32_put32_other less_Suc_eq)
qed

lemma put_header_get:
  assumes "length d = BSIZE" "0 \<le> hn h" "hn h \<le> int LOGSIZE"
  shows "length (put_header h d) = BSIZE" "get32 (put_header h d) 0 = of_int (hn h)"
    "i < nat (hn h) \<Longrightarrow> get32 (put_header h d) (4 + 4 * i) = of_nat (hblock h ! i)"
proof -
  have l: "length (put32 d 0 (of_int (hn h))) = BSIZE" using assms(1) by (simp add: BSIZE_def)
  have n: "nat (hn h) \<le> LOGSIZE" using assms by simp
  note p = put_header_upto [OF l n, of "\<lambda>i. of_nat (hblock h ! i)"]
  show "length (put_header h d) = BSIZE" "get32 (put_header h d) 0 = of_int (hn h)"
    "i < nat (hn h) \<Longrightarrow> get32 (put_header h d) (4 + 4 * i) = of_nat (hblock h ! i)"
    using p assms(1) by (simp_all add: put_header_def get32_put32_same BSIZE_def)
qed

section \<open>Invariant\<close>

definition logged_list :: "'a lstate_scheme \<Rightarrow> nat list" where
  "logged_list s = take (nat (hn (lh (slog s)))) (hblock (lh (slog s)))"

abbreviation logged :: "'a lstate_scheme \<Rightarrow> nat set" where
  "logged s \<equiv> set (logged_list s)"

text \<open>A block outside the log.\<close>

definition home :: "log \<Rightarrow> nat \<Rightarrow> bool" where
  "home l n \<longleftrightarrow> n < FSSIZE \<and> \<not> (lstart l \<le> n \<and> n < lstart l + lsize l)"

definition log_inv :: "'a lstate_scheme \<Rightarrow> bool" where
  "log_inv s \<longleftrightarrow> (let l = slog s in
     0 \<le> hn (lh l) \<and> hn (lh l) \<le> int LOGSIZE \<and> hn (lh l) < int (lsize l) \<and> length (hblock (lh l)) = LOGSIZE \<and>
     distinct (logged_list s) \<and> (\<forall>n\<in>logged s. home l n) \<and> lstart l + lsize l \<le> FSSIZE \<and>
     get32 (disk s (lstart l)) 0 = 0)"

abbreviation ldv :: "'a lstate_scheme \<Rightarrow> nat" where
  "ldv s \<equiv> ldev (slog s)"

definition tx_ok :: "nat set \<Rightarrow> 'a lstate_scheme \<Rightarrow> bool" where
  "tx_ok H s \<longleftrightarrow> cache_ok (ldv s) (logged s) H s \<and> log_inv s"

text \<open>What an operation inside a transaction may change besides contents.\<close>

definition tx_frame :: "'a lstate_scheme \<Rightarrow> 'a lstate_scheme \<Rightarrow> bool" where
  "tx_frame s s' \<longleftrightarrow> s' = s\<lparr>bufs := bufs s', procs := procs s', slog := slog s'\<rparr> \<and>
     woke (procs s) (procs s') \<and> slog s' = (slog s)\<lparr>lh := lh (slog s')\<rparr>"

lemma tx_frame_refl [simp]: "tx_frame s s"
  by (simp add: tx_frame_def)

lemma tx_frameD:
  assumes "tx_frame s s'"
  shows "disk s' = disk s" "dtrace s' = dtrace s" "cur s' = cur s" "pmem s' = pmem s" "freelist s' = freelist s"
    "woke (procs s) (procs s')" "ldv s' = ldv s" "lstart (slog s') = lstart (slog s)" "lsize (slog s') = lsize (slog s)"
    "outstanding (slog s') = outstanding (slog s)" "committing (slog s') = committing (slog s)"
    "home (slog s') = home (slog s)" "myproc s' = myproc s" "mypid s' = mypid s" "my_pt s' = my_pt s"
proof -
  from assms obtain B P Q where e: "s' = s\<lparr>bufs := B, procs := P, slog := (slog s)\<lparr>lh := Q\<rparr>\<rparr>" and w: "woke (procs s) P"
    unfolding tx_frame_def by (metis bstate.select_convs(2) pstate.select_convs(1))
  show "disk s' = disk s" "dtrace s' = dtrace s" "cur s' = cur s" "pmem s' = pmem s" "freelist s' = freelist s"
    "woke (procs s) (procs s')" "ldv s' = ldv s" "lstart (slog s') = lstart (slog s)" "lsize (slog s') = lsize (slog s)"
    "outstanding (slog s') = outstanding (slog s)" "committing (slog s') = committing (slog s)"
    "home (slog s') = home (slog s)" "myproc s' = myproc s" "mypid s' = mypid s" "my_pt s' = my_pt s"
    using w woke_fields [OF w] by (simp_all add: e home_def fun_eq_iff myproc_def mypid_def)
qed

lemma tx_frame_trans [trans]: "tx_frame s t \<Longrightarrow> tx_frame t u \<Longrightarrow> tx_frame s u"
proof -
  assume a: "tx_frame s t" "tx_frame t u"
  have "u = s\<lparr>bufs := bufs u, procs := procs u, slog := slog u\<rparr>"
  proof -
    have "u = t\<lparr>bufs := bufs u, procs := procs u, slog := slog u\<rparr>" using a(2) by (simp add: tx_frame_def)
    also have "t = s\<lparr>bufs := bufs t, procs := procs t, slog := slog t\<rparr>" using a(1) by (simp add: tx_frame_def)
    finally show ?thesis by simp
  qed
  moreover have "slog u = (slog s)\<lparr>lh := lh (slog u)\<rparr>"
  proof -
    have "slog u = (slog t)\<lparr>lh := lh (slog u)\<rparr>" using a(2) by (simp add: tx_frame_def)
    also have "slog t = (slog s)\<lparr>lh := lh (slog t)\<rparr>" using a(1) by (simp add: tx_frame_def)
    finally show ?thesis by simp
  qed
  ultimately show ?thesis using a woke_trans unfolding tx_frame_def by blast
qed


section \<open>Operations inside a transaction\<close>

abbreviation content :: "'a lstate_scheme \<Rightarrow> nat \<Rightarrow> byte list" where
  "content s \<equiv> blk (ldv s) s"

lemma bufs_frame:
  assumes "s' = s\<lparr>bufs := bufs s', procs := procs s'\<rparr>" "woke (procs s) (procs s')"
  shows "tx_frame s s'" "slog s' = slog s" "logged_list s' = logged_list s" "log_inv s' = log_inv s"
proof -
  obtain B P where e: "s' = s\<lparr>bufs := B, procs := P\<rparr>" using assms(1) by blast
  show "slog s' = slog s" by (simp add: e)
  show "tx_frame s s'" unfolding tx_frame_def using assms(2) by (simp add: e)
  show l: "logged_list s' = logged_list s" by (simp add: e logged_list_def)
  show "log_inv s' = log_inv s" unfolding log_inv_def l by (simp add: e)
qed

lemma bufs_frame':
  assumes "s' = s\<lparr>bufs := bufs s'\<rparr>"
  shows "tx_frame s s'" "slog s' = slog s" "logged_list s' = logged_list s" "log_inv s' = log_inv s"
proof -
  obtain B where e: "s' = s\<lparr>bufs := B\<rparr>" using assms by blast
  have *: "s' = s\<lparr>bufs := bufs s', procs := procs s'\<rparr>" "woke (procs s) (procs s')" by (simp_all add: e)
  show "tx_frame s s'" "slog s' = slog s" "logged_list s' = logged_list s" "log_inv s' = log_inv s"
    by (rule bufs_frame [OF *])+
qed

lemma tx_bread:
  assumes "tx_ok H s" "n \<notin> H" "n < FSSIZE" "n \<in> logged s \<or> card (logged s \<union> H) < NBUF"
  obtains b s' where "bread (ldv s) n s = Inr (b, s')" "tx_ok (insert n H) s'" "is_cached (ldv s') n s' b"
    "bdata (bufs s' ! b) = content s n" "content s' = content s" "tx_frame s s'" "slog s' = slog s"
    "keeps (ldv s) H s s'"
proof -
  have c: "cache_ok (ldv s) (logged s) H s" using assms(1) by (simp add: tx_ok_def)
  from bread_ok [OF c assms(2-4)] obtain b s' where r: "bread (ldv s) n s = Inr (b, s')"
    "cache_ok (ldv s) (logged s) (insert n H) s'" "is_cached (ldv s) n s' b"
    "bdata (bufs s' ! b) = content s n" "blk (ldv s) s' = content s" "s' = s\<lparr>bufs := bufs s'\<rparr>"
    "keeps (ldv s) (logged s \<union> H) s s'" by blast
  note f = bufs_frame' [OF r(6)]
  show ?thesis using that [OF r(1)] r(2-5) f assms(1) keeps_mono [OF r(7)] by (simp add: tx_ok_def)
qed

lemma tx_set_data:
  assumes "tx_ok H s" "is_cached (ldv s) n s b" "n \<in> H" "length d = BSIZE"
  shows "tx_ok H (set_data b d s)" "is_cached (ldv (set_data b d s)) n (set_data b d s) b"
    "content (set_data b d s) = (content s)(n := d)" "bdata (bufs (set_data b d s) ! b) = d"
    "tx_frame s (set_data b d s)" "slog (set_data b d s) = slog s" "keeps (ldv s) H s (set_data b d s)"
proof -
  have c: "cache_ok (ldv s) (logged s) H s" using assms(1) by (simp add: tx_ok_def)
  note r = set_data_ok [OF c assms(2-4)]
  note f = bufs_frame' [OF r(5)]
  show "tx_ok H (set_data b d s)" "is_cached (ldv (set_data b d s)) n (set_data b d s) b"
    "content (set_data b d s) = (content s)(n := d)" "bdata (bufs (set_data b d s) ! b) = d"
    "tx_frame s (set_data b d s)" "slog (set_data b d s) = slog s" "keeps (ldv s) H s (set_data b d s)"
    using r(1-4) f assms(1) keeps_mono [OF r(6)] by (simp_all add: tx_ok_def)
qed

lemma tx_brelse:
  assumes "tx_ok H s" "is_cached (ldv s) n s b" "n \<in> H" "n \<in> logged s \<or> content s n = disk s n"
  obtains s' where "brelse b s = Inr s'" "tx_ok (H - {n}) s'" "content s' = content s" "tx_frame s s'" "slog s' = slog s"
    "keeps (ldv s) H s s'"
proof -
  have c: "cache_ok (ldv s) (logged s) H s" using assms(1) by (simp add: tx_ok_def)
  from brelse_ok [OF c assms(2-4)] obtain s' where r: "brelse b s = Inr s'"
    "cache_ok (ldv s) (logged s) (H - {n}) s'" "blk (ldv s) s' = content s"
    "s' = s\<lparr>bufs := bufs s', procs := procs s'\<rparr>" "woke (procs s) (procs s')" "keeps (ldv s) (logged s \<union> H) s s'" by blast
  note f = bufs_frame [OF r(4,5)]
  show ?thesis using that [OF r(1)] r(2,3) f assms(1) keeps_mono [OF r(6)] by (simp add: tx_ok_def)
qed

lemma log_slot_spec:
  "if n \<in> set xs then i \<le> log_slot n xs i \<and> log_slot n xs i < i + length xs \<and> xs ! (log_slot n xs i - i) = n
   else log_slot n xs i = i + length xs"
proof (induction xs arbitrary: i)
  case (Cons x xs)
  show ?case using Cons.IH [of "i + 1"] by (auto simp: nth_Cons' split: if_splits)
qed simp

text \<open>The transaction has room for another block.\<close>

definition room :: "'a lstate_scheme \<Rightarrow> nat \<Rightarrow> bool" where
  "room s k \<longleftrightarrow> card (logged s) + k \<le> LOGSIZE \<and> card (logged s) + k < lsize (slog s) \<and> 1 \<le> outstanding (slog s)"

lemma card_logged: "log_inv s \<Longrightarrow> int (card (logged s)) = hn (lh (slog s))"
  by (auto simp: log_inv_def Let_def distinct_card) (simp add: logged_list_def)

lemma tx_log_write:
  assumes tx: "tx_ok H s" and b: "is_cached (ldv s) n s b" "n \<in> H" and n: "home (slog s) n" and r: "room s 1"
  obtains s' where "log_write b s = Inr s'" "tx_ok H s'" "is_cached (ldv s') n s' b" "content s' = content s"
    "bdata (bufs s' ! b) = bdata (bufs s ! b)" "tx_frame s s'" "logged s' = insert n (logged s)"
    "keeps (ldv s) H s s'"
proof -
  let ?l = "slog s" and ?h = "lh (slog s)"
  have c: "cache_ok (ldv s) (logged s) H s" and li: "log_inv s" using tx by (simp_all add: tx_ok_def)
  have h: "0 \<le> hn ?h" "hn ?h \<le> int LOGSIZE" "length (hblock ?h) = LOGSIZE" "distinct (logged_list s)"
    using li by (auto simp: log_inv_def Let_def)
  have cn: "int (card (logged s)) = hn ?h" by (rule card_logged [OF li])
  have len: "length (logged_list s) = nat (hn ?h)" using h by (simp add: logged_list_def)
  have room: "hn ?h < int LOGSIZE" "hn ?h < int (lsize ?l) - 1" "1 \<le> outstanding ?l"
    using r cn by (auto simp: room_def)
  define i where "i = log_slot n (logged_list s) 0"
  have i: "if n \<in> logged s then i < nat (hn ?h) \<and> logged_list s ! i = n else i = nat (hn ?h)"
    using log_slot_spec [of n "logged_list s" 0] len by (auto simp: i_def split: if_splits)
  have bn: "bblockno (bufs s ! b) = n" using b(1) by (simp add: is_cached_def)
  define t where "t = upd_log (\<lambda>l. l\<lparr>lh := (lh l)\<lparr>hblock := (hblock (lh l))[i := n]\<rparr>\<rparr>) s"
  have lw: "log_write b s = Inr (if int i = hn ?h then upd_log (\<lambda>l. l\<lparr>lh := (lh l)\<lparr>hn := hn (lh l) + 1\<rparr>\<rparr>) (bpin b t) else t)"
    using room by (simp add: log_write_def Let_def bn i_def [unfolded logged_list_def, symmetric] t_def)
  show ?thesis
  proof (cases "n \<in> logged s")
    case True
    then have "i < nat (hn ?h)" "hblock ?h ! i = n" using i by (auto simp: logged_list_def)
    moreover then have "(hblock ?h)[i := n] = hblock ?h" by (metis list_update_id)
    ultimately have "t = s" by (simp add: t_def upd_log_def)
    then have "log_write b s = Inr s" using lw \<open>i < nat (hn ?h)\<close> by simp
    then show ?thesis using that tx b True by (simp add: insert_absorb)
  next
    case False
    then have ie: "int i = hn ?h" "i = nat (hn ?h)" using i h by auto
    define s' where "s' = upd_log (\<lambda>l. l\<lparr>lh := (lh l)\<lparr>hn := hn (lh l) + 1\<rparr>\<rparr>) (bpin b t)"
    have e: "s' = (bpin b s)\<lparr>slog := (slog s)\<lparr>lh := \<lparr>hn = hn ?h + 1, hblock = (hblock ?h)[i := n]\<rparr>\<rparr>\<rparr>"
      by (simp add: s'_def t_def upd_log_def bpin_def upd_buf_def)
    have "nat (hn ?h + 1) = Suc i" "i < length (hblock ?h)" using ie h room by linarith+
    then have li': "logged_list s' = logged_list s @ [n]"
      unfolding logged_list_def ie(2) [symmetric] by (simp add: e take_Suc_conv_app_nth)
    note p = bpin_ok [OF c b False]
    have ck: "cache_ok (ldv s') (logged s') H s' \<longleftrightarrow> cache_ok (ldv s) (insert n (logged s)) H (bpin b s)"
      unfolding li' using cache_ok_cong [of s' "bpin b s"] by (simp add: e mypid_def myproc_def)
    have bl: "blk (ldv s') s' = blk (ldv s) (bpin b s)" using blk_cong [of s' "bpin b s"] by (simp add: e)
    have "log_inv s'" using li h room False n
      unfolding log_inv_def li' by (simp add: Let_def e bpin_def home_def)
    then have "tx_ok H s'" using p(1) ck by (simp add: tx_ok_def)
    moreover have "is_cached (ldv s') n s' b" using p(2) by (simp add: is_cached_def e)
    moreover have "tx_frame s s'" by (simp add: tx_frame_def e bpin_def upd_buf_def)
    moreover have "bdata (bufs s' ! b) = bdata (bufs s ! b)" using p(4) by (simp add: e)
    moreover have "keeps (ldv s) H s s'"
      using keeps_mono [OF p(6), of H] keeps_cong [of s' "bpin b s"] by (auto intro: keeps_trans simp: e)
    ultimately show ?thesis using that [of s'] lw ie(1) p(3) bl li' by (simp add: s'_def)
  qed
qed

lemma room_mono: "room s k \<Longrightarrow> j \<le> k \<Longrightarrow> room s j"
  by (auto simp: room_def)

lemma room_step:
  assumes "room s (Suc k)" "tx_frame s s'" "logged s' \<subseteq> insert n (logged s)"
  shows "room s' k"
proof -
  have "card (logged s') \<le> Suc (card (logged s))"
    using card_mono [OF _ assms(3)] by (metis List.finite_set card_insert_le_m1 card_insert_if finite_insert le_SucI le_trans order_refl)
  then show ?thesis using assms(1) tx_frameD [OF assms(2)] by (simp add: room_def)
qed


lemma tx_frame_logged: "slog s' = slog s \<Longrightarrow> logged_list s' = logged_list s"
  by (simp add: logged_list_def)

lemma room_cong: "slog s' = slog s \<Longrightarrow> room s' k = room s k"
  by (simp add: room_def logged_list_def)

text \<open>Change one block: the pattern of every update of the file system.\<close>

lemma tx_rmw:
  assumes tx: "tx_ok H s" and n: "n \<notin> H" "home (slog s) n" "n \<in> logged s \<or> card (logged s \<union> H) < NBUF"
    and r: "room s 1" and f: "length (f (content s n)) = BSIZE"
  obtains s' where "kbind (bread (ldv s) n s) (\<lambda>(b, s).
      kbind (log_write b (set_data b (f (bdata (bufs s ! b))) s)) (\<lambda>s. brelse b s)) = Inr s'"
    "tx_ok H s'" "content s' = (content s)(n := f (content s n))" "tx_frame s s'" "logged s' = insert n (logged s)"
    "keeps (ldv s) H s s'"
proof -
  have "n < FSSIZE" using n(2) by (simp add: home_def)
  from tx_bread [OF tx n(1) this n(3)] obtain b s1 where b: "bread (ldv s) n s = Inr (b, s1)" "tx_ok (insert n H) s1"
    "is_cached (ldv s1) n s1 b" "bdata (bufs s1 ! b) = content s n" "content s1 = content s" "tx_frame s s1"
    "slog s1 = slog s" "keeps (ldv s) H s s1" by blast
  let ?s2 = "set_data b (f (bdata (bufs s1 ! b))) s1"
  have "length (f (bdata (bufs s1 ! b))) = BSIZE" using b(4) f by simp
  note d = tx_set_data [OF b(2,3) _ this, simplified]
  have "home (slog ?s2) n" "room ?s2 1" using n(2) r b(7) d(6) by (simp_all add: room_cong [of ?s2 s])
  from tx_log_write [OF d(1,2) _ this] obtain s3 where w: "log_write b ?s2 = Inr s3" "tx_ok (insert n H) s3"
    "is_cached (ldv s3) n s3 b" "content s3 = content ?s2" "tx_frame ?s2 s3" "logged s3 = insert n (logged ?s2)"
    "keeps (ldv ?s2) (insert n H) ?s2 s3" by blast
  from tx_brelse [OF w(2,3)] w(6) obtain s4 where e: "brelse b s3 = Inr s4" "tx_ok (insert n H - {n}) s4"
    "content s4 = content s3" "tx_frame s3 s4" "slog s4 = slog s3" "keeps (ldv s3) (insert n H) s3 s4" by blast
  have "ldv s1 = ldv s" "ldv ?s2 = ldv s" "ldv s3 = ldv s"
    using b(7) d(6) tx_frameD(7) [OF w(5)] by simp_all
  then have "keeps (ldv s) H s s4"
    using b(8) keeps_mono [OF d(7), of H] keeps_mono [OF w(7), of H] keeps_mono [OF e(6), of H]
    by (auto intro: keeps_trans)
  have "tx_frame s s4" using b(6) d(5) w(5) e(4) by (blast intro: tx_frame_trans)
  moreover have "logged s4 = insert n (logged s)"
    using w(6) tx_frame_logged [OF e(5)] tx_frame_logged [of ?s2 s] d(6) b(7) by simp
  moreover have "insert n H - {n} = H" using n(1) by simp
  moreover have "content s4 = (content s)(n := f (content s n))" using e(3) w(4) d(3) b(4,5) by simp
  ultimately show ?thesis using that [of s4] b(1) w(1) e(1,2) \<open>keeps (ldv s) H s s4\<close> by simp
qed

text \<open>Read one block and give it back.\<close>

lemma tx_read:
  assumes tx: "tx_ok H s" and n: "n \<notin> H" "n < FSSIZE" "n \<in> logged s \<or> card (logged s \<union> H) < NBUF"
  obtains b s1 s2 where "bread (ldv s) n s = Inr (b, s1)" "bdata (bufs s1 ! b) = content s n" "tx_frame s s1"
    "slog s1 = slog s" "brelse b s1 = Inr s2"
    "tx_ok H s2" "content s2 = content s" "tx_frame s s2" "slog s2 = slog s" "keeps (ldv s) H s s2"
proof -
  from tx_bread [OF assms] obtain b s1 where b: "bread (ldv s) n s = Inr (b, s1)" "tx_ok (insert n H) s1"
    "is_cached (ldv s1) n s1 b" "bdata (bufs s1 ! b) = content s n" "content s1 = content s" "tx_frame s s1"
    "slog s1 = slog s" "keeps (ldv s) H s s1" by blast
  have "n \<in> logged s1 \<or> content s1 n = disk s1 n"
    using tx n(1) blk_clean [of "ldv s" "logged s" H s n] b(5) tx_frameD(1) [OF b(6)] tx_frame_logged [OF b(7)]
    by (auto simp: tx_ok_def)
  from tx_brelse [OF b(2,3) _ this] obtain s2 where e: "brelse b s1 = Inr s2" "tx_ok (insert n H - {n}) s2"
    "content s2 = content s1" "tx_frame s1 s2" "slog s2 = slog s1" "keeps (ldv s1) (insert n H) s1 s2" by blast
  have "keeps (ldv s) H s s2" using b(7,8) keeps_mono [OF e(6), of H] by (auto intro: keeps_trans)
  moreover have "insert n H - {n} = H" using n(1) by simp
  moreover have "tx_frame s s2" using b(6) e(4) by (rule tx_frame_trans)
  ultimately show ?thesis using that [OF b(1,4,6,7) e(1)] e(2,3,5) b(5,7) \<open>keeps (ldv s) H s s2\<close> by simp
qed

end
