(* ===== verification/LogCrash.thy ===== *)
theory LogCrash
  imports LogView
begin

text \<open>
  Committing and recovering. \<open>commit\<close> is a fixed sequence of disk writes; recovery of a disk is
  the replay of its log. A machine that stops after any of these writes, and again during
  any recovery, comes back with all of the transaction or none of it.
\<close>

section \<open>Sequences of disk writes\<close>

definition apply_writes :: "(nat \<times> byte list) list \<Rightarrow> (nat \<Rightarrow> byte list) \<Rightarrow> nat \<Rightarrow> byte list" where
  "apply_writes ws d = fold (\<lambda>(n, x) d. d(n := x)) ws d"

lemma apply_writes_simps [simp]:
  "apply_writes [] d = d" "apply_writes ((n, x) # ws) d = apply_writes ws (d(n := x))"
  "apply_writes (ws @ vs) d = apply_writes vs (apply_writes ws d)"
  by (simp_all add: apply_writes_def)

lemma apply_writes_other: "n \<notin> fst ` set ws \<Longrightarrow> apply_writes ws d n = d n"
proof (induction ws arbitrary: d)
  case (Cons w ws)
  then show ?case by (cases w) auto
qed simp

lemma apply_writes_in: "n \<in> fst ` set ws \<Longrightarrow> apply_writes ws d n = apply_writes ws d' n"
proof (induction ws arbitrary: d d')
  case (Cons w ws)
  obtain m x where w: "w = (m, x)" by (cases w)
  show ?case
  proof (cases "n \<in> fst ` set ws")
    case True
    then show ?thesis using Cons.IH w by simp
  next
    case False
    then have "n = m" using Cons.prems w by simp
    then show ?thesis using False w by (simp add: apply_writes_other)
  qed
qed simp

lemma apply_writes_absorb:
  assumes "fst ` set vs \<subseteq> fst ` set ws"
  shows "apply_writes ws (apply_writes vs d) = apply_writes ws d"
proof
  fix n
  show "apply_writes ws (apply_writes vs d) n = apply_writes ws d n"
  proof (cases "n \<in> fst ` set ws")
    case True
    then show ?thesis by (rule apply_writes_in)
  next
    case False
    then have "n \<notin> fst ` set vs" using assms by blast
    then show ?thesis using False by (simp add: apply_writes_other)
  qed
qed

lemma apply_writes_map:
  assumes "distinct (map f ks)" "k \<in> set ks"
  shows "apply_writes (map (\<lambda>k. (f k, g k)) ks) d (f k) = g k"
  using assms
proof (induction ks arbitrary: d)
  case (Cons j ks)
  show ?case
  proof (cases "k \<in> set ks")
    case True
    then show ?thesis using Cons by simp
  next
    case False
    then have "j = k" using Cons.prems by simp
    moreover have "f k \<notin> fst ` set (map (\<lambda>k. (f k, g k)) ks)" using Cons.prems \<open>j = k\<close> by (auto simp: image_iff)
    ultimately show ?thesis by (simp add: apply_writes_other)
  qed
qed simp

text \<open>\<open>s'\<close> is \<open>s\<close> after the disk writes \<open>ws\<close>, up to the cache and woken processes.\<close>

definition wrote :: "(nat \<times> byte list) list \<Rightarrow> 'a bstate_scheme \<Rightarrow> 'a bstate_scheme \<Rightarrow> bool" where
  "wrote ws s s' \<longleftrightarrow> s' = s\<lparr>bufs := bufs s', procs := procs s', disk := apply_writes ws (disk s),
     dtrace := dtrace s @ ws\<rparr> \<and> woke (procs s) (procs s')"

lemma wrote_trans [trans]: "wrote ws s t \<Longrightarrow> wrote vs t u \<Longrightarrow> wrote (ws @ vs) s u"
proof -
  assume a: "wrote ws s t" "wrote vs t u"
  have t: "t = s\<lparr>bufs := bufs t, procs := procs t, disk := apply_writes ws (disk s), dtrace := dtrace s @ ws\<rparr>"
    using a(1) by (simp add: wrote_def)
  have d: "disk t = apply_writes ws (disk s)" "dtrace t = dtrace s @ ws" by (subst t, simp)+
  have "u = t\<lparr>bufs := bufs u, procs := procs u, disk := apply_writes vs (disk t), dtrace := dtrace t @ vs\<rparr>"
    using a(2) by (simp add: wrote_def)
  also have "\<dots> = s\<lparr>bufs := bufs u, procs := procs u, disk := apply_writes (ws @ vs) (disk s), dtrace := dtrace s @ ws @ vs\<rparr>"
    unfolding d by (subst t) simp
  finally show ?thesis using a woke_trans unfolding wrote_def by blast
qed

lemma wroteD:
  assumes "wrote ws s s'"
  shows "disk s' = apply_writes ws (disk s)" "dtrace s' = dtrace s @ ws" "woke (procs s) (procs s')" "cur s' = cur s"
    "mypid s' = mypid s"
proof -
  obtain B P where e: "s' = s\<lparr>bufs := B, procs := P, disk := apply_writes ws (disk s), dtrace := dtrace s @ ws\<rparr>"
    and w: "woke (procs s) P" using assms unfolding wrote_def by auto
  show "disk s' = apply_writes ws (disk s)" "dtrace s' = dtrace s @ ws" "woke (procs s) (procs s')" "cur s' = cur s"
    "mypid s' = mypid s"
    using w woke_fields(2) [OF w] by (simp_all add: e mypid_def myproc_def)
qed

lemma wrote_slog: "wrote ws s s' \<Longrightarrow> slog s' = slog s"
proof -
  assume "wrote ws s s'"
  then obtain B P where "s' = s\<lparr>bufs := B, procs := P, disk := apply_writes ws (disk s), dtrace := dtrace s @ ws\<rparr>"
    unfolding wrote_def by blast
  then show ?thesis by simp
qed

lemma wrote_none: "s' = s\<lparr>bufs := bufs s', procs := procs s'\<rparr> \<Longrightarrow> woke (procs s) (procs s') \<Longrightarrow> wrote [] s s'"
proof -
  assume a: "s' = s\<lparr>bufs := bufs s', procs := procs s'\<rparr>" "woke (procs s) (procs s')"
  obtain B P where e: "s' = s\<lparr>bufs := B, procs := P\<rparr>" using a(1) by blast
  show ?thesis unfolding wrote_def using a(2) by (simp add: e)
qed


lemma wrote_mono_bufs: "s' = s\<lparr>bufs := bufs s'\<rparr> \<Longrightarrow> wrote [] s s'"
proof -
  assume a: "s' = s\<lparr>bufs := bufs s'\<rparr>"
  obtain B where e: "s' = s\<lparr>bufs := B\<rparr>" using a by blast
  show ?thesis unfolding wrote_def by (simp add: e)
qed

section \<open>Copying one block to another\<close>

text \<open>Both \<open>write_log\<close> and \<open>install_trans\<close> read two blocks and write one over the other.\<close>

lemma read_two:
  assumes ok: "cache_ok dev L {} s" and n: "a \<noteq> c" "a < FSSIZE" "c < FSSIZE" "a \<notin> L" "card L < NBUF"
    "c \<in> L \<or> Suc (card L) < NBUF"
  obtains i j s1 s2 where "bread dev a s = Inr (i, s1)" "bread dev c s1 = Inr (j, s2)" "cache_ok dev L {a, c} s2"
    "is_cached dev a s2 i" "is_cached dev c s2 j" "blk dev s2 = blk dev s" "wrote [] s s1" "wrote [] s s2"
proof -
  have f: "finite L" using finite_refs [OF ok] by simp
  have "a \<in> L \<or> card (L \<union> {}) < NBUF" using n by simp
  from bread_ok [OF ok _ n(2) this] obtain i s1 where i: "bread dev a s = Inr (i, s1)"
    "cache_ok dev L {a} s1" "is_cached dev a s1 i" "blk dev s1 = blk dev s" "s1 = s\<lparr>bufs := bufs s1\<rparr>" by blast
  have "c \<notin> {a}" "c \<in> L \<or> card (L \<union> {a}) < NBUF" using n f by auto
  from bread_ok [OF i(2) this(1) n(3) this(2)] obtain j s2 where j: "bread dev c s1 = Inr (j, s2)"
    "cache_ok dev L {c, a} s2" "is_cached dev c s2 j" "blk dev s2 = blk dev s1" "s2 = s1\<lparr>bufs := bufs s2\<rparr>"
    "keeps dev (L \<union> {a}) s1 s2" by blast
  have "is_cached dev a s2 i" using keepsD [OF j(6)] i(3) by simp
  moreover have "wrote [] s s1" "wrote [] s1 s2" using i(5) j(5) by (auto intro: wrote_mono_bufs)
  moreover have "wrote [] s s2" using wrote_trans [OF \<open>wrote [] s s1\<close> \<open>wrote [] s1 s2\<close>] by simp
  ultimately show ?thesis using that [OF i(1) j(1)] i(4) j(2-4) by (simp add: insert_commute)
qed

lemma bwrite_wrote:
  assumes "cache_ok dev L H s" "is_cached dev n s b" "n \<in> H" "n < FSSIZE"
  obtains s' where "bwrite b s = Inr s'" "cache_ok dev L H s'" "is_cached dev n s' b" "blk dev s' = blk dev s"
    "wrote [(n, blk dev s n)] s s'" "keeps dev (L \<union> H) s s'"
proof -
  note w = bwrite_ok [OF assms]
  show ?thesis by (rule that [OF w(1-4) _ w(5)]) (simp add: wrote_def)
qed

lemma brelse_wrote:
  assumes "cache_ok dev L H s" "is_cached dev n s b" "n \<in> H" "n \<in> L \<or> blk dev s n = disk s n"
  obtains s' where "brelse b s = Inr s'" "cache_ok dev L (H - {n}) s'" "blk dev s' = blk dev s" "wrote [] s s'"
    "keeps dev (L \<union> H) s s'"
  using brelse_ok [OF assms] wrote_none by metis

lemma write_log_one_spec:
  assumes ok: "cache_ok (ldv s) L {} s" and lg: "lstart (slog s) + tail + 1 = a" and hb: "hblock (lh (slog s)) ! tail = c"
    and n: "a \<noteq> c" "a < FSSIZE" "c < FSSIZE" "a \<notin> L" "card L < NBUF" "c \<in> L"
  obtains s' where "write_log_one tail s = Inr s'" "cache_ok (ldv s) L {} s'"
    "blk (ldv s) s' = (blk (ldv s) s)(a := blk (ldv s) s c)" "wrote [(a, blk (ldv s) s c)] s s'"
proof -
  let ?dev = "ldv s"
  obtain i j s1 s2 where r: "bread ?dev a s = Inr (i, s1)" "bread ?dev c s1 = Inr (j, s2)"
    "cache_ok ?dev L {a, c} s2" "is_cached ?dev a s2 i" "is_cached ?dev c s2 j" "blk ?dev s2 = blk ?dev s"
    "wrote [] s s1" "wrote [] s s2" by (rule read_two [OF ok n(1-5) disjI1 [OF n(6)]])
  let ?d = "bdata (bufs s2 ! j)"
  have ac: "a \<in> {a, c}" "c \<in> {a, c}" by simp_all
  note h = held_buf(2,3) [OF r(3,5) ac(2)]
  have d: "?d = blk ?dev s c" "length ?d = BSIZE" using h r(6) by simp_all
  let ?s3 = "set_data i ?d s2"
  note s3 = set_data_ok [OF r(3,4) ac(1) d(2)]
  from bwrite_wrote [OF s3(1,2) ac(1) n(2)] obtain s4 where w: "bwrite i ?s3 = Inr s4" "cache_ok ?dev L {a, c} s4"
    "is_cached ?dev a s4 i" "blk ?dev s4 = blk ?dev ?s3" "wrote [(a, blk ?dev ?s3 a)] ?s3 s4"
    "keeps ?dev (L \<union> {a, c}) ?s3 s4" by blast
  have j4: "is_cached ?dev c s4 j" using keepsD [OF w(6)] keepsD [OF s3(6)] r(5) by simp
  from brelse_wrote [OF w(2) j4 ac(2) disjI1 [OF n(6)]] obtain s5 where f: "brelse j s4 = Inr s5" "cache_ok ?dev L ({a, c} - {c}) s5"
    "blk ?dev s5 = blk ?dev s4" "wrote [] s4 s5" "keeps ?dev (L \<union> {a, c}) s4 s5" by blast
  have i5: "is_cached ?dev a s5 i" using keepsD [OF f(5)] w(3) by simp
  have "a \<in> L \<or> blk ?dev s5 a = disk s5 a" and "a \<in> {a, c} - {c}" using n(1)
    by (simp_all add: f(3) w(4) wroteD(1) [OF f(4)] wroteD(1) [OF w(5)])
  from brelse_wrote [OF f(2) i5 this(2,1)] obtain s6 where g: "brelse i s5 = Inr s6"
    "cache_ok ?dev L ({a, c} - {c} - {a}) s6" "blk ?dev s6 = blk ?dev s5" "wrote [] s5 s6" by blast
  have sl: "slog s1 = slog s" "ldv s1 = ldv s" using wrote_slog [OF r(7)] by simp_all
  have "wrote [] s2 ?s3" by (rule wrote_mono_bufs [OF s3(5)])
  from wrote_trans [OF r(8) wrote_trans [OF this wrote_trans [OF w(5) wrote_trans [OF f(4) g(4)]]]]
  have "wrote [(a, blk ?dev s c)] s s6" using s3(3) d(1) by simp
  moreover have "write_log_one tail s = Inr s6"
    unfolding write_log_one_def lg using r(1,2) w(1) f(1) g(1) by (simp add: hb sl)
  moreover have e: "{a, c} - {c} - {a} = {}" by auto
  note g2 = g(2) [unfolded e]
  ultimately show ?thesis using that g2 g(3) f(3) w(4) s3(3) d(1) r(6) by simp
qed


lemma install_one_spec:
  assumes ok: "cache_ok (ldv s) L {} s" and lg: "lstart (slog s) + tail + 1 = a" and hb: "hblock (lh (slog s)) ! tail = c"
    and n: "a \<noteq> c" "a < FSSIZE" "c < FSSIZE" "a \<notin> L" "card L < NBUF" "if recovering then Suc (card L) < NBUF \<and> c \<notin> L else c \<in> L"
  obtains s' where "install_one recovering tail s = Inr s'" "cache_ok (ldv s) (L - {c}) {} s'"
    "blk (ldv s) s' = (blk (ldv s) s)(c := blk (ldv s) s a)" "wrote [(c, blk (ldv s) s a)] s s'"
proof -
  let ?dev = "ldv s"
  have n6: "c \<in> L \<or> Suc (card L) < NBUF" using n(6) by (auto split: if_splits)
  obtain i j s1 s2 where r: "bread ?dev a s = Inr (i, s1)" "bread ?dev c s1 = Inr (j, s2)"
    "cache_ok ?dev L {a, c} s2" "is_cached ?dev a s2 i" "is_cached ?dev c s2 j" "blk ?dev s2 = blk ?dev s"
    "wrote [] s s1" "wrote [] s s2" by (rule read_two [OF ok n(1-5) n6])
  let ?d = "bdata (bufs s2 ! i)"
  have ac: "a \<in> {a, c}" "c \<in> {a, c}" "a \<in> L \<union> {a, c}" "c \<in> L \<union> {a, c}" by simp_all
  note h = held_buf(2,3) [OF r(3,4) ac(1)]
  have d: "?d = blk ?dev s a" "length ?d = BSIZE" using h r(6) by simp_all
  let ?s3 = "set_data j ?d s2"
  note s3 = set_data_ok [OF r(3,5) ac(2) d(2)]
  obtain s4 where w: "bwrite j ?s3 = Inr s4" "cache_ok ?dev L {a, c} s4"
    "is_cached ?dev c s4 j" "blk ?dev s4 = blk ?dev ?s3" "wrote [(c, blk ?dev ?s3 c)] ?s3 s4"
    "keeps ?dev (L \<union> {a, c}) ?s3 s4" by (rule bwrite_wrote [OF s3(1,2) ac(2) n(3)])
  have i4: "is_cached ?dev a s4 i" using keepsD [OF w(6) ac(3) keepsD [OF s3(6) ac(3) r(4)]] .
  have clean: "blk ?dev s a = disk s a" using blk_clean [OF ok] n(4) by simp
  define s5 where "s5 = (if recovering then s4 else bunpin j s4)"
  have "cache_ok ?dev (L - {c}) {a, c} s5 \<and> is_cached ?dev c s5 j \<and> is_cached ?dev a s5 i \<and> blk ?dev s5 = blk ?dev s4 \<and>
    wrote [] s4 s5"
  proof (cases recovering)
    case True
    then have "L - {c} = L" using n(6) by simp
    then show ?thesis using True w(2,3) i4 by (simp add: s5_def wrote_def)
  next
    case False
    then have cL: "c \<in> L" using n(6) by simp
    note u = bunpin_ok [OF w(2,3) ac(2) cL]
    show ?thesis using u(1-3) keepsD [OF u(6) ac(3) i4] wrote_mono_bufs [OF u(5)] False by (simp add: s5_def)
  qed
  then have s5: "cache_ok ?dev (L - {c}) {a, c} s5" "is_cached ?dev c s5 j" "is_cached ?dev a s5 i" "blk ?dev s5 = blk ?dev s4"
    "wrote [] s4 s5" by blast+
  have "disk s5 a = disk s a" "disk s5 c = blk ?dev ?s3 c"
    using n(1) wroteD(1) [OF s5(5)] wroteD(1) [OF w(5)] wroteD(1) [OF r(8)] wroteD(1) [OF wrote_mono_bufs [OF s3(5)]]
    by simp_all
  moreover have "blk ?dev s5 = (blk ?dev s)(c := blk ?dev s a)" using s5(4) w(4) s3(3) r(6) d(1) by simp
  ultimately have cl: "blk ?dev s5 a = disk s5 a" "blk ?dev s5 c = disk s5 c"
    using clean n(1) s3(3) d(1) by simp_all
  obtain s6 where f: "brelse i s5 = Inr s6" "cache_ok ?dev (L - {c}) ({a, c} - {a}) s6"
    "blk ?dev s6 = blk ?dev s5" "wrote [] s5 s6" "keeps ?dev (L - {c} \<union> {a, c}) s5 s6"
    by (rule brelse_wrote [OF s5(1,3) ac(1) disjI2 [OF cl(1)]])
  have "c \<in> L - {c} \<union> {a, c}" "c \<in> {a, c} - {a}" using n(1) by simp_all
  note c6 = keepsD [OF f(5) this(1) s5(2)] and c6' = this(2)
  have "blk ?dev s6 c = disk s6 c" using cl(2) f(3) wroteD(1) [OF f(4)] by simp
  obtain s7 where g: "brelse j s6 = Inr s7"
    "cache_ok ?dev (L - {c}) ({a, c} - {a} - {c}) s7" "blk ?dev s7 = blk ?dev s6" "wrote [] s6 s7"
    by (rule brelse_wrote [OF f(2) c6 c6' disjI2 [OF \<open>blk ?dev s6 c = disk s6 c\<close>]])
  have sl: "slog s1 = slog s" "ldv s1 = ldv s" using wrote_slog [OF r(7)] by simp_all
  have "wrote [] s2 ?s3" by (rule wrote_mono_bufs [OF s3(5)])
  from wrote_trans [OF r(8) wrote_trans [OF this wrote_trans [OF w(5) wrote_trans [OF s5(5) wrote_trans [OF f(4) g(4)]]]]]
  have "wrote [(c, blk ?dev s a)] s s7" using s3(3) d(1) by simp
  moreover have "install_one recovering tail s = Inr s7"
    unfolding install_one_def lg using r(1,2) w(1) f(1) g(1) by (simp add: hb sl s5_def)
  moreover have e: "{a, c} - {a} - {c} = {}" by auto
  note g2 = g(2) [unfolded e]
  ultimately show ?thesis using that g2 g(3) f(3) \<open>blk ?dev s5 = (blk ?dev s)(c := blk ?dev s a)\<close> by simp
qed

lemma write_head_spec:
  assumes ok: "cache_ok (ldv s) L {} s" and n: "lstart (slog s) < FSSIZE" "lstart (slog s) \<notin> L" "card L < NBUF"
    and h: "0 \<le> hn (lh (slog s))" "hn (lh (slog s)) \<le> int LOGSIZE"
  defines "x \<equiv> put_header (lh (slog s)) (blk (ldv s) s (lstart (slog s)))"
  obtains s' where "write_head s = Inr s'" "cache_ok (ldv s) L {} s'"
    "blk (ldv s) s' = (blk (ldv s) s)(lstart (slog s) := x)" "wrote [(lstart (slog s), x)] s s'"
proof -
  let ?dev = "ldv s" and ?l = "lstart (slog s)"
  have "?l \<notin> {}" "?l \<in> L \<or> card (L \<union> {}) < NBUF" using n by simp_all
  obtain b s1 where b: "bread ?dev ?l s = Inr (b, s1)" "cache_ok ?dev L {?l} s1" "is_cached ?dev ?l s1 b"
    "bdata (bufs s1 ! b) = blk ?dev s ?l" "blk ?dev s1 = blk ?dev s" "s1 = s\<lparr>bufs := bufs s1\<rparr>"
    by (rule bread_ok [OF ok \<open>?l \<notin> {}\<close> n(1) \<open>?l \<in> L \<or> card (L \<union> {}) < NBUF\<close>])
  have sl: "slog s1 = slog s" by (rule wrote_slog [OF wrote_mono_bufs [OF b(6)]])
  have x: "length x = BSIZE" unfolding x_def by (rule put_header_get(1) [OF length_blk [OF ok] h])
  have in1: "?l \<in> {?l}" by simp
  let ?s2 = "set_data b x s1"
  note s2 = set_data_ok [OF b(2,3) in1 x]
  obtain s3 where w: "bwrite b ?s2 = Inr s3" "cache_ok ?dev L {?l} s3"
    "is_cached ?dev ?l s3 b" "blk ?dev s3 = blk ?dev ?s2" "wrote [(?l, blk ?dev ?s2 ?l)] ?s2 s3"
    by (rule bwrite_wrote [OF s2(1,2) in1 n(1)])
  have "blk ?dev s3 ?l = disk s3 ?l" using w(4) wroteD(1) [OF w(5)] by simp
  obtain s4 where e: "brelse b s3 = Inr s4" "cache_ok ?dev L ({?l} - {?l}) s4" "blk ?dev s4 = blk ?dev s3" "wrote [] s3 s4"
    by (rule brelse_wrote [OF w(2,3) in1 disjI2 [OF \<open>blk ?dev s3 ?l = disk s3 ?l\<close>]])
  have "write_head s = Inr s4" unfolding write_head_def using b(1,4) w(1) e(1) sl by (simp add: x_def)
  moreover from wrote_trans [OF wrote_mono_bufs [OF b(6)] wrote_trans [OF wrote_mono_bufs [OF s2(5)] wrote_trans [OF w(5) e(4)]]]
  have "wrote [(?l, x)] s s4" using s2(3) by simp
  moreover have "blk ?dev s4 = (blk ?dev s)(?l := x)" using e(3) w(4) s2(3) b(5) by simp
  ultimately show ?thesis using that e(2) by simp
qed


section \<open>The writes of a commit\<close>

definition log_slot_no :: "log \<Rightarrow> nat \<Rightarrow> nat" where
  "log_slot_no l k = lstart l + k + 1"

definition home_no :: "log \<Rightarrow> nat \<Rightarrow> nat" where
  "home_no l k = hblock (lh l) ! k"

lemma write_log_loop:
  assumes "slog s = l" "cache_ok (ldev l) L {} s" "card L < NBUF"
    and "\<And>k. k \<in> set ks \<Longrightarrow> log_slot_no l k < FSSIZE \<and> log_slot_no l k \<notin> L \<and> home_no l k < FSSIZE \<and> home_no l k \<in> L"
  shows "\<exists>s'. kfor write_log_one ks s = Inr s' \<and> cache_ok (ldev l) L {} s' \<and>
    blk (ldev l) s' = apply_writes (map (\<lambda>k. (log_slot_no l k, blk (ldev l) s (home_no l k))) ks) (blk (ldev l) s) \<and>
    wrote (map (\<lambda>k. (log_slot_no l k, blk (ldev l) s (home_no l k))) ks) s s'"
  using assms
proof (induction ks arbitrary: s)
  case Nil
  then show ?case by (simp add: wrote_def)
next
  case (Cons k ks)
  let ?a = "log_slot_no l k" and ?c = "home_no l k" and ?dev = "ldev l"
  have k: "?a < FSSIZE" "?a \<notin> L" "?c < FSSIZE" "?c \<in> L" using Cons.prems(4) [of k] by simp_all
  then have ne: "?a \<noteq> ?c" by metis
  have dv: "ldv s = ?dev" using Cons.prems(1) by simp
  obtain s1 where s1: "write_log_one k s = Inr s1" "cache_ok ?dev L {} s1"
    "blk ?dev s1 = (blk ?dev s)(?a := blk ?dev s ?c)" "wrote [(?a, blk ?dev s ?c)] s s1"
    using write_log_one_spec [of s L k ?a ?c] Cons.prems(1,2,3) k ne unfolding dv
    by (auto simp: log_slot_no_def home_no_def)
  have m: "blk ?dev s1 (home_no l j) = blk ?dev s (home_no l j)" if "j \<in> set ks" for j
    using Cons.prems(4) [of j] that k(2) s1(3) by auto
  have e: "map (\<lambda>k. (log_slot_no l k, blk ?dev s1 (home_no l k))) ks = map (\<lambda>k. (log_slot_no l k, blk ?dev s (home_no l k))) ks"
    using m by simp
  have "slog s1 = l" using wrote_slog [OF s1(4)] Cons.prems(1) by simp
  from Cons.IH [OF this s1(2) Cons.prems(3)] Cons.prems(4)
  obtain s' where s': "kfor write_log_one ks s1 = Inr s'" "cache_ok ?dev L {} s'"
    "blk ?dev s' = apply_writes (map (\<lambda>k. (log_slot_no l k, blk ?dev s (home_no l k))) ks) (blk ?dev s1)"
    "wrote (map (\<lambda>k. (log_slot_no l k, blk ?dev s (home_no l k))) ks) s1 s'" unfolding e by auto
  show ?case using s1(1) s'(1-3) wrote_trans [OF s1(4) s'(4)] s1(3) by simp
qed

lemma install_loop:
  assumes "slog s = l" "cache_ok (ldev l) L {} s" "if r then L = {} else L = home_no l ` set ks \<and> distinct (map (home_no l) ks)"
    and "card L < NBUF"
    and "\<And>k. k \<in> set ks \<Longrightarrow> log_slot_no l k < FSSIZE \<and> log_slot_no l k \<notin> home_no l ` set ks \<and> home_no l k < FSSIZE"
  shows "\<exists>s'. kfor (install_one r) ks s = Inr s' \<and> cache_ok (ldev l) {} {} s' \<and>
    blk (ldev l) s' = apply_writes (map (\<lambda>k. (home_no l k, blk (ldev l) s (log_slot_no l k))) ks) (blk (ldev l) s) \<and>
    wrote (map (\<lambda>k. (home_no l k, blk (ldev l) s (log_slot_no l k))) ks) s s'"
  using assms
proof (induction ks arbitrary: s L)
  case Nil
  then show ?case by (auto simp: wrote_def split: if_splits)
next
  case (Cons k ks)
  let ?a = "log_slot_no l k" and ?c = "home_no l k" and ?dev = "ldev l"
  have k: "?a < FSSIZE" "?c < FSSIZE" "?a \<notin> home_no l ` set (k # ks)" using Cons.prems(5) [of k] by auto
  then have ne: "?a \<noteq> ?c" and aL: "?a \<notin> L" using Cons.prems(3) by (auto split: if_splits)
  have dv: "ldv s = ?dev" using Cons.prems(1) by simp
  have rc: "if r then Suc (card L) < NBUF \<and> ?c \<notin> L else ?c \<in> L"
    using Cons.prems(3) by (auto simp: NBUF_def)
  obtain s1 where s1: "install_one r k s = Inr s1" "cache_ok ?dev (L - {?c}) {} s1"
    "blk ?dev s1 = (blk ?dev s)(?c := blk ?dev s ?a)" "wrote [(?c, blk ?dev s ?a)] s s1"
    using install_one_spec [of s L k ?a ?c r] Cons.prems(1,2,4) k ne aL rc unfolding dv
    by (auto simp: log_slot_no_def home_no_def)
  have m: "blk ?dev s1 (log_slot_no l j) = blk ?dev s (log_slot_no l j)" if "j \<in> set ks" for j
    using Cons.prems(5) [of j] that s1(3) by auto
  have e: "map (\<lambda>k. (home_no l k, blk ?dev s1 (log_slot_no l k))) ks = map (\<lambda>k. (home_no l k, blk ?dev s (log_slot_no l k))) ks"
    using m by simp
  have "slog s1 = l" using wrote_slog [OF s1(4)] Cons.prems(1) by simp
  moreover have "if r then L - {?c} = {} else L - {?c} = home_no l ` set ks \<and> distinct (map (home_no l) ks)"
    using Cons.prems(3) by (auto split: if_splits)
  moreover have "card (L - {?c}) < NBUF"
    using Cons.prems(4) finite_refs [OF Cons.prems(2)] card_mono [of L "L - {?c}"] by auto
  moreover have "log_slot_no l j < FSSIZE \<and> log_slot_no l j \<notin> home_no l ` set ks \<and> home_no l j < FSSIZE" if "j \<in> set ks" for j
    using Cons.prems(5) [of j] that by auto
  ultimately obtain s' where s': "kfor (install_one r) ks s1 = Inr s'" "cache_ok ?dev {} {} s'"
    "blk ?dev s' = apply_writes (map (\<lambda>k. (home_no l k, blk ?dev s (log_slot_no l k))) ks) (blk ?dev s1)"
    "wrote (map (\<lambda>k. (home_no l k, blk ?dev s (log_slot_no l k))) ks) s1 s'"
    using Cons.IH [of s1 "L - {?c}"] s1(2) unfolding e by auto
  show ?case using s1(1) s'(1-3) wrote_trans [OF s1(4) s'(4)] s1(3) by simp
qed


text \<open>The header block of \<open>n\<close> entries over the old header block, and of no entries over that.\<close>

definition hdr_full :: "'a lstate_scheme \<Rightarrow> byte list" where
  "hdr_full s = put_header (lh (slog s)) (disk s (lstart (slog s)))"

definition hdr_clear :: "'a lstate_scheme \<Rightarrow> byte list" where
  "hdr_clear s = put_header ((lh (slog s))\<lparr>hn := 0\<rparr>) (hdr_full s)"

definition log_writes :: "'a lstate_scheme \<Rightarrow> (nat \<times> byte list) list" where
  "log_writes s = map (\<lambda>k. (log_slot_no (slog s) k, content s (home_no (slog s) k))) [0..<length (logged_list s)]"

definition home_writes :: "'a lstate_scheme \<Rightarrow> (nat \<times> byte list) list" where
  "home_writes s = map (\<lambda>k. (home_no (slog s) k, content s (home_no (slog s) k))) [0..<length (logged_list s)]"

definition commit_writes :: "'a lstate_scheme \<Rightarrow> (nat \<times> byte list) list" where
  "commit_writes s = log_writes s @ [(lstart (slog s), hdr_full s)] @ home_writes s @ [(lstart (slog s), hdr_clear s)]"

lemma logged_nth:
  assumes "log_inv s" "k < length (logged_list s)"
  shows "home_no (slog s) k = logged_list s ! k" "home_no (slog s) k \<in> logged s" "home (slog s) (home_no (slog s) k)"
    "log_slot_no (slog s) k < FSSIZE" "\<not> home (slog s) (log_slot_no (slog s) k)" "lstart (slog s) < log_slot_no (slog s) k"
proof -
  show e: "home_no (slog s) k = logged_list s ! k" using assms(2) by (simp add: home_no_def logged_list_def)
  show i: "home_no (slog s) k \<in> logged s" using assms(2) by (simp add: e)
  show "home (slog s) (home_no (slog s) k)" using i assms(1) by (simp add: log_inv_def Let_def)
  have "length (logged_list s) < lsize (slog s)" using assms(1) by (auto simp: log_inv_def Let_def logged_list_def)
  then show "log_slot_no (slog s) k < FSSIZE" "\<not> home (slog s) (log_slot_no (slog s) k)" "lstart (slog s) < log_slot_no (slog s) k"
    using assms by (auto simp: log_inv_def Let_def log_slot_no_def home_def)
qed

lemma logged_map: "log_inv s \<Longrightarrow> map (home_no (slog s)) [0..<length (logged_list s)] = logged_list s"
  by (rule nth_equalityI) (simp_all add: logged_nth(1))

lemma log_invD:
  assumes "log_inv s"
  shows "0 \<le> hn (lh (slog s))" "hn (lh (slog s)) \<le> int LOGSIZE" "length (hblock (lh (slog s))) = LOGSIZE"
    "distinct (logged_list s)" "lstart (slog s) < FSSIZE" "\<not> home (slog s) (lstart (slog s))"
    "int (length (logged_list s)) = hn (lh (slog s))" "get32 (disk s (lstart (slog s))) 0 = 0"
    "hn (lh (slog s)) < int (lsize (slog s))" "lstart (slog s) + lsize (slog s) \<le> FSSIZE"
  using assms by (auto simp: log_inv_def Let_def home_def) (simp add: logged_list_def)

lemma clear_header_ok:
  "cache_ok dev L H (clear_header s) = cache_ok dev L H s" "blk dev (clear_header s) = blk dev s"
  "slog (clear_header s) = (slog s)\<lparr>lh := (lh (slog s))\<lparr>hn := 0\<rparr>\<rparr>" "disk (clear_header s) = disk s"
  "dtrace (clear_header s) = dtrace s" "mypid (clear_header s) = mypid s"
proof -
  have m: "bufs (clear_header s) = bufs s" "disk (clear_header s) = disk s" "mypid (clear_header s) = mypid s"
    by (simp_all add: clear_header_def upd_log_def mypid_def myproc_def)
  show "cache_ok dev L H (clear_header s) = cache_ok dev L H s" by (rule cache_ok_cong [OF m])
  show "blk dev (clear_header s) = blk dev s" by (rule blk_cong [OF m(1,2)])
  show "mypid (clear_header s) = mypid s" by (rule m(3))
qed (simp_all add: clear_header_def upd_log_def)

lemma commit_spec:
  assumes tx: "tx_ok {} s" and n: "0 < hn (lh (slog s))" "card (logged s) < NBUF"
  obtains s' where "commit s = Inr s'" "disk s' = apply_writes (commit_writes s) (disk s)"
    "dtrace s' = dtrace s @ commit_writes s" "slog s' = (slog s)\<lparr>lh := (lh (slog s))\<lparr>hn := 0\<rparr>\<rparr>"
    "cache_ok (ldv s) {} {} s'"
proof -
  define l where "l = slog s"
  let ?dev = "ldev l" and ?ks = "[0..<length (logged_list s)]" and ?lst = "lstart l"
  have sl: "slog s = l" by (simp add: l_def)
  have ok: "cache_ok ?dev (logged s) {} s" and li: "log_inv s" using tx by (simp_all add: tx_ok_def l_def)
  note inv = log_invD [OF li, unfolded sl] and ln = logged_nth [OF li, unfolded sl]
  have ks: "log_slot_no l k < FSSIZE \<and> log_slot_no l k \<notin> logged s \<and> home_no l k < FSSIZE \<and> home_no l k \<in> logged s"
    if "k \<in> set ?ks" for k
    using ln [of k] that li by (auto simp: log_inv_def Let_def home_def sl)
  have lst: "?lst \<notin> logged s" using li inv(6) by (auto simp: log_inv_def Let_def sl)
  have lh: "logged s = home_no l ` set ?ks" "distinct (map (home_no l) ?ks)"
    using logged_map [OF li, unfolded sl] inv(4) by (metis set_map, simp)
  have nn: "nat (hn (lh l)) = length (logged_list s)" using inv(7) by simp
  obtain s1 where s1: "write_log s = Inr s1" "cache_ok ?dev (logged s) {} s1"
    "blk ?dev s1 = apply_writes (log_writes s) (blk ?dev s)" "wrote (log_writes s) s s1"
    using write_log_loop [where ks = ?ks, OF sl ok n(2) ks] by (auto simp: write_log_def log_writes_def sl nn)
  have sl1: "slog s1 = l" using wrote_slog [OF s1(4)] sl by simp
  have fw: "fst ` set (log_writes s) = log_slot_no l ` set ?ks" by (simp add: log_writes_def sl image_image)
  have lst1: "blk ?dev s1 ?lst = disk s ?lst"
  proof -
    have "?lst \<notin> fst ` set (log_writes s)" unfolding fw by (auto simp: log_slot_no_def)
    then show ?thesis using s1(3) blk_clean [OF ok] lst by (simp add: apply_writes_other)
  qed
  obtain s2 where s2: "write_head s1 = Inr s2" "cache_ok ?dev (logged s) {} s2"
    "blk ?dev s2 = (blk ?dev s1)(?lst := hdr_full s)" "wrote [(?lst, hdr_full s)] s1 s2"
    using write_head_spec [of s1 "logged s"] s1(2) lst n(2) inv(1,2,5) lst1 unfolding sl1
    by (auto simp: hdr_full_def sl)
  have sl2: "slog s2 = l" using wrote_slog [OF s2(4)] sl1 by simp
  have b2: "blk ?dev s2 (log_slot_no l k) = content s (home_no l k)" if "k \<in> set ?ks" for k
  proof -
    have "log_slot_no l k \<noteq> ?lst" using ln(6) [of k] that by auto
    then have "blk ?dev s2 (log_slot_no l k) = apply_writes (log_writes s) (blk ?dev s) (log_slot_no l k)" using s2(3) s1(3) by simp
    also have "\<dots> = content s (home_no l k)" unfolding log_writes_def sl
      by (rule apply_writes_map [OF _ that]) (simp add: distinct_map inj_on_def log_slot_no_def)
    finally show ?thesis .
  qed
  have e2: "map (\<lambda>k. (home_no l k, blk ?dev s2 (log_slot_no l k))) ?ks = home_writes s"
    using b2 by (simp add: home_writes_def sl)
  have ks': "log_slot_no l k < FSSIZE \<and> log_slot_no l k \<notin> home_no l ` set ?ks \<and> home_no l k < FSSIZE" if "k \<in> set ?ks" for k
    using ks [OF that] lh(1) by simp
  have Lif: "if False then logged s = {} else logged s = home_no l ` set ?ks \<and> distinct (map (home_no l) ?ks)" using lh by simp
  obtain s3 where s3: "install_trans False s2 = Inr s3" "cache_ok ?dev {} {} s3"
    "blk ?dev s3 = apply_writes (home_writes s) (blk ?dev s2)" "wrote (home_writes s) s2 s3"
    using install_loop [where ks = ?ks, OF sl2 s2(2) Lif n(2) ks'] unfolding e2 by (auto simp: install_trans_def sl2 nn)
  have sl3: "slog s3 = l" using wrote_slog [OF s3(4)] sl2 by simp
  let ?t = "clear_header s3"
  have tl: "slog ?t = l\<lparr>lh := (lh l)\<lparr>hn := 0\<rparr>\<rparr>" by (simp add: clear_header_ok sl3)
  have lst3: "blk ?dev ?t ?lst = hdr_full s"
  proof -
    have "?lst \<notin> fst ` set (home_writes s)" using lst lh(1) by (auto simp: home_writes_def sl)
    then show ?thesis using s3(3) s2(3) by (simp add: apply_writes_other clear_header_ok)
  qed
  obtain s4 where s4: "write_head ?t = Inr s4" "cache_ok ?dev {} {} s4" "wrote [(?lst, hdr_clear s)] ?t s4"
    using write_head_spec [of ?t "{}"] s3(2) inv(1,2,5) lst3 unfolding tl
    by (auto simp: hdr_clear_def sl clear_header_ok NBUF_def)
  from wrote_trans [OF s1(4) wrote_trans [OF s2(4) s3(4)]]
  have w3: "wrote (log_writes s @ [(?lst, hdr_full s)] @ home_writes s) s s3" by simp
  have "commit s = Inr s4" using n(1) s1(1) s2(1) s3(1) s4(1) by (simp add: commit_def)
  moreover have "disk s4 = apply_writes (commit_writes s) (disk s)" "dtrace s4 = dtrace s @ commit_writes s"
    using wroteD(1,2) [OF w3] wroteD(1,2) [OF s4(3)] by (simp_all add: commit_writes_def sl clear_header_ok)
  moreover have "slog s4 = l\<lparr>lh := (lh l)\<lparr>hn := 0\<rparr>\<rparr>" using wrote_slog [OF s4(3)] tl by simp
  ultimately show ?thesis using that s4(2) sl by simp
qed


section \<open>Recovery\<close>

text \<open>What the log on a disk says: its entries, and the disk with the entries applied.\<close>

definition log_entries :: "nat \<Rightarrow> (nat \<Rightarrow> byte list) \<Rightarrow> (nat \<times> byte list) list" where
  "log_entries lst d = map (\<lambda>k. (unat (get32 (d lst) (4 + 4 * k)), d (lst + k + 1))) [0..<nat (sint (get32 (d lst) 0))]"

definition replay :: "nat \<Rightarrow> (nat \<Rightarrow> byte list) \<Rightarrow> nat \<Rightarrow> byte list" where
  "replay lst d = apply_writes (log_entries lst d) d"

text \<open>A header the kernel can have written: not too long, and its blocks are outside the log.\<close>

definition sane_log :: "nat \<Rightarrow> nat \<Rightarrow> (nat \<Rightarrow> byte list) \<Rightarrow> bool" where
  "sane_log lst sz d \<longleftrightarrow> lst + sz \<le> FSSIZE \<and> 0 < sz \<and> 0 \<le> sint (get32 (d lst) 0) \<and>
     sint (get32 (d lst) 0) \<le> int LOGSIZE \<and> sint (get32 (d lst) 0) < int sz \<and>
     (\<forall>k<nat (sint (get32 (d lst) 0)). let n = unat (get32 (d lst) (4 + 4 * k)) in n < FSSIZE \<and> \<not> (lst \<le> n \<and> n < lst + sz))"

lemma sane_entries:
  assumes "sane_log lst sz d" "n \<in> fst ` set (log_entries lst d)"
  shows "n < FSSIZE" "\<not> (lst \<le> n \<and> n < lst + sz)"
proof -
  obtain k where "k < nat (sint (get32 (d lst) 0))" "n = unat (get32 (d lst) (4 + 4 * k))"
    using assms(2) by (auto simp: log_entries_def)
  then show "n < FSSIZE" "\<not> (lst \<le> n \<and> n < lst + sz)" using assms(1) by (simp_all add: sane_log_def Let_def)
qed

definition hdr_done :: "nat \<Rightarrow> (nat \<Rightarrow> byte list) \<Rightarrow> byte list" where
  "hdr_done lst d = put_header \<lparr>hn = 0, hblock = []\<rparr> (d lst)"

lemma put_header_0: "put_header (h\<lparr>hn := 0\<rparr>) d = put32 d 0 0" "put_header \<lparr>hn = 0, hblock = bs\<rparr> d = put32 d 0 0"
  by (simp_all add: put_header_def)

lemma read_head_spec:
  assumes ok: "cache_ok (ldv s) {} {} s" and sane: "sane_log (lstart (slog s)) sz (disk s)"
  obtains s' h where "read_head s = Inr s'" "cache_ok (ldv s) {} {} s'" "blk (ldv s) s' = disk s" "disk s' = disk s"
    "dtrace s' = dtrace s" "slog s' = (slog s)\<lparr>lh := h\<rparr>" "hn h = sint (get32 (disk s (lstart (slog s))) 0)"
    "length (hblock h) = LOGSIZE"
    "\<And>k. k < nat (hn h) \<Longrightarrow> hblock h ! k = unat (get32 (disk s (lstart (slog s))) (4 + 4 * k))"
proof -
  let ?dev = "ldv s" and ?l = "lstart (slog s)"
  let ?d = "disk s ?l"
  have c: "blk ?dev s = disk s" using blk_clean [OF ok] by auto
  have pre: "?l \<notin> {}" "?l < FSSIZE" "?l \<in> {} \<or> card ({} \<union> ({} :: nat set)) < NBUF"
    using sane by (simp_all add: sane_log_def NBUF_def)
  obtain b s1 where b: "bread ?dev ?l s = Inr (b, s1)" "cache_ok ?dev {} {?l} s1" "is_cached ?dev ?l s1 b"
    "bdata (bufs s1 ! b) = blk ?dev s ?l" "blk ?dev s1 = blk ?dev s" "s1 = s\<lparr>bufs := bufs s1\<rparr>"
    by (rule bread_ok [OF ok pre])
  define n where "n = sint (get32 ?d 0)"
  define h where "h = \<lparr>hn = n, hblock = map (\<lambda>i. if i < nat n then unat (get32 ?d (4 + 4 * i)) else hblock (lh (slog s1)) ! i) [0..<LOGSIZE]\<rparr>"
  have sl: "slog s1 = slog s" by (rule wrote_slog [OF wrote_mono_bufs [OF b(6)]])
  have w1: "wrote [] s s1" by (rule wrote_mono_bufs [OF b(6)])
  define t where "t = upd_log (\<lambda>l. l\<lparr>lh := h\<rparr>) s1"
  have te: "bufs t = bufs s1" "disk t = disk s1" "mypid t = mypid s1" "slog t = (slog s)\<lparr>lh := h\<rparr>" "dtrace t = dtrace s1"
    by (simp_all add: t_def upd_log_def sl mypid_def myproc_def)
  have t: "cache_ok ?dev {} {?l} t" "is_cached ?dev ?l t b" "blk ?dev t = disk s"
    using b(2,3,5) c cache_ok_cong [OF te(1-3)] blk_cong [OF te(1,2)] by (simp_all add: is_cached_def te(1))
  have dt: "disk t = disk s" "dtrace t = dtrace s" using te(2,5) wroteD(1,2) [OF w1] by simp_all
  have "blk ?dev t ?l = disk t ?l" using t(3) dt by simp
  obtain s2 where e: "brelse b t = Inr s2" "cache_ok ?dev {} ({?l} - {?l}) s2" "blk ?dev s2 = blk ?dev t" "wrote [] t s2"
    by (rule brelse_wrote [OF t(1,2) singletonI disjI2 [OF \<open>blk ?dev t ?l = disk t ?l\<close>]])
  have nle: "\<not> n > int LOGSIZE" using sane by (simp add: sane_log_def n_def)
  have "read_head s = Inr s2"
    unfolding read_head_def b(1) using e(1) nle by (simp add: b(4) c t_def h_def n_def sl Let_def upd_log_def cong: if_cong)
  then show ?thesis
  proof (rule that)
    show "cache_ok ?dev {} {} s2" using e(2) by simp
    show "blk ?dev s2 = disk s" using e(3) t(3) by simp
    show "disk s2 = disk s" "dtrace s2 = dtrace s" using wroteD(1,2) [OF e(4)] dt by simp_all
    show "slog s2 = (slog s)\<lparr>lh := h\<rparr>" using wrote_slog [OF e(4)] te(4) by simp
    show "hn h = sint (get32 ?d 0)" "length (hblock h) = LOGSIZE" by (simp_all add: h_def n_def)
    show "hblock h ! k = unat (get32 ?d (4 + 4 * k))" if "k < nat (hn h)" for k
      using that nle by (simp add: h_def)
  qed
qed

lemma initlog_spec:
  assumes ok: "cache_ok dev {} {} s" and sane: "sane_log lst sz (disk s)"
  obtains s' where "initlog dev lst sz s = Inr s'" "tx_ok {} s'" "logged_list s' = []"
    "dtrace s' = dtrace s @ log_entries lst (disk s) @ [(lst, hdr_done lst (disk s))]"
    "disk s' = apply_writes (log_entries lst (disk s) @ [(lst, hdr_done lst (disk s))]) (disk s)"
    "ldv s' = dev" "lstart (slog s') = lst" "lsize (slog s') = sz" "content s' = disk s'"
proof -
  define t where "t = upd_log (\<lambda>l. l\<lparr>lstart := lst, lsize := sz, ldev := dev\<rparr>) s"
  have te: "bufs t = bufs s" "disk t = disk s" "mypid t = mypid s" "dtrace t = dtrace s" "ldv t = dev" "lstart (slog t) = lst"
    "lsize (slog t) = sz" by (simp_all add: t_def upd_log_def mypid_def myproc_def)
  have t: "cache_ok (ldv t) {} {} t" "sane_log (lstart (slog t)) sz (disk t)"
    using ok sane cache_ok_cong [OF te(1-3)] te(2,5,6) by simp_all
  obtain s1 h where s1: "read_head t = Inr s1" "cache_ok (ldv t) {} {} s1" "blk (ldv t) s1 = disk t" "disk s1 = disk t"
    "dtrace s1 = dtrace t" "slog s1 = (slog t)\<lparr>lh := h\<rparr>" "hn h = sint (get32 (disk t (lstart (slog t))) 0)"
    "length (hblock h) = LOGSIZE"
    "\<And>k. k < nat (hn h) \<Longrightarrow> hblock h ! k = unat (get32 (disk t (lstart (slog t))) (4 + 4 * k))"
    by (rule read_head_spec [OF t]) blast
  define l where "l = slog s1"
  have l: "slog s1 = l" "ldev l = dev" "lstart l = lst" "lsize l = sz" "lh l = h" using s1(6) te by (simp_all add: l_def)
  let ?n = "nat (hn h)" and ?d = "disk s"
  have hn: "hn h = sint (get32 (?d lst) 0)" using s1(7) te(2,6) by simp
  have hm: "home_no l k = unat (get32 (?d lst) (4 + 4 * k))" if "k < ?n" for k
    using s1(9) [OF that] te(2,6) l(5) by (simp add: home_no_def)
  have ks: "log_slot_no l k < FSSIZE \<and> log_slot_no l k \<notin> home_no l ` set [0..<?n] \<and> home_no l k < FSSIZE"
    if "k \<in> set [0..<?n]" for k
  proof -
    have k: "k < ?n" using that by simp
    have sk: "Suc k < sz" using sane k hn unfolding sane_log_def by linarith
    have hj: "home_no l j < FSSIZE" "log_slot_no l k \<noteq> home_no l j" if "j < ?n" for j
    proof -
      have "home_no l j < FSSIZE \<and> \<not> (lst \<le> home_no l j \<and> home_no l j < lst + sz)"
        using sane that hm [OF that] hn by (simp add: sane_log_def Let_def)
      then show "home_no l j < FSSIZE" "log_slot_no l k \<noteq> home_no l j" using sk by (auto simp: log_slot_no_def l(3))
    qed
    have "log_slot_no l k < FSSIZE" using sk sane by (simp add: log_slot_no_def l(3) sane_log_def)
    moreover have "log_slot_no l k \<notin> home_no l ` set [0..<?n]"
    proof
      assume "log_slot_no l k \<in> home_no l ` set [0..<?n]"
      then obtain j where "j < ?n" "log_slot_no l k = home_no l j" by auto
      then show False using hj(2) [of j] by simp
    qed
    ultimately show ?thesis using hj(1) k by simp
  qed
  have em: "map (\<lambda>k. (home_no l k, blk dev s1 (log_slot_no l k))) [0..<?n] = log_entries lst ?d"
    using hm s1(3) te(2,5) by (simp add: log_entries_def hn log_slot_no_def l(3))
  have ok1: "cache_ok (ldev l) {} {} s1" using s1(2) te(5) l(2) by simp
  obtain s2 where s2: "install_trans True s1 = Inr s2" "cache_ok dev {} {} s2"
    "wrote (log_entries lst ?d) s1 s2"
    using install_loop [where ks = "[0..<?n]" and r = True, OF l(1) ok1 _ _ ks] unfolding l(2) em
    by (auto simp: install_trans_def l(1,5) NBUF_def)
  have sl2: "slog s2 = l" using wrote_slog [OF s2(3)] l(1) by simp
  let ?t = "clear_header s2"
  have tl: "slog ?t = l\<lparr>lh := h\<lparr>hn := 0\<rparr>\<rparr>" by (simp add: clear_header_ok sl2 l(5))
  have b2: "blk dev ?t = disk s2" using blk_clean [OF s2(2)] by (auto simp: clear_header_ok)
  have lstd: "disk s2 lst = ?d lst"
  proof -
    have "lst \<notin> fst ` set (log_entries lst ?d)" using sane_entries [OF sane, of lst] sane by (auto simp: sane_log_def)
    then show ?thesis using wroteD(1) [OF s2(3)] s1(4) te(2) by (simp add: apply_writes_other)
  qed
  obtain s3 where s3: "write_head ?t = Inr s3" "cache_ok dev {} {} s3" "wrote [(lst, hdr_done lst ?d)] ?t s3"
    using write_head_spec [of ?t "{}"] s2(2) sane lstd b2 unfolding tl
    by (auto simp: clear_header_ok NBUF_def l sane_log_def hdr_done_def put_header_0)
  have sl3: "slog s3 = l\<lparr>lh := h\<lparr>hn := 0\<rparr>\<rparr>" using wrote_slog [OF s3(3)] tl by simp
  have ll: "logged_list s3 = []" by (simp add: logged_list_def sl3)
  have d3: "disk s3 = apply_writes (log_entries lst ?d @ [(lst, hdr_done lst ?d)]) ?d"
    "dtrace s3 = dtrace s @ log_entries lst ?d @ [(lst, hdr_done lst ?d)]"
    using wroteD(1,2) [OF s3(3)] wroteD(1,2) [OF s2(3)] s1(4,5) te by (simp_all add: clear_header_ok)
  have "length (?d lst) = BSIZE" by (rule cache_okD(5) [OF ok])
  then have g: "get32 (hdr_done lst ?d) 0 = 0" unfolding hdr_done_def put_header_0 by (simp add: get32_put32_same BSIZE_def)
  have "log_inv s3"
    unfolding log_inv_def ll using sane s1(8) g by (simp add: sl3 l d3 sane_log_def)
  then have "tx_ok {} s3" using s3(2) ll by (simp add: tx_ok_def sl3 l)
  moreover have "initlog dev lst sz s = Inr s3"
    using s1(1) s2(1) s3(1) by (simp add: initlog_def recover_from_log_def t_def [symmetric] LOGSIZE_def BSIZE_def)
  moreover have "content s3 = disk s3" using blk_clean [OF s3(2)] by (auto simp: sl3 l)
  ultimately show ?thesis using that ll d3 by (simp add: sl3 l)
qed


section \<open>Stopping at any write\<close>

lemma log_entries_cong:
  assumes "sane_log lst sz d" "\<And>m. lst \<le> m \<Longrightarrow> m < lst + sz \<Longrightarrow> d' m = d m"
  shows "log_entries lst d' = log_entries lst d" "sane_log lst sz d'"
proof -
  have h: "d' lst = d lst" using assms by (simp add: sane_log_def)
  have "d' (lst + k + 1) = d (lst + k + 1)" if "k < nat (sint (get32 (d lst) 0))" for k
  proof -
    have "Suc k < sz" using that assms(1) unfolding sane_log_def by linarith
    then show ?thesis using assms(2) by simp
  qed
  then show "log_entries lst d' = log_entries lst d" by (simp add: log_entries_def h)
  show "sane_log lst sz d'" using assms(1) by (simp add: sane_log_def h)
qed

lemma empty_log:
  assumes "get32 (d lst) 0 = 0" "lst + sz \<le> FSSIZE" "0 < sz"
  shows "log_entries lst d = []" "sane_log lst sz d" "replay lst d = d"
  using assms by (simp_all add: log_entries_def sane_log_def replay_def)

lemma take_writes_subset: "fst ` set (take k ws) \<subseteq> fst ` set ws"
  by (auto dest: in_set_takeD)

lemma recovery_prefix:
  assumes sane: "sane_log lst sz d" and len: "length (d lst) = BSIZE"
    and d'_def: "d' = apply_writes (take k (log_entries lst d @ [(lst, hdr_done lst d)])) d"
  shows "sane_log lst sz d'" "\<not> (lst \<le> n \<and> n < lst + sz) \<Longrightarrow> replay lst d' n = replay lst d n"
proof -
  let ?E = "log_entries lst d"
  have out: "m \<notin> fst ` set ?E" if "lst \<le> m" "m < lst + sz" for m
    using sane_entries(2) [OF sane] that by blast
  have sz: "lst + sz \<le> FSSIZE" "0 < sz" using sane by (simp_all add: sane_log_def)
  have "sane_log lst sz d' \<and> (\<not> (lst \<le> n \<and> n < lst + sz) \<longrightarrow> replay lst d' n = replay lst d n)"
  proof (cases "k \<le> length ?E")
    case True
    then have d': "d' = apply_writes (take k ?E) d" by (simp add: d'_def)
    have same: "d' m = d m" if "lst \<le> m" "m < lst + sz" for m
      unfolding d' by (rule apply_writes_other) (use out [OF that] take_writes_subset [of k ?E] in blast)
    have c: "log_entries lst d' = ?E" "sane_log lst sz d'" by (rule log_entries_cong [OF sane same]; assumption)+
    have "replay lst d' = replay lst d"
      unfolding replay_def c(1) unfolding d' by (rule apply_writes_absorb [OF take_writes_subset])
    then show ?thesis using c(2) by simp
  next
    case False
    then have d': "d' = (apply_writes ?E d)(lst := hdr_done lst d)" by (simp add: d'_def)
    have "get32 (d' lst) 0 = 0"
      unfolding d' hdr_done_def put_header_0 using len by (simp add: get32_put32_same BSIZE_def)
    note c = empty_log [of d' lst sz, OF this sz]
    show ?thesis using c(2,3) sz by (auto simp: d' replay_def)
  qed
  then show "sane_log lst sz d'" "\<not> (lst \<le> n \<and> n < lst + sz) \<Longrightarrow> replay lst d' n = replay lst d n" by auto
qed

text \<open>
  Disks that a number of interrupted recoveries make of a disk: each boots with an empty cache,
  starts \<open>initlog\<close> and stops after some of its writes.
\<close>

inductive interrupted :: "nat \<Rightarrow> nat \<Rightarrow> nat \<Rightarrow> (nat \<Rightarrow> byte list) \<Rightarrow> (nat \<Rightarrow> byte list) \<Rightarrow> bool" where
  none: "interrupted dev lst sz d d"
| again: "interrupted dev lst sz d (disk r) \<Longrightarrow> cache_ok dev {} {} r \<Longrightarrow> initlog dev lst sz (r :: lstate) = Inr r' \<Longrightarrow>
    dtrace r' = dtrace r @ ws \<Longrightarrow> interrupted dev lst sz d (apply_writes (take k ws) (disk r))"

lemma interrupted_replay:
  assumes "interrupted dev lst sz d d'" "sane_log lst sz d"
  shows "sane_log lst sz d' \<and> (\<forall>n. \<not> (lst \<le> n \<and> n < lst + sz) \<longrightarrow> replay lst d' n = replay lst d n)"
  using assms
proof (induction rule: interrupted.induct)
  case (again dev lst sz d r r' ws k)
  then have sane: "sane_log lst sz (disk r)" and len: "length (disk r lst) = BSIZE" by (auto dest: cache_okD(5))
  have "ws = log_entries lst (disk r) @ [(lst, hdr_done lst (disk r))]"
    using initlog_spec [OF again.hyps(2) sane] again.hyps(3,4) by force
  then show ?case using recovery_prefix [OF sane len, of _ k] again.IH again.prems by auto
qed auto

lemma apply_home_writes:
  assumes tx: "tx_ok {} s" and n: "home (slog s) n" and b: "b n = disk s n"
  shows "apply_writes (home_writes s) b n = content s n"
proof -
  let ?l = "slog s" and ?ks = "[0..<length (logged_list s)]"
  have li: "log_inv s" using tx by (simp add: tx_ok_def)
  note m = logged_map [OF li]
  show ?thesis
  proof (cases "n \<in> logged s")
    case True
    then obtain k where k: "k \<in> set ?ks" "n = home_no ?l k" using m by (metis in_set_conv_nth imageE set_map)
    have "distinct (map (home_no ?l) ?ks)" using m log_invD(4) [OF li] by simp
    then show ?thesis unfolding home_writes_def k(2) by (rule apply_writes_map [OF _ k(1)])
  next
    case False
    have "set (map (home_no ?l) ?ks) = logged s" unfolding m by (rule refl)
    then have "fst ` set (home_writes s) = logged s" by (simp add: home_writes_def image_image)
    then have "apply_writes (home_writes s) b n = disk s n" using False b by (simp add: apply_writes_other)
    also have "\<dots> = content s n" using blk_clean [of "ldv s" "logged s" "{}" s n] tx False by (simp add: tx_ok_def)
    finally show ?thesis .
  qed
qed


lemma commit_prefix:
  assumes tx: "tx_ok {} s" and d': "d' = apply_writes (take k (commit_writes s)) (disk s)"
  shows "sane_log (lstart (slog s)) (lsize (slog s)) d'"
    "home (slog s) n \<Longrightarrow> replay (lstart (slog s)) d' n = (if k \<le> length (logged_list s) then disk s n else content s n)"
proof -
  define l where "l = slog s"
  have sl: "slog s = l" by (simp add: l_def)
  let ?lst = "lstart l" and ?sz = "lsize l" and ?n = "length (logged_list s)" and ?A = "log_writes s" and ?C = "home_writes s"
  have li: "log_inv s" and ok: "cache_ok (ldev l) (logged s) {} s" using tx by (simp_all add: tx_ok_def sl)
  note inv = log_invD [OF li, unfolded sl] and ln = logged_nth [OF li, unfolded sl]
  have sz: "?lst + ?sz \<le> FSSIZE" "0 < ?sz" using inv(1,9,10) by auto
  have lA: "length ?A = ?n" "length ?C = ?n" by (simp_all add: log_writes_def home_writes_def)
  have fA: "fst ` set ?A = log_slot_no l ` {0..<?n}" by (simp add: log_writes_def sl image_image)
  have fC: "fst ` set ?C = home_no l ` {0..<?n}" by (simp add: home_writes_def sl image_image)
  have hA: "m \<notin> fst ` set ?A" if "home l m" for m using ln(5) that unfolding fA by auto
  have hl: "home l m \<Longrightarrow> m \<noteq> ?lst" for m using inv(6) by auto
  have la: "?lst \<notin> fst ` set ?A" unfolding fA by (auto simp: log_slot_no_def)
  have fh: "home l m" if "m \<in> fst ` set ?C" for m using ln(3) that unfolding fC by auto
  let ?base = "(apply_writes ?A (disk s))(?lst := hdr_full s)"
  have base: "?base m = disk s m" if "home l m" for m using hA [OF that] hl [OF that] by (simp add: apply_writes_other)
  have lend: "length (disk s ?lst) = BSIZE" by (rule cache_okD(5) [OF ok])
  have hf: "length (hdr_full s) = BSIZE" "get32 (hdr_full s) 0 = of_int (hn (lh l))"
    "\<And>i. i < ?n \<Longrightarrow> get32 (hdr_full s) (4 + 4 * i) = of_nat (home_no l i)"
    using put_header_get [OF lend inv(1,2)] inv(7) by (auto simp: hdr_full_def sl home_no_def)
  have hc: "get32 (hdr_clear s) 0 = 0"
    unfolding hdr_clear_def put_header_0 using hf(1) by (simp add: get32_put32_same BSIZE_def)
  have "sane_log ?lst ?sz d' \<and> (home l n \<longrightarrow> replay ?lst d' n = (if k \<le> ?n then disk s n else content s n))"
  proof -
    consider "k \<le> ?n" | "?n < k" "k \<le> Suc (?n + ?n)" | "Suc (?n + ?n) < k" by linarith
    then show ?thesis
    proof cases
      case 1
      then have e: "d' = apply_writes (take k ?A) (disk s)" using lA by (simp add: d' commit_writes_def)
      have o: "d' m = disk s m" if "m \<notin> fst ` set ?A" for m
        unfolding e by (rule apply_writes_other) (use that take_writes_subset [of k ?A] in blast)
      have "get32 (d' ?lst) 0 = 0" using o [OF la] inv(8) by simp
      note c = empty_log [of d' ?lst ?sz, OF this sz]
      show ?thesis using c(2,3) o hA 1 by auto
    next
      case 2
      define j where "j = k - Suc ?n"
      have "k = Suc (?n + j)" "j \<le> ?n" using 2 by (auto simp: j_def)
      then have e: "d' = apply_writes (take j ?C) ?base" using lA by (simp add: d' commit_writes_def sl)
      have o: "d' m = ?base m" if "\<not> home l m" for m
        unfolding e by (rule apply_writes_other) (use that fh take_writes_subset [of j ?C] in blast)
      have dl: "d' ?lst = hdr_full s" using o [OF inv(6)] by simp
      have sn: "sint (of_int (hn (lh l)) :: u32) = hn (lh l)"
        using inv(1,2) by (simp add: signed_of_int LOGSIZE_def signed_take_bit_int_eq_self)
      have un: "unat (of_nat (home_no l i) :: u32) = home_no l i" if "i < ?n" for i
        using ln(3) [OF that] by (simp add: home_def FSSIZE_def unat_of_nat)
      have nn: "nat (hn (lh l)) = ?n" using inv(7) by simp
      have dk: "d' (?lst + i + 1) = content s (home_no l i)" if "i < ?n" for i
      proof -
        have "d' (log_slot_no l i) = apply_writes ?A (disk s) (log_slot_no l i)"
          using o [OF ln(5) [OF that]] ln(6) [OF that] by simp
        also have "\<dots> = content s (home_no l i)" unfolding log_writes_def sl
          by (rule apply_writes_map) (use that in \<open>simp_all add: distinct_map inj_on_def log_slot_no_def\<close>)
        finally show ?thesis by (simp add: log_slot_no_def)
      qed
      have en: "log_entries ?lst d' = ?C"
        using hf dk un by (simp add: log_entries_def dl sn nn home_writes_def sl)
      have "sane_log ?lst ?sz d'"
        using sz inv(1,2,9) ln(3) un hf(3) by (auto simp: sane_log_def dl hf(2) sn nn home_def Let_def)
      moreover have "replay ?lst d' n = content s n" if "home l n"
      proof -
        have "replay ?lst d' = apply_writes ?C ?base"
          unfolding replay_def en unfolding e by (rule apply_writes_absorb [OF take_writes_subset])
        then show ?thesis using apply_home_writes [OF tx, of n ?base] that base by (simp add: sl)
      qed
      ultimately show ?thesis using 2 by simp
    next
      case 3
      then have e: "d' = (apply_writes ?C ?base)(?lst := hdr_clear s)" using lA by (simp add: d' commit_writes_def sl)
      then have "get32 (d' ?lst) 0 = 0" using hc by simp
      note c = empty_log [of d' ?lst ?sz, OF this sz]
      have "d' n = content s n" if "home l n"
        using apply_home_writes [OF tx, of n ?base] base [OF that] hl [OF that] that by (simp add: sl e)
      then show ?thesis using c(2,3) 3 by simp
    qed
  qed
  then show "sane_log (lstart (slog s)) (lsize (slog s)) d'"
    "home (slog s) n \<Longrightarrow> replay (lstart (slog s)) d' n = (if k \<le> length (logged_list s) then disk s n else content s n)"
    by (auto simp: sl)
qed


text \<open>C1: Transactions survive crashes whole. A commit succeeds and makes the transaction's contents
  the disk's, with an empty log. If the machine stops after any number of the commit's disk
  writes and is restarted, and recovery itself is stopped any number of times after any of
  its writes, then the recovery that completes finds every block outside the log as it was
  before the transaction if the header had not reached the disk, and as the transaction left
  it otherwise.\<close>

theorem commit_crash_atomic:
  assumes "tx_ok {} s" "card (logged s) < NBUF"
  shows "\<exists>s' ws. commit s = Inr s' \<and> dtrace s' = dtrace s @ ws \<and> disk s' = apply_writes ws (disk s) \<and>
    tx_ok {} s' \<and> logged s' = {} \<and> (\<forall>n. home (slog s) n \<longrightarrow> content s' n = content s n) \<and>
    (\<forall>k r. interrupted (ldv s) (lstart (slog s)) (lsize (slog s)) (apply_writes (take k ws) (disk s)) (disk r) \<and>
        cache_ok (ldv s) {} {} r \<longrightarrow>
      (\<exists>r'. initlog (ldv s) (lstart (slog s)) (lsize (slog s)) r = Inr r' \<and> tx_ok {} r' \<and> logged r' = {} \<and>
        (\<forall>n. home (slog s) n \<longrightarrow> content r' n = (if k \<le> card (logged s) then disk s n else content s n))))"
proof -
  define l where "l = slog s"
  have sl: "slog s = l" by (simp add: l_def)
  let ?lst = "lstart l" and ?sz = "lsize l" and ?dev = "ldev l"
  have li: "log_inv s" and ok: "cache_ok ?dev (logged s) {} s" using assms(1) by (simp_all add: tx_ok_def sl)
  note inv = log_invD [OF li, unfolded sl]
  have cl: "card (logged s) = length (logged_list s)" using inv(4) by (rule distinct_card)
  have rec: "\<exists>r'. initlog ?dev ?lst ?sz r = Inr r' \<and> tx_ok {} r' \<and> logged r' = {} \<and>
      (\<forall>n. home l n \<longrightarrow> content r' n = replay ?lst d n)"
    if sd: "sane_log ?lst ?sz d" and it: "interrupted ?dev ?lst ?sz d (disk r)" and ck: "cache_ok ?dev {} {} r" for d r
  proof -
    have sane: "sane_log ?lst ?sz (disk r)"
      and rp: "home l n \<Longrightarrow> replay ?lst (disk r) n = replay ?lst d n" for n
      using interrupted_replay [OF it sd] by (auto simp: home_def)
    obtain r' where r': "initlog ?dev ?lst ?sz r = Inr r'" "tx_ok {} r'" "logged_list r' = []" "content r' = disk r'"
      "disk r' = apply_writes (log_entries ?lst (disk r) @ [(?lst, hdr_done ?lst (disk r))]) (disk r)"
      by (rule initlog_spec [OF ck sane])
    have "content r' n = replay ?lst d n" if "home l n" for n
      using r'(4,5) rp [OF that] inv(6) that by (auto simp: replay_def)
    then show ?thesis using r' by auto
  qed
  show ?thesis
  proof (cases "hn (lh l) > 0")
    case True
    obtain s' where s': "commit s = Inr s'" "disk s' = apply_writes (commit_writes s) (disk s)"
      "dtrace s' = dtrace s @ commit_writes s" "slog s' = l\<lparr>lh := (lh l)\<lparr>hn := 0\<rparr>\<rparr>" "cache_ok ?dev {} {} s'"
      using commit_spec [OF assms(1) _ assms(2)] True unfolding sl by blast
    have ll: "logged_list s' = []" by (simp add: logged_list_def s'(4))
    have k: "disk s' = apply_writes (take (length (commit_writes s)) (commit_writes s)) (disk s)" using s'(2) by simp
    have "get32 (disk s' ?lst) 0 = 0"
    proof -
      have "length (disk s ?lst) = BSIZE" by (rule cache_okD(5) [OF ok])
      then have "length (hdr_full s) = BSIZE" using put_header_get(1) [OF _ inv(1,2)] by (simp add: hdr_full_def sl)
      then show ?thesis using s'(2) by (simp add: commit_writes_def sl hdr_clear_def put_header_0 get32_put32_same BSIZE_def)
    qed
    then have li': "log_inv s'" unfolding log_inv_def ll using inv by (simp add: s'(4))
    have "content s' n = content s n" if "home l n" for n
    proof -
      have "replay ?lst (disk s') n = content s n"
        using commit_prefix(2) [OF assms(1) k, of n] that by (simp add: sl commit_writes_def log_writes_def)
      moreover have "replay ?lst (disk s') = disk s'"
        using empty_log(3) [of "disk s'" ?lst ?sz] \<open>get32 (disk s' ?lst) 0 = 0\<close> inv by simp
      moreover have "content s' n = disk s' n" using blk_clean [OF s'(5)] by (simp add: s'(4))
      ultimately show ?thesis by simp
    qed
    moreover have "\<exists>r'. initlog ?dev ?lst ?sz r = Inr r' \<and> tx_ok {} r' \<and> logged r' = {} \<and>
        (\<forall>n. home l n \<longrightarrow> content r' n = (if k \<le> card (logged s) then disk s n else content s n))"
      if "interrupted ?dev ?lst ?sz (apply_writes (take k (commit_writes s)) (disk s)) (disk r)" "cache_ok ?dev {} {} r" for k r
    proof -
      note cp = commit_prefix [where k = k, OF assms(1) refl, unfolded sl]
      show ?thesis using rec [OF cp(1) that] cp(2) unfolding cl sl by fastforce
    qed
    moreover have "tx_ok {} s'" using s'(5) li' ll by (simp add: tx_ok_def s'(4))
    moreover have "logged s' = {}" using ll by simp
    ultimately show ?thesis using s'(1-3) unfolding sl by (intro exI [of _ s'] exI [of _ "commit_writes s"] conjI) blast+
  next
    case False
    then have ll: "logged_list s = []" using inv(1) by (simp add: logged_list_def sl)
    have c: "commit s = Inr s" using False by (simp add: commit_def sl)
    have cd: "content s n = disk s n" for n using blk_clean [OF ok] ll by (simp add: sl)
    have sz: "?lst + ?sz \<le> FSSIZE" "0 < ?sz" using inv by auto
    note em = empty_log [of "disk s" ?lst ?sz, OF inv(8) sz]
    have "\<exists>r'. initlog ?dev ?lst ?sz r = Inr r' \<and> tx_ok {} r' \<and> logged r' = {} \<and>
        (\<forall>n. home l n \<longrightarrow> content r' n = disk s n)"
      if "interrupted ?dev ?lst ?sz (disk s) (disk r)" "cache_ok ?dev {} {} r" for r
      using rec [OF em(2) that] em(3) by simp
    then show ?thesis using c ll cd assms(1) by (intro exI [of _ s] exI [of _ "[]"]) (simp add: sl, blast)
  qed
qed


lemma apply_writes_length:
  "(\<And>w. w \<in> set ws \<Longrightarrow> length (snd w) = m) \<Longrightarrow> length (d n) = m \<Longrightarrow> length (apply_writes ws d n) = m"
proof (induction ws arbitrary: d)
  case (Cons w ws)
  obtain a b where w: "w = (a, b)" by (cases w)
  have "length b = m" using Cons.prems(1) [of w] w by simp
  then have "length ((d(a := b)) n) = m" using Cons.prems(2) by simp
  then have "length (apply_writes ws (d(a := b)) n) = m" by (intro Cons.IH Cons.prems(1)) simp_all
  then show ?case using w by simp
qed simp

lemma commit_writes_length:
  assumes "tx_ok {} s" "w \<in> set (commit_writes s)"
  shows "length (snd w) = BSIZE"
proof -
  have ok: "cache_ok (ldv s) (logged s) {} s" and li: "log_inv s" using assms(1) by (simp_all add: tx_ok_def)
  have "length (hdr_full s) = BSIZE"
    unfolding hdr_full_def by (rule put_header_get(1) [OF cache_okD(5) [OF ok] log_invD(1,2) [OF li]])
  moreover then have "length (hdr_clear s) = BSIZE" by (simp add: hdr_clear_def put_header_0 BSIZE_def)
  ultimately show ?thesis using assms(2) length_blk [OF ok]
    by (auto simp: commit_writes_def log_writes_def home_writes_def)
qed

text \<open>A machine that has just initialised its cache over a disk.\<close>

definition boot_disk :: "(nat \<Rightarrow> byte list) \<Rightarrow> lstate" where
  "boot_disk d = binit (zero_lstate\<lparr>disk := d\<rparr>)"

lemma boot_disk_ok:
  assumes "\<And>n. length (d n) = BSIZE" "dev \<noteq> 0"
  shows "cache_ok dev {} {} (boot_disk d)" "disk (boot_disk d) = d"
proof -
  have z: "bufs zero_lstate = replicate (Suc NBUF) zero_buf"
    by (simp add: zero_lstate_def zero_bstate_def zero_cstate_def zero_ustate_def zero_pstate_def lstate.defs bstate.defs
        cstate.defs ustate.defs pstate.defs del: replicate_Suc)
  show "cache_ok dev {} {} (boot_disk d)" unfolding boot_disk_def
    by (rule boot_cache_ok) (use assms in \<open>simp_all add: z zero_buf_def del: replicate_Suc\<close>)
  show "disk (boot_disk d) = d" by (simp add: boot_disk_def binit_def Let_def)
qed

text \<open>A transaction on an empty file system image: block 50 is filled with sevens.\<close>

lemma sample_transaction:
  "\<exists>s::lstate. tx_ok {} s \<and> logged s = {50} \<and> slog s = (slog s)\<lparr>lstart := 2, lsize := 30, ldev := 1\<rparr> \<and>
     content s 50 = replicate BSIZE 7 \<and> disk s = (\<lambda>_. replicate BSIZE 0)"
proof -
  define s where "s = (boot_disk (\<lambda>_. replicate BSIZE 0))\<lparr>slog := \<lparr>lstart = 2, lsize = 30, outstanding = 1,
    committing = False, ldev = 1, lh = \<lparr>hn = 0, hblock = replicate LOGSIZE 0\<rparr>\<rparr>\<rparr>"
  have b: "cache_ok 1 {} {} (boot_disk (\<lambda>_. replicate BSIZE 0))" by (rule boot_disk_ok) simp_all
  have e: "bufs s = bufs (boot_disk (\<lambda>_. replicate BSIZE 0))" "disk s = disk (boot_disk (\<lambda>_. replicate BSIZE 0))"
    "mypid s = mypid (boot_disk (\<lambda>_. replicate BSIZE 0))" by (simp_all add: s_def mypid_def myproc_def)
  have d: "disk s = (\<lambda>_. replicate BSIZE 0)" using e(2) boot_disk_ok(2) [of "\<lambda>_. replicate BSIZE 0" 1] by simp
  have ll: "logged_list s = []" by (simp add: logged_list_def s_def)
  have "get32 (replicate BSIZE 0) 0 = 0" by (simp add: get32_def slice_def BSIZE_def numeral_eq_Suc)
  then have "log_inv s" unfolding log_inv_def ll d by (simp add: s_def LOGSIZE_def FSSIZE_def)
  then have tx: "tx_ok {} s" using b cache_ok_cong [OF e] ll by (simp add: tx_ok_def s_def)
  have h: "home (slog s) 50" "room s 1" by (simp_all add: s_def home_def room_def logged_list_def FSSIZE_def LOGSIZE_def)
  have c: "50 \<in> logged s \<or> card (logged s \<union> {}) < NBUF" by (simp add: ll NBUF_def)
  obtain s' where s': "tx_ok {} s'" "content s' = (content s)(50 := replicate BSIZE 7)" "tx_frame s s'" "logged s' = insert 50 (logged s)"
    by (rule tx_rmw [OF tx _ h(1) c h(2), of "\<lambda>_. replicate BSIZE 7"]) simp_all
  show ?thesis using s' tx_frameD [OF s'(3)] ll d by (intro exI [of _ s']) (simp add: s_def)
qed

theorem commit_crash_atomic_witness:
  "\<exists>s s' ws :: (nat \<times> byte list) list. \<exists>r r' :: lstate. tx_ok {} (s :: lstate) \<and> logged s = {50} \<and> commit s = Inr s' \<and> dtrace s' = dtrace s @ ws \<and>
     initlog 1 2 30 (boot_disk (apply_writes (take 1 ws) (disk s))) = Inr r \<and> content r 50 = replicate BSIZE 0 \<and>
     initlog 1 2 30 (boot_disk (apply_writes (take 2 ws) (disk s))) = Inr r' \<and> content r' 50 = replicate BSIZE 7"
proof -
  obtain s :: lstate where s: "tx_ok {} s" "logged s = {50}" "slog s = (slog s)\<lparr>lstart := 2, lsize := 30, ldev := 1\<rparr>"
    "content s 50 = replicate BSIZE 7" "disk s = (\<lambda>_. replicate BSIZE 0)" using sample_transaction by blast
  have l: "lstart (slog s) = 2" "lsize (slog s) = 30" "ldv s = 1" by (subst s(3), simp)+
  have h: "home (slog s) 50" using s(1,2) by (auto simp: tx_ok_def log_inv_def Let_def)
  have n: "card (logged s) < NBUF" "card (logged s) = 1" using s(2) by (simp_all add: NBUF_def)
  from commit_crash_atomic [OF s(1) n(1)] obtain s' ws where c: "commit s = Inr s'" "dtrace s' = dtrace s @ ws"
    and r: "\<forall>k r :: lstate. interrupted 1 2 30 (apply_writes (take k ws) (disk s)) (disk r) \<and> cache_ok 1 {} {} r \<longrightarrow>
      (\<exists>r'. initlog 1 2 30 r = Inr r' \<and> tx_ok {} r' \<and> logged r' = {} \<and>
        (\<forall>n. home (slog s) n \<longrightarrow> content r' n = (if k \<le> 1 then disk s n else content s n)))"
    unfolding l n(2) by blast
  have "0 < hn (lh (slog s))" using s(1) n(2) card_logged [of s] by (simp add: tx_ok_def)
  then have ws: "ws = commit_writes s" using commit_spec [OF s(1) _ n(1)] c by fastforce
  define d where "d = (\<lambda>k. apply_writes (take k ws) (disk s))"
  have "length (d k m) = BSIZE" for k m unfolding d_def
    by (rule apply_writes_length) (use commit_writes_length [OF s(1)] s(5) in \<open>auto simp: ws dest: in_set_takeD\<close>)
  then have b: "cache_ok 1 {} {} (boot_disk (d k))" "disk (boot_disk (d k)) = d k" for k
    using boot_disk_ok [of "d k" 1] by simp_all
  have x: "\<exists>r'. initlog 1 2 30 (boot_disk (d k)) = Inr r' \<and> content r' 50 = (if k \<le> 1 then disk s 50 else content s 50)" for k
    using r [rule_format, of k "boot_disk (d k)"] b [of k] h interrupted.none [of 1 2 30 "d k"] by (auto simp: d_def)
  show ?thesis using x [of 1] x [of 2] c s(1,2,4,5) unfolding d_def by auto
qed

end
