(* ===== verification/LogReserve.thy ===== *)
theory LogReserve
  imports LogView
begin

text \<open>
  The admission test of \<open>begin_op\<close>: operations that log at most \<open>MAXOPBLOCKS\<close> different blocks each
  never overfill the log header, and what happens at the last block of a log as large as \<open>mkfs\<close>
  makes it.
\<close>

text \<open>
  Runs of the log as concurrent operations use it. \<open>us\<close> lists, for each operation between its
  \<open>begin_op\<close> and its \<open>end_op\<close>, the set of blocks it has logged. An operation may log a block again
  any number of times, and a new one as long as it has logged fewer than \<open>MAXOPBLOCKS\<close>. Whatever
  else the kernel does between the steps leaves the log structure alone.
\<close>

definition may_log :: "nat \<Rightarrow> nat set \<Rightarrow> bool" where
  "may_log n B \<longleftrightarrow> n \<in> B \<or> card B < MAXOPBLOCKS"

inductive log_use :: "nat set list \<Rightarrow> 'a lstate_scheme \<Rightarrow> bool" where
  start: "hn (lh (slog s)) = 0 \<Longrightarrow> length (hblock (lh (slog s))) = LOGSIZE \<Longrightarrow> outstanding (slog s) = 0 \<Longrightarrow>
    \<not> committing (slog s) \<Longrightarrow> log_use [] s"
| begin_op: "log_use us s \<Longrightarrow> begin_op s = Inr s' \<Longrightarrow> log_use ({} # us) s'"
| log_write: "log_use us s \<Longrightarrow> i < length us \<Longrightarrow> may_log (bblockno (bufs s ! b)) (us ! i) \<Longrightarrow> log_write b s = Inr s' \<Longrightarrow>
    log_use (us[i := insert (bblockno (bufs s ! b)) (us ! i)]) s'"
| end_op: "log_use us s \<Longrightarrow> us = vs @ u # ws \<Longrightarrow> end_op_enter s = Inr (False, s') \<Longrightarrow> log_use (vs @ ws) s'"
| commit: "log_use us s \<Longrightarrow> end_op_enter s = Inr (True, t) \<Longrightarrow> commit t = Inr t' \<Longrightarrow> log_use [] (end_op_leave t')"
| other: "log_use us s \<Longrightarrow> slog s' = slog s \<Longrightarrow> log_use us s'"

text \<open>The blocks in the header, and how many more the outstanding operations may add.\<close>

definition header_blocks :: "log \<Rightarrow> nat list" where
  "header_blocks l = take (nat (hn (lh l))) (hblock (lh l))"

definition reserved :: "nat set list \<Rightarrow> nat" where
  "reserved us = sum_list (map (\<lambda>B. MAXOPBLOCKS - card B) us)"

text \<open>The cache operations leave the log structure alone, and a commit empties it.\<close>

lemma slog_upd_buf [simp]: "slog (upd_buf b f s) = slog s"
  by (simp add: upd_buf_def)

lemma slog_wakeup [simp]: "slog (wakeup c s) = slog s"
  by (simp add: wakeup_def)

lemma slog_bget: "bget dev n s = Inr (b, s') \<Longrightarrow> slog s' = slog s"
proof -
  assume "bget dev n s = Inr (b, s')"
  then obtain f where "block_acquire b (upd_buf b f s) = Inr s'"
    unfolding bget_def Let_def kbind_eq_Inr
    by (force simp: kbind_eq_Inr simp del: bscan_cached.simps bscan_unused.simps split: option.splits)
  then show ?thesis by (simp add: block_acquire_Inr)
qed

lemma slog_ramdiskrw: "ramdiskrw b w s = Inr s' \<Longrightarrow> slog s' = slog s"
  by (auto simp: ramdiskrw_def Let_def split: if_splits)

lemma slog_bread: "bread dev n s = Inr (b, s') \<Longrightarrow> slog s' = slog s"
  by (auto simp: bread_def kbind_eq_Inr dest!: slog_bget slog_ramdiskrw split: if_splits)

lemma slog_bwrite: "bwrite b s = Inr s' \<Longrightarrow> slog s' = slog s"
  by (auto simp: bwrite_def dest!: slog_ramdiskrw split: if_splits)

lemma slog_brelse: "brelse b s = Inr s' \<Longrightarrow> slog s' = slog s"
  by (auto simp: brelse_def releasesleep_def Let_def split: if_splits)

lemmas slog_ops = slog_bread slog_bwrite slog_brelse

lemma slog_kfor:
  assumes "\<And>i s s'. body i s = Inr s' \<Longrightarrow> slog s' = slog s" "kfor body is s = Inr s'"
  shows "slog s' = slog s"
  using assms(2)
proof (induction "is" arbitrary: s)
  case (Cons i "is")
  then obtain t where "body i s = Inr t" "kfor body is t = Inr s'" by (auto simp: kbind_eq_Inr)
  then show ?case using Cons.IH assms(1) by metis
qed simp

lemma slog_write_log: "write_log s = Inr s' \<Longrightarrow> slog s' = slog s"
  unfolding write_log_def
  by (erule slog_kfor [rotated])
    (auto simp: write_log_one_def kbind_eq_Inr set_data_def dest!: slog_ops)

lemma slog_install_trans: "install_trans r s = Inr s' \<Longrightarrow> slog s' = slog s"
  unfolding install_trans_def
  by (erule slog_kfor [rotated])
    (auto simp: install_one_def kbind_eq_Inr set_data_def bunpin_def dest!: slog_ops split: if_splits)

lemma slog_write_head: "write_head s = Inr s' \<Longrightarrow> slog s' = slog s"
  by (auto simp: write_head_def kbind_eq_Inr set_data_def dest!: slog_ops)

lemma slog_commit:
  "commit s = Inr s' \<Longrightarrow> slog s' = (if hn (lh (slog s)) > 0 then (slog s)\<lparr>lh := (lh (slog s))\<lparr>hn := 0\<rparr>\<rparr> else slog s)"
  by (auto simp: commit_def kbind_eq_Inr clear_header_def upd_log_def
      dest!: slog_write_log slog_write_head slog_install_trans split: if_splits)

lemma reserved_update:
  assumes "i < length us" "card B = Suc (card (us ! i))" "card B \<le> MAXOPBLOCKS"
  shows "Suc (reserved (us[i := B])) = reserved us"
proof -
  let ?f = "\<lambda>B. MAXOPBLOCKS - card B"
  have "?f (us ! i) \<le> sum_list (map ?f us)" using assms(1) by (intro member_le_sum_list) auto
  then show ?thesis using assms sum_list_update [of i "map ?f us" "?f B"] by (simp add: reserved_def map_update)
qed

lemma reserved_le: "reserved us \<le> length us * MAXOPBLOCKS"
  by (induction us) (auto simp: reserved_def)

text \<open>What \<open>log_write\<close> does to the header: a block that is there is absorbed, another one appended.\<close>

lemma log_write_header:
  assumes "log_write b s = Inr s'" "0 \<le> hn (lh (slog s))" "length (hblock (lh (slog s))) = LOGSIZE"
  shows "set (header_blocks (slog s')) = insert (bblockno (bufs s ! b)) (set (header_blocks (slog s)))"
    "hn (lh (slog s')) = hn (lh (slog s)) + (if bblockno (bufs s ! b) \<in> set (header_blocks (slog s)) then 0 else 1)"
    "length (hblock (lh (slog s'))) = LOGSIZE" "outstanding (slog s') = outstanding (slog s)"
    "committing (slog s') = committing (slog s)"
proof -
  let ?h = "lh (slog s)" and ?n = "bblockno (bufs s ! b)"
  define xs where "xs = header_blocks (slog s)"
  define k where "k = log_slot ?n xs 0"
  have lt: "hn ?h < int LOGSIZE" using assms(1) by (auto simp: log_write_def Let_def split: if_splits)
  have len: "length xs = nat (hn ?h)" "nat (hn ?h) < length (hblock ?h)" using assms(2,3) lt by (simp_all add: xs_def header_blocks_def)
  have k: "if ?n \<in> set xs then k < length xs \<and> xs ! k = ?n else k = length xs"
    using log_slot_spec [of ?n xs 0] by (auto simp: k_def split: if_splits)
  have new: "int k = hn ?h \<longleftrightarrow> ?n \<notin> set xs" using k len assms(2) by (auto split: if_splits)
  have s': "slog s' = (slog s)\<lparr>lh := (lh (slog s))\<lparr>hblock := (hblock ?h)[k := ?n],
      hn := hn ?h + (if ?n \<in> set xs then 0 else 1)\<rparr>\<rparr>"
    using assms(1) new
    by (auto simp: log_write_def Let_def upd_log_def bpin_def upd_buf_def k_def xs_def header_blocks_def split: if_splits)
  show "hn (lh (slog s')) = hn ?h + (if ?n \<in> set (header_blocks (slog s)) then 0 else 1)"
    "length (hblock (lh (slog s'))) = LOGSIZE" "outstanding (slog s') = outstanding (slog s)"
    "committing (slog s') = committing (slog s)"
    using assms(3) by (simp_all add: s' xs_def)
  show "set (header_blocks (slog s')) = insert ?n (set (header_blocks (slog s)))"
  proof (cases "?n \<in> set xs")
    case True
    then have "(hblock ?h)[k := ?n] = hblock ?h" using k len by (auto simp: xs_def header_blocks_def list_update_same_conv)
    then show ?thesis using True by (auto simp: s' xs_def header_blocks_def)
  next
    case False
    then have "k = nat (hn ?h)" "nat (hn ?h + 1) = Suc k" using k len assms(2) by auto
    then show ?thesis using False len by (auto simp: s' xs_def header_blocks_def take_Suc_conv_app_nth)
  qed
qed

text \<open>What is logged and what may still be logged fit into the header, and what an operation has logged is in it.\<close>

definition log_fits :: "nat set list \<Rightarrow> log \<Rightarrow> bool" where
  "log_fits us l \<longleftrightarrow> 0 \<le> hn (lh l) \<and> hn (lh l) + int (reserved us) \<le> int LOGSIZE \<and> outstanding l = int (length us) \<and>
     length (hblock (lh l)) = LOGSIZE \<and> \<not> committing l \<and>
     (\<forall>B\<in>set us. finite B \<and> card B \<le> MAXOPBLOCKS \<and> B \<subseteq> set (header_blocks l))"

lemma log_fits_write:
  assumes fits: "log_fits us (slog s)" and i: "i < length us" and m: "may_log (bblockno (bufs s ! b)) (us ! i)"
    and w: "log_write b s = Inr s'"
  shows "log_fits (us[i := insert (bblockno (bufs s ! b)) (us ! i)]) (slog s')"
proof -
  let ?n = "bblockno (bufs s ! b)"
  let ?us = "us[i := insert ?n (us ! i)]"
  have f: "0 \<le> hn (lh (slog s))" "hn (lh (slog s)) + int (reserved us) \<le> int LOGSIZE" "outstanding (slog s) = int (length us)"
    "length (hblock (lh (slog s))) = LOGSIZE" "\<not> committing (slog s)"
    "\<And>B. B \<in> set us \<Longrightarrow> finite B \<and> card B \<le> MAXOPBLOCKS \<and> B \<subseteq> set (header_blocks (slog s))"
    using fits by (auto simp: log_fits_def)
  note h = log_write_header [OF w f(1,4)]
  note B = f(6) [OF nth_mem [OF i]]
  have c: "card (insert ?n (us ! i)) \<le> MAXOPBLOCKS" using B m by (auto simp: may_log_def card_insert_if)
  have sum: "hn (lh (slog s')) + int (reserved ?us) \<le> int LOGSIZE"
  proof (cases "?n \<in> us ! i")
    case True
    then have "?us = us" "?n \<in> set (header_blocks (slog s))" using B by (auto simp: insert_absorb)
    then show ?thesis using f(2) h(2) by simp
  next
    case False
    then have "Suc (reserved ?us) = reserved us" using c B by (intro reserved_update [OF i]) simp_all
    then show ?thesis using f(2) h(2) by (simp split: if_splits)
  qed
  have "finite C \<and> card C \<le> MAXOPBLOCKS \<and> C \<subseteq> set (header_blocks (slog s'))" if "C \<in> set ?us" for C
  proof -
    have "C = insert ?n (us ! i) \<or> C \<in> set us" using that set_update_subset_insert [of us i] by blast
    then show ?thesis using f(6) [of C] B c h(1) by auto
  qed
  then show ?thesis using sum f h unfolding log_fits_def by auto
qed

lemma log_use_inv: "log_use us s \<Longrightarrow> log_fits us (slog s)"
proof (induction rule: log_use.induct)
  case (start s)
  then show ?case by (simp add: log_fits_def reserved_def)
next
  case (begin_op us s s')
  have s': "slog s' = (slog s)\<lparr>outstanding := outstanding (slog s) + 1\<rparr>"
    "hn (lh (slog s)) + (outstanding (slog s) + 1) * int MAXOPBLOCKS \<le> int LOGSIZE"
    using begin_op.hyps(2) by (auto simp: begin_op_def upd_log_def split: if_splits)
  have "int (reserved ({} # us)) \<le> int (Suc (length us)) * int MAXOPBLOCKS"
    using reserved_le [of "{} # us"] by (metis length_Cons of_nat_le_iff of_nat_mult)
  then show ?case using begin_op.IH s' by (auto simp: log_fits_def header_blocks_def algebra_simps)
next
  case (log_write us s i b s')
  then show ?case by (intro log_fits_write)
next
  case (end_op us s vs u ws s')
  have "slog s' = (slog s)\<lparr>outstanding := outstanding (slog s) - 1\<rparr>"
    using end_op.hyps(3) by (auto simp: end_op_enter_def upd_log_def wakeup_def Let_def split: if_splits)
  then show ?case using end_op.IH end_op.hyps(2) by (auto simp: log_fits_def header_blocks_def reserved_def)
next
  case (commit us s t t')
  have "outstanding (slog t) = 0" "lh (slog t) = lh (slog s)"
    using commit.hyps(2) by (auto simp: end_op_enter_def upd_log_def Let_def split: if_splits)
  then show ?case using slog_commit [OF commit.hyps(3)] commit.IH
    by (auto simp: log_fits_def reserved_def end_op_leave_def upd_log_def split: if_splits)
qed simp



text \<open>A log of \<open>LOGSIZE\<close> blocks, the size \<open>mkfs\<close> gives it, with \<open>k\<close> operations admitted and nothing logged.\<close>

definition admitted :: "int \<Rightarrow> lstate" where
  "admitted k = zero_lstate\<lparr>slog := \<lparr>lstart = 2, lsize = LOGSIZE, outstanding = k, committing = False, ldev = 1,
    lh = \<lparr>hn = 0, hblock = replicate LOGSIZE 0\<rparr>\<rparr>\<rparr>"

text \<open>The first \<open>n\<close> blocks logged by three operations, ten each.\<close>

definition shares :: "nat \<Rightarrow> nat set list" where
  "shares n = [{20..<n}, {10..<min n 20}, {0..<min n 10}]"

lemma admitted_three: "log_use (shares 0) (admitted 3)"
proof -
  have b: "begin_op (admitted 0) = Inr (admitted 1)" "begin_op (admitted 1) = Inr (admitted 2)"
    "begin_op (admitted 2) = Inr (admitted 3)"
    by (simp_all add: admitted_def begin_op_def upd_log_def MAXOPBLOCKS_def LOGSIZE_def)
  have "log_use [] (admitted 0)" by (rule log_use.start) (simp_all add: admitted_def)
  from log_use.begin_op [OF log_use.begin_op [OF log_use.begin_op [OF this b(1)] b(2)] b(3)]
  show ?thesis by (simp add: shares_def)
qed

lemma shares_step:
  assumes "log_use (shares n) (s :: lstate)" "header_blocks (slog s) = [0..<n]" "hn (lh (slog s)) = int n"
    "lsize (slog s) = LOGSIZE" "outstanding (slog s) = 3" "n < 29"
  obtains s' :: lstate where "log_use (shares (Suc n)) s'" "header_blocks (slog s') = [0..<Suc n]"
    "hn (lh (slog s')) = int (Suc n)" "lsize (slog s') = LOGSIZE" "outstanding (slog s') = 3"
proof -
  define v where "v = s\<lparr>bufs := [zero_buf\<lparr>bblockno := n\<rparr>]\<rparr>"
  have v: "log_use (shares n) v" "bblockno (bufs v ! 0) = n" "slog v = slog s"
    by (simp_all add: v_def log_use.other [OF assms(1)])
  have len: "length (hblock (lh (slog s))) = LOGSIZE" using log_use_inv [OF assms(1)] by (simp add: log_fits_def)
  have "log_slot n [0..<n] 0 = n" using log_slot_spec [of n "[0..<n]" 0] by simp
  define s' where "s' = upd_log (\<lambda>l. l\<lparr>lh := (lh l)\<lparr>hn := hn (lh l) + 1\<rparr>\<rparr>)
    (bpin 0 (upd_log (\<lambda>l. l\<lparr>lh := (lh l)\<lparr>hblock := (hblock (lh l))[n := n]\<rparr>\<rparr>) v))"
  have lw: "log_write 0 v = Inr s'"
    using assms(2-6) \<open>log_slot n [0..<n] 0 = n\<close>
    by (simp add: log_write_def v(2,3) header_blocks_def LOGSIZE_def Let_def s'_def)
  have s': "slog s' = (slog s)\<lparr>lh := (lh (slog s))\<lparr>hblock := (hblock (lh (slog s)))[n := n], hn := hn (lh (slog s)) + 1\<rparr>\<rparr>"
    by (simp add: s'_def upd_log_def bpin_def upd_buf_def v(3))
  define i :: nat where "i = (if n < 10 then 2 else if n < 20 then 1 else 0)"
  have i: "i < length (shares n)" "may_log n (shares n ! i)" "(shares n)[i := insert n (shares n ! i)] = shares (Suc n)"
    using assms(6) by (auto simp: i_def shares_def may_log_def MAXOPBLOCKS_def)
  have "log_use (shares (Suc n)) s'" using log_use.log_write [OF v(1) i(1) _ lw] i(2,3) v(2) by simp
  moreover have "header_blocks (slog s') = [0..<Suc n]"
    using assms(2,3,6) len by (simp add: s' header_blocks_def nat_add_distrib take_Suc_conv_app_nth LOGSIZE_def)
  ultimately show ?thesis using that [of s'] assms(3-5) by (simp add: s')
qed

text \<open>C20: A log of \<open>LOGSIZE\<close> blocks, the size \<open>mkfs\<close> gives it, is one block too small for the
  reservation: there is a run of three admitted operations, which have logged nine, ten and ten
  blocks and so are within their ten blocks each, in which the next call of \<open>log_write\<close> panics the
  kernel, whatever the block.\<close>

theorem full_reservation_panics:
  "\<exists>us s :: lstate. log_use us s \<and> map card us = [9, 10, 10] \<and> lsize (slog s) = LOGSIZE \<and> outstanding (slog s) = 3 \<and>
     log_write b s = Inl (Panic ''too big a transaction'')"
proof -
  have "\<exists>s :: lstate. log_use (shares n) s \<and> header_blocks (slog s) = [0..<n] \<and> hn (lh (slog s)) = int n \<and>
      lsize (slog s) = LOGSIZE \<and> outstanding (slog s) = 3" if "n \<le> 29" for n
    using that
  proof (induction n)
    case 0
    then show ?case using admitted_three by (intro exI [of _ "admitted 3"]) (simp add: admitted_def header_blocks_def)
  next
    case (Suc n)
    then obtain s :: lstate where "log_use (shares n) s" "header_blocks (slog s) = [0..<n]" "hn (lh (slog s)) = int n"
      "lsize (slog s) = LOGSIZE" "outstanding (slog s) = 3" by auto
    then show ?case using Suc.prems by (rule_tac shares_step [of n s]) auto
  qed
  from this [of 29] obtain s :: lstate where s: "log_use (shares 29) s" "hn (lh (slog s)) = 29" "lsize (slog s) = LOGSIZE"
    "outstanding (slog s) = 3" by auto
  have "log_write b s = Inl (Panic ''too big a transaction'')" using s by (simp add: log_write_def LOGSIZE_def)
  then show ?thesis using s by (intro exI [of _ "shares 29"] exI [of _ s]) (simp add: shares_def)
qed

end
