(* ===== verification/FsBlocks.thy ===== *)
theory FsBlocks
  imports Fs LogView
begin

text \<open>
  Block allocation (\<open>bzero\<close>, \<open>balloc\<close>, \<open>bfree\<close> of \<open>kernel/fs.c\<close>) over the block contents of
  \<open>LogView\<close>: the bitmap is the set of used blocks, \<open>balloc\<close> takes the least free one and zeroes
  it, and \<open>bfree\<close> gives one back. \<open>fits s A k\<close> bounds the transaction: it has room for the blocks
  \<open>A\<close> and \<open>k\<close> more.
\<close>

section \<open>Room in a transaction\<close>

definition fits :: "'a lstate_scheme \<Rightarrow> nat set \<Rightarrow> nat \<Rightarrow> bool" where
  "fits s A k \<longleftrightarrow> finite A \<and> card (logged s \<union> A) + k + 2 \<le> NBUF \<and> card (logged s \<union> A) + k + 2 \<le> lsize (slog s) \<and>
     1 \<le> outstanding (slog s)"

lemma fits_card: "fits s A k \<Longrightarrow> card (logged s) + k + 2 \<le> NBUF \<and> card (logged s) + k + 2 \<le> lsize (slog s)"
  using card_mono [of "logged s \<union> A" "logged s"] by (auto simp: fits_def)

lemma fits_room: "fits s A k \<Longrightarrow> room s 1"
  using fits_card [of s A k] by (auto simp: fits_def room_def NBUF_def LOGSIZE_def)

lemma fits_bufs:
  assumes "fits s A k" "finite H" "card H \<le> 1"
  shows "card (logged s \<union> H) < NBUF"
  using fits_card [OF assms(1)] card_Un_le [of "logged s" H] assms(3) by simp

lemma fits_cong: "tx_frame s s' \<Longrightarrow> logged s' = logged s \<Longrightarrow> fits s' A k = fits s A k"
  by (simp add: fits_def tx_frameD)

lemma fits_slog: "slog s' = slog s \<Longrightarrow> fits s' A k = fits s A k"
  by (simp add: fits_def logged_list_def)

lemma fits_insert:
  assumes "fits s A k" "tx_frame s s'" "logged s' = insert n (logged s)" "n \<in> logged s \<union> A \<and> j = k \<or> k = Suc j"
  shows "fits s' A j"
proof -
  have f: "finite (logged s \<union> A)" using assms(1) by (simp add: fits_def)
  have "card (logged s' \<union> A) + j \<le> card (logged s \<union> A) + k"
  proof (cases "n \<in> logged s \<union> A")
    case True
    then have "logged s' \<union> A = logged s \<union> A" using assms(3) by auto
    then show ?thesis using assms(4) by auto
  next
    case False
    then have "k = Suc j" "logged s' \<union> A = insert n (logged s \<union> A)" using assms(3,4) by auto
    then show ?thesis using card_insert_if [OF f, of n] by (simp split: if_splits)
  qed
  then show ?thesis using assms(1) tx_frameD [OF assms(2)] by (auto simp: fits_def)
qed

lemma fits_mono: "fits s A k \<Longrightarrow> j \<le> k \<Longrightarrow> fits s A j"
  by (auto simp: fits_def)

text \<open>A read-modify-write of one block inside a transaction with room.\<close>

lemma tx_rmw_fits:
  assumes tx: "tx_ok H s" and n: "n \<notin> H" "home (slog s) n" and ft: "fits s A k" "n \<in> logged s \<union> A \<and> j = k \<or> k = Suc j"
    and H: "finite H" "card H \<le> 1" and f: "length (f (content s n)) = BSIZE"
  obtains s' where "kbind (bread (ldv s) n s) (\<lambda>(b, s).
      kbind (log_write b (set_data b (f (bdata (bufs s ! b))) s)) (\<lambda>s. brelse b s)) = Inr s'"
    "tx_ok H s'" "content s' = (content s)(n := f (content s n))" "tx_frame s s'" "logged s' = insert n (logged s)"
    "keeps (ldv s) H s s'" "fits s' A j"
proof -
  have c: "n \<in> logged s \<or> card (logged s \<union> H) < NBUF" using fits_bufs [OF ft(1) H] by simp
  obtain s' where s': "kbind (bread (ldv s) n s) (\<lambda>(b, s).
      kbind (log_write b (set_data b (f (bdata (bufs s ! b))) s)) (\<lambda>s. brelse b s)) = Inr s'"
    "tx_ok H s'" "content s' = (content s)(n := f (content s n))" "tx_frame s s'" "logged s' = insert n (logged s)"
    "keeps (ldv s) H s s'" by (rule tx_rmw [where f = f, OF tx n c fits_room [OF ft(1)] f])
  show ?thesis by (rule that [OF s' fits_insert [OF ft(1) s'(4,5) ft(2)]])
qed

section \<open>Bitmap blocks\<close>

definition bmbit :: "byte list \<Rightarrow> nat \<Rightarrow> bool" where
  "bmbit d x \<longleftrightarrow> bit (d ! (x div 8)) (x mod 8)"

lemma mask_test: "(w AND bit_mask x = 0) \<longleftrightarrow> \<not> bit w (x mod 8)"
proof
  assume "w AND bit_mask x = 0"
  then have "\<not> bit (w AND bit_mask x) (x mod 8)" by simp
  then show "\<not> bit w (x mod 8)" by (auto simp: bit_simps bit_mask_def)
next
  assume "\<not> bit w (x mod 8)"
  then show "w AND bit_mask x = 0" by (intro bit_word_eqI) (auto simp: bit_simps bit_mask_def)
qed

lemma bmbit_set:
  assumes "b < 8 * length d" "x < 8 * length d"
  shows "bmbit (set_bit_in b d) x \<longleftrightarrow> x = b \<or> bmbit d x"
proof (cases "x div 8 = b div 8")
  case True
  then have "x = b \<longleftrightarrow> x mod 8 = b mod 8" by (metis div_mod_decomp_int div_mult_mod_eq)
  moreover have "b div 8 < length d" using assms by (simp add: less_mult_imp_div_less mult.commute)
  ultimately show ?thesis using True by (auto simp: bmbit_def set_bit_in_def bit_simps bit_mask_def)
next
  case False
  then show ?thesis by (auto simp: bmbit_def set_bit_in_def)
qed

lemma bmbit_clear:
  assumes "b < 8 * length d" "x < 8 * length d"
  shows "bmbit (clear_bit_in b d) x \<longleftrightarrow> x \<noteq> b \<and> bmbit d x"
proof (cases "x div 8 = b div 8")
  case True
  then have "x = b \<longleftrightarrow> x mod 8 = b mod 8" by (metis div_mod_decomp_int div_mult_mod_eq)
  moreover have "b div 8 < length d" using assms by (simp add: less_mult_imp_div_less mult.commute)
  ultimately show ?thesis using True by (auto simp: bmbit_def clear_bit_in_def bit_simps bit_mask_def)
next
  case False
  then show ?thesis by (auto simp: bmbit_def clear_bit_in_def)
qed

lemma first_clear_spec:
  "case first_clear d bi k of
     Some j \<Rightarrow> bi \<le> j \<and> j < bi + k \<and> \<not> bmbit d j \<and> (\<forall>i. bi \<le> i \<and> i < j \<longrightarrow> bmbit d i)
   | None \<Rightarrow> \<forall>i. bi \<le> i \<and> i < bi + k \<longrightarrow> bmbit d i"
proof (induction d bi k rule: first_clear.induct)
  case (2 d bi k)
  show ?case
  proof (cases "bmbit d bi")
    case True
    then have e: "first_clear d bi (Suc k) = first_clear d (Suc bi) k" "\<not> (d ! (bi div 8)) AND bit_mask bi = 0"
      by (simp_all add: mask_test bmbit_def)
    have "bmbit d i \<longleftrightarrow> True" if "i = bi" for i using True that by simp
    moreover have "bi \<le> i \<longleftrightarrow> i = bi \<or> Suc bi \<le> i" for i by auto
    ultimately show ?thesis using 2 [OF e(2)] unfolding e(1) by (auto split: option.splits)
  qed (auto simp: mask_test bmbit_def [symmetric])
qed auto


section \<open>Used and free blocks\<close>

definition used :: "'a fsstate_scheme \<Rightarrow> nat \<Rightarrow> bool" where
  "used s b \<longleftrightarrow> bmbit (content s (BBLOCK b (sb s))) (b mod BPB)"

abbreviation nblk :: "'a fsstate_scheme \<Rightarrow> nat" where
  "nblk s \<equiv> sb_size (sb s)"

text \<open>The blocks of the bitmap.\<close>

definition bitmap :: "'a fsstate_scheme \<Rightarrow> nat set" where
  "bitmap s = (\<lambda>b. BBLOCK b (sb s)) ` {..<nblk s}"

text \<open>The disk layout: the bitmap and everything else that is not a free data block is marked used.\<close>

definition fs_geom :: "'a fsstate_scheme \<Rightarrow> bool" where
  "fs_geom s \<longleftrightarrow> nblk s \<le> FSSIZE \<and> (\<forall>n\<in>bitmap s. n < nblk s \<and> used s n \<and> home (slog s) n) \<and>
     (\<forall>b<nblk s. \<not> used s b \<longrightarrow> home (slog s) b)"

lemma tx_frame_fs: "tx_frame s s' \<Longrightarrow> sb s' = sb s \<and> inodes s' = inodes s"
proof -
  assume "tx_frame s s'"
  then obtain B P Q where "s' = s\<lparr>bufs := B, procs := P, slog := Q\<rparr>" unfolding tx_frame_def by blast
  then show ?thesis by simp
qed

lemma used_cong:
  assumes "sb s' = sb s" "content s' (BBLOCK x (sb s)) = content s (BBLOCK x (sb s))"
  shows "used s' x = used s x"
  using assms by (simp add: used_def)

lemma finite_bitmap [simp]: "finite (bitmap s)"
  by (simp add: bitmap_def)

lemma BBLOCK_in: "b < nblk s \<Longrightarrow> BBLOCK b (sb s) \<in> bitmap s"
  by (auto simp: bitmap_def)

text \<open>A bitmap in which exactly block \<open>b\<close> changed.\<close>

lemma used_set_bit:
  assumes tx: "tx_ok H s" and c: "content s' (BBLOCK b (sb s)) = set_bit_in (b mod BPB) (content s (BBLOCK b (sb s)))"
    and o: "\<And>n. n \<in> bitmap s \<Longrightarrow> n \<noteq> BBLOCK b (sb s) \<Longrightarrow> content s' n = content s n" and e: "sb s' = sb s" and x: "x < nblk s"
  shows "used s' x \<longleftrightarrow> x = b \<or> used s x"
proof -
  have l: "8 * length (content s (BBLOCK b (sb s))) = BPB"
    using length_blk [of "ldv s" "logged s" H s] tx by (simp add: tx_ok_def BPB_def)
  have m: "b mod BPB < BPB" "x mod BPB < BPB" by (simp_all add: BPB_def BSIZE_def)
  show ?thesis
  proof (cases "BBLOCK x (sb s) = BBLOCK b (sb s)")
    case True
    then have "x div BPB = b div BPB" by (simp add: BBLOCK_def)
    then have "x mod BPB = b mod BPB \<longleftrightarrow> x = b" by (metis div_mult_mod_eq)
    then show ?thesis using True c e bmbit_set [of "b mod BPB" _ "x mod BPB"] l m by (simp add: used_def)
  next
    case False
    then have "x \<noteq> b" by auto
    then show ?thesis using o [OF BBLOCK_in [OF x] False] e by (simp add: used_def)
  qed
qed

lemma used_clear_bit:
  assumes tx: "tx_ok H s" and c: "content s' (BBLOCK b (sb s)) = clear_bit_in (b mod BPB) (content s (BBLOCK b (sb s)))"
    and o: "\<And>n. n \<in> bitmap s \<Longrightarrow> n \<noteq> BBLOCK b (sb s) \<Longrightarrow> content s' n = content s n" and e: "sb s' = sb s" and x: "x < nblk s"
  shows "used s' x \<longleftrightarrow> x \<noteq> b \<and> used s x"
proof -
  have l: "8 * length (content s (BBLOCK b (sb s))) = BPB"
    using length_blk [of "ldv s" "logged s" H s] tx by (simp add: tx_ok_def BPB_def)
  have m: "b mod BPB < BPB" "x mod BPB < BPB" by (simp_all add: BPB_def BSIZE_def)
  show ?thesis
  proof (cases "BBLOCK x (sb s) = BBLOCK b (sb s)")
    case True
    then have "x div BPB = b div BPB" by (simp add: BBLOCK_def)
    then have "x mod BPB = b mod BPB \<longleftrightarrow> x = b" by (metis div_mult_mod_eq)
    then show ?thesis using True c e bmbit_clear [of "b mod BPB" _ "x mod BPB"] l m by (simp add: used_def)
  next
    case False
    then have "x \<noteq> b" by auto
    then show ?thesis using o [OF BBLOCK_in [OF x] False] e by (simp add: used_def)
  qed
qed

section \<open>Allocating and freeing\<close>

lemma bzero_spec:
  assumes "tx_ok H s" "n \<notin> H" "home (slog s) n" "fits s A k" "n \<in> logged s \<union> A \<and> j = k \<or> k = Suc j" "finite H" "card H \<le> 1"
  obtains s' where "bzero (ldv s) n s = Inr s'" "tx_ok H s'" "content s' = (content s)(n := replicate BSIZE 0)"
    "tx_frame s s'" "logged s' = insert n (logged s)" "keeps (ldv s) H s s'" "fits s' A j"
proof -
  obtain s' where s': "kbind (bread (ldv s) n s) (\<lambda>(b, s).
      kbind (log_write b (set_data b (replicate BSIZE 0) s)) (\<lambda>s. brelse b s)) = Inr s'"
    "tx_ok H s'" "content s' = (content s)(n := replicate BSIZE 0)" "tx_frame s s'" "logged s' = insert n (logged s)"
    "keeps (ldv s) H s s'" "fits s' A j"
    by (rule tx_rmw_fits [where f = "\<lambda>_. replicate BSIZE 0", OF assms]) simp_all
  show ?thesis by (rule that [OF _ s'(2-)]) (simp add: bzero_def s'(1))
qed

text \<open>The post-condition of an allocation.\<close>

definition allocated :: "nat \<Rightarrow> 'a fsstate_scheme \<Rightarrow> 'a fsstate_scheme \<Rightarrow> bool" where
  "allocated b s s' \<longleftrightarrow> b < nblk s \<and> \<not> used s b \<and> (\<forall>x<b. used s x) \<and> content s' b = replicate BSIZE 0 \<and>
     (\<forall>x<nblk s. used s' x \<longleftrightarrow> x = b \<or> used s x) \<and>
     (\<forall>n. n \<noteq> b \<and> n \<notin> bitmap s \<longrightarrow> content s' n = content s n) \<and> insert b (logged s) \<subseteq> logged s'"

lemma balloc_from_spec:
  assumes "tx_ok H s" "fs_geom s" "fits s A (Suc k)" "bitmap s \<subseteq> A" "H \<inter> bitmap s = {}" "\<And>x. x \<in> H \<Longrightarrow> x < nblk s \<Longrightarrow> used s x"
    "finite H" "card H \<le> 1" "st mod BPB = 0" "\<And>x. x < st \<Longrightarrow> x < nblk s \<Longrightarrow> used s x"
  shows "if \<forall>x<nblk s. used s x then balloc_from (ldv s) st (nblk s) s = Inl (Panic ''balloc: out of blocks'')
    else \<exists>b s'. balloc_from (ldv s) st (nblk s) s = Inr (b, s') \<and> tx_ok H s' \<and> tx_frame s s' \<and> allocated b s s' \<and>
      keeps (ldv s) H s s' \<and> fits s' A k"
  using assms
proof (induction "nblk s - st" arbitrary: st s rule: less_induct)
  case less
  note tx = less.prems(1) and geom = less.prems(2) and ft = less.prems(3) and bm = less.prems(4,5)
    and H = less.prems(6-8) and st = less.prems(9,10)
  let ?n = "BBLOCK st (sb s)" and ?d = "content s (BBLOCK st (sb s))"
  show ?case
  proof (cases "st < nblk s")
    case False
    then show ?thesis using st by (simp add: balloc_from.simps)
  next
    case True
    have nb: "?n \<in> bitmap s" using True by (rule BBLOCK_in)
    then have n: "?n \<notin> H" "home (slog s) ?n" "?n < FSSIZE" "?n \<in> A" using bm geom by (auto simp: fs_geom_def home_def)
    have cd: "?n \<in> logged s \<or> card (logged s \<union> H) < NBUF" using fits_bufs [OF ft H(2,3)] by simp
    have ld: "length ?d = BSIZE" using tx by (auto simp: tx_ok_def dest: length_blk)
    have same: "BBLOCK (st + i) (sb s) = ?n \<and> (st + i) mod BPB = i" if "i < BPB" for i
    proof -
      obtain q where "st = q * BPB" using st(1) by (metis mod_0_imp_dvd dvd_def mult.commute)
      then show ?thesis using that by (simp add: BBLOCK_def)
    qed
    then have ub: "used s (st + i) \<longleftrightarrow> bmbit ?d i" if "i < BPB" for i using that by (simp add: used_def)
    obtain bp s1 s2 where r: "bread (ldv s) ?n s = Inr (bp, s1)" "bdata (bufs s1 ! bp) = ?d" "tx_frame s s1"
      "slog s1 = slog s" "brelse bp s1 = Inr s2" "tx_ok H s2" "content s2 = content s" "tx_frame s s2" "slog s2 = slog s"
      "keeps (ldv s) H s s2" by (rule tx_read [OF tx n(1,3) cd])
    have e2: "sb s2 = sb s" "sb s1 = sb s" using tx_frame_fs [OF r(8)] tx_frame_fs [OF r(3)] by simp_all
    have u2: "used s2 x = used s x" for x by (rule used_cong [OF e2(1)]) (simp add: r(7))
    show ?thesis
    proof (cases "first_clear ?d 0 (min BPB (nblk s - st))")
      case None
      then have all: "used s (st + i)" if "i < BPB" "st + i < nblk s" for i
        using first_clear_spec [where d = ?d and bi = 0 and k = "min BPB (nblk s - st)"] ub that by auto
      have eq: "balloc_from (ldv s) st (nblk s) s = balloc_from (ldv s2) (st + BPB) (nblk s2) s2"
        using True None r(1,2,5,9) e2 by (subst balloc_from.simps) simp
      have x: "used s2 x" if "x < st + BPB" "x < nblk s2" for x
        using st(2) [of x] all [of "x - st"] that e2 u2 by (cases "x < st") auto
      have "fs_geom s2" using geom e2 u2 r(9) by (simp add: fs_geom_def bitmap_def)
      moreover have "fits s2 A (Suc k)" using ft fits_slog [OF r(9)] by simp
      moreover have "nblk s2 - (st + BPB) < nblk s - st" using True e2 by (simp add: BPB_def BSIZE_def)
      moreover have "(st + BPB) mod BPB = 0" using st(1) by simp
      ultimately have ih: "if \<forall>x<nblk s2. used s2 x then balloc_from (ldv s2) (st + BPB) (nblk s2) s2 = Inl (Panic ''balloc: out of blocks'')
        else \<exists>b s'. balloc_from (ldv s2) (st + BPB) (nblk s2) s2 = Inr (b, s') \<and> tx_ok H s' \<and> tx_frame s2 s' \<and> allocated b s2 s' \<and>
          keeps (ldv s2) H s2 s' \<and> fits s' A k"
        using r(6) bm H x u2 e2 by (intro less.hyps) (auto simp: bitmap_def)
      show ?thesis
      proof (cases "\<forall>x<nblk s. used s x")
        case True
        then show ?thesis using ih u2 e2(1) unfolding eq by simp
      next
        case False
        then have "\<not> (\<forall>x<nblk s2. used s2 x)" using u2 e2(1) by simp
        then obtain b s' where b: "balloc_from (ldv s2) (st + BPB) (nblk s2) s2 = Inr (b, s')" "tx_ok H s'" "tx_frame s2 s'"
          "allocated b s2 s'" "keeps (ldv s2) H s2 s'" "fits s' A k" using ih by (simp only: if_False) blast
        have "allocated b s s'" using b(4) e2(1) u2 r(7) tx_frame_logged [OF r(9)] by (simp add: allocated_def bitmap_def)
        moreover have "keeps (ldv s) H s s'" using keeps_trans [OF r(10)] b(5) r(9) by simp
        ultimately show ?thesis using False b tx_frame_trans [OF r(8) b(3)] unfolding eq by auto
      qed
    next
      case (Some bi)
      then have bi: "bi < BPB" "st + bi < nblk s" "\<not> used s (st + bi)" and lt: "\<And>i. i < bi \<Longrightarrow> used s (st + i)"
        using first_clear_spec [where d = ?d and bi = 0 and k = "min BPB (nblk s - st)"] ub by auto
      have least: "used s x" if "x < st + bi" for x
        using st(2) [of x] lt [of "x - st"] that bi(2) by (cases "x < st") auto
      obtain t where t: "kbind (bread (ldv s) ?n s) (\<lambda>(b, s).
          kbind (log_write b (set_data b (set_bit_in bi (bdata (bufs s ! b))) s)) (\<lambda>s. brelse b s)) = Inr t"
        "tx_ok H t" "content t = (content s)(?n := set_bit_in bi ?d)" "tx_frame s t" "logged t = insert ?n (logged s)"
        "keeps (ldv s) H s t" "fits t A (Suc k)"
        by (rule tx_rmw_fits [where f = "set_bit_in bi" and j = "Suc k", OF tx n(1,2) ft _ H(2,3)])
          (use n(4) ld in \<open>simp_all add: set_bit_in_def\<close>)
      have fr: "home (slog t) (st + bi)" "st + bi \<notin> H"
        using bi geom H(1) tx_frameD(12) [OF t(4)] by (auto simp: fs_geom_def)
      obtain s' where s': "bzero (ldv t) (st + bi) t = Inr s'" "tx_ok H s'" "content s' = (content t)(st + bi := replicate BSIZE 0)"
        "tx_frame t s'" "logged s' = insert (st + bi) (logged t)" "keeps (ldv t) H t s'" "fits s' A k"
        by (rule bzero_spec [OF t(2) fr(2,1) t(7) disjI2 [OF refl] H(2,3)])
      have ld': "ldv t = ldv s" by (rule tx_frameD(7) [OF t(4)])
      have "balloc_from (ldv s) st (nblk s) s = Inr (st + bi, s')"
        using t(1) s'(1) True Some r(1,2) e2(2) ld' by (subst balloc_from.simps) (auto simp: kbind_eq_Inr)
      moreover have nbi: "st + bi \<notin> bitmap s" using bi(3) geom by (auto simp: fs_geom_def)
      have "allocated (st + bi) s s'"
      proof -
        have esb: "sb s' = sb s" using tx_frame_fs [OF t(4)] tx_frame_fs [OF s'(4)] by simp
        have "content s' (BBLOCK (st + bi) (sb s)) = set_bit_in ((st + bi) mod BPB) (content s (BBLOCK (st + bi) (sb s)))"
          using same [OF bi(1)] s'(3) t(3) nbi nb by auto
        moreover have "content s' m = content s m" if "m \<in> bitmap s" "m \<noteq> BBLOCK (st + bi) (sb s)" for m
          using that nbi same [OF bi(1)] s'(3) t(3) by auto
        ultimately have "used s' x \<longleftrightarrow> x = st + bi \<or> used s x" if "x < nblk s" for x
          using used_set_bit [OF tx _ _ esb that] by blast
        then show ?thesis using bi least nb s'(3,5) t(3,5) by (auto simp: allocated_def)
      qed
      moreover have "tx_frame s s'" by (rule tx_frame_trans [OF t(4) s'(4)])
      moreover have "keeps (ldv s) H s s'" using keeps_trans [OF t(6)] s'(6) ld' by simp
      ultimately show ?thesis using s'(2,7) bi by auto
    qed
  qed
qed

lemma balloc_spec:
  assumes "tx_ok H s" "fs_geom s" "fits s A (Suc k)" "bitmap s \<subseteq> A" "H \<inter> bitmap s = {}" "\<And>x. x \<in> H \<Longrightarrow> x < nblk s \<Longrightarrow> used s x"
    "finite H" "card H \<le> 1" "\<exists>x<nblk s. \<not> used s x"
  obtains b s' where "balloc (ldv s) s = Inr (b, s')" "tx_ok H s'" "tx_frame s s'" "allocated b s s'" "keeps (ldv s) H s s'"
    "fits s' A k"
  using balloc_from_spec [where st = 0, OF assms(1-8)] assms(9) unfolding balloc_def by (auto split: if_splits)


lemma bfree_spec:
  assumes tx: "tx_ok H s" and geom: "fs_geom s" and ft: "fits s A k" and bm: "bitmap s \<subseteq> A" "H \<inter> bitmap s = {}"
    and H: "finite H" "card H \<le> 1" and b: "b < nblk s" "used s b"
  obtains s' where "bfree (ldv s) b s = Inr s'" "tx_ok H s'" "tx_frame s s'" "keeps (ldv s) H s s'" "fits s' A k"
    "\<And>x. x < nblk s \<Longrightarrow> used s' x \<longleftrightarrow> x \<noteq> b \<and> used s x" "\<And>n. n \<notin> bitmap s \<Longrightarrow> content s' n = content s n"
proof -
  let ?n = "BBLOCK b (sb s)" and ?d = "content s (BBLOCK b (sb s))"
  have nb: "?n \<in> bitmap s" using b(1) by (rule BBLOCK_in)
  then have n: "?n \<notin> H" "home (slog s) ?n" "?n < FSSIZE" "?n \<in> A" using bm geom by (auto simp: fs_geom_def home_def)
  have cd: "?n \<in> logged s \<or> card (logged s \<union> H) < NBUF" using fits_bufs [OF ft H] by simp
  have ld: "length ?d = BSIZE" using tx by (auto simp: tx_ok_def dest: length_blk)
  obtain bp s1 where r: "bread (ldv s) ?n s = Inr (bp, s1)" "bdata (bufs s1 ! bp) = ?d"
    by (rule tx_bread [OF tx n(1,3) cd])
  have ut: "\<not> ?d ! (b mod BPB div 8) AND bit_mask (b mod BPB) = 0"
    using b(2) by (simp add: used_def mask_test bmbit_def)
  obtain t where t: "kbind (bread (ldv s) ?n s) (\<lambda>(b', s).
      kbind (log_write b' (set_data b' (clear_bit_in (b mod BPB) (bdata (bufs s ! b'))) s)) (\<lambda>s. brelse b' s)) = Inr t"
    "tx_ok H t" "content t = (content s)(?n := clear_bit_in (b mod BPB) ?d)" "tx_frame s t" "logged t = insert ?n (logged s)"
    "keeps (ldv s) H s t" "fits t A k"
    by (rule tx_rmw_fits [where f = "clear_bit_in (b mod BPB)" and j = k, OF tx n(1,2) ft _ H])
      (use n(4) ld in \<open>simp_all add: clear_bit_in_def\<close>)
  have "bfree (ldv s) b s = Inr t" using t(1) r ut by (simp add: bfree_def Let_def)
  moreover have "used t x \<longleftrightarrow> x \<noteq> b \<and> used s x" if "x < nblk s" for x
    using used_clear_bit [OF tx, of t b x] t(3) tx_frame_fs [OF t(4)] that by auto
  moreover have "content t m = content s m" if "m \<notin> bitmap s" for m using t(3) nb that by auto
  ultimately show ?thesis using that t(2,4,6,7) by blast
qed

lemma bfree_free:
  assumes tx: "tx_ok H s" and geom: "fs_geom s" and ft: "fits s A k" and bm: "H \<inter> bitmap s = {}"
    and H: "finite H" "card H \<le> 1" and b: "b < nblk s" "\<not> used s b"
  shows "bfree (ldv s) b s = Inl (Panic ''freeing free block'')"
proof -
  let ?n = "BBLOCK b (sb s)"
  have nb: "?n \<in> bitmap s" using b(1) by (rule BBLOCK_in)
  then have n: "?n \<notin> H" "?n < FSSIZE" using bm geom by (auto simp: fs_geom_def home_def)
  have cd: "?n \<in> logged s \<or> card (logged s \<union> H) < NBUF" using fits_bufs [OF ft H] by simp
  obtain bp s1 where r: "bread (ldv s) ?n s = Inr (bp, s1)" "bdata (bufs s1 ! bp) = content s ?n"
    by (rule tx_bread [OF tx n cd])
  then show ?thesis using b(2) by (simp add: bfree_def Let_def used_def mask_test bmbit_def)
qed

lemma fs_geom_allocated:
  assumes "fs_geom s" "allocated b s s'" "tx_frame s s'"
  shows "fs_geom s'"
proof -
  have e: "sb s' = sb s" "home (slog s') = home (slog s)" using tx_frame_fs [OF assms(3)] tx_frameD(12) [OF assms(3)] by auto
  then show ?thesis using assms(1,2) by (auto simp: fs_geom_def bitmap_def allocated_def)
qed

text \<open>C18: The block allocator hands out each block once. If every block is used, \<open>balloc\<close> panics;
  otherwise it returns the least free block, zeroed and now marked used, and changes no other
  block but the bitmap and no other bit. \<open>bfree\<close> clears exactly the bit of a used block and
  panics on a free one. Both keep the layout invariant and need no more than their share
  of the transaction.\<close>

theorem balloc_bfree_exact:
  assumes "tx_ok {} s" "fs_geom s" "fits s (bitmap s) (Suc k)"
  shows "((\<forall>x<nblk s. used s x) \<longrightarrow> balloc (ldv s) s = Inl (Panic ''balloc: out of blocks'')) \<and>
    ((\<exists>x<nblk s. \<not> used s x) \<longrightarrow> (\<exists>b s'. balloc (ldv s) s = Inr (b, s') \<and> b < nblk s \<and> \<not> used s b \<and> (\<forall>x<b. used s x) \<and>
      content s' b = replicate BSIZE 0 \<and> (\<forall>x<nblk s. used s' x \<longleftrightarrow> x = b \<or> used s x) \<and>
      (\<forall>n. n \<noteq> b \<and> n \<notin> bitmap s \<longrightarrow> content s' n = content s n) \<and>
      tx_ok {} s' \<and> fs_geom s' \<and> fits s' (bitmap s') k \<and> disk s' = disk s)) \<and>
    (b < nblk s \<and> \<not> used s b \<longrightarrow> bfree (ldv s) b s = Inl (Panic ''freeing free block'')) \<and>
    (b < nblk s \<and> used s b \<and> home (slog s) b \<and> b \<notin> bitmap s \<longrightarrow>
      (\<exists>s'. bfree (ldv s) b s = Inr s' \<and> (\<forall>x<nblk s. used s' x \<longleftrightarrow> x \<noteq> b \<and> used s x) \<and>
        (\<forall>n. n \<notin> bitmap s \<longrightarrow> content s' n = content s n) \<and>
        tx_ok {} s' \<and> fs_geom s' \<and> fits s' (bitmap s') (Suc k) \<and> disk s' = disk s))"
proof (rule conjI [OF impI conjI [OF impI conjI [OF impI impI]]])
  have H: "finite ({} :: nat set)" "card ({} :: nat set) \<le> 1" by simp_all
  note pre = assms(1,2,3) subset_refl [of "bitmap s"]
  have bs: "if \<forall>x<nblk s. used s x then balloc_from (ldv s) 0 (nblk s) s = Inl (Panic ''balloc: out of blocks'')
    else \<exists>b s'. balloc_from (ldv s) 0 (nblk s) s = Inr (b, s') \<and> tx_ok {} s' \<and> tx_frame s s' \<and> allocated b s s' \<and>
      keeps (ldv s) {} s s' \<and> fits s' (bitmap s) k"
    by (rule balloc_from_spec [OF pre _ _ H]) simp_all
  then show "(\<forall>x<nblk s. used s x) \<Longrightarrow> balloc (ldv s) s = Inl (Panic ''balloc: out of blocks'')"
    by (simp add: balloc_def)
  show "\<exists>x<nblk s. \<not> used s x \<Longrightarrow> \<exists>b s'. balloc (ldv s) s = Inr (b, s') \<and> b < nblk s \<and> \<not> used s b \<and> (\<forall>x<b. used s x) \<and>
      content s' b = replicate BSIZE 0 \<and> (\<forall>x<nblk s. used s' x \<longleftrightarrow> x = b \<or> used s x) \<and>
      (\<forall>n. n \<noteq> b \<and> n \<notin> bitmap s \<longrightarrow> content s' n = content s n) \<and>
      tx_ok {} s' \<and> fs_geom s' \<and> fits s' (bitmap s') k \<and> disk s' = disk s"
  proof -
    assume "\<exists>x<nblk s. \<not> used s x"
    then obtain b s' where b: "balloc (ldv s) s = Inr (b, s')" "tx_ok {} s'" "tx_frame s s'" "allocated b s s'" "fits s' (bitmap s) k"
      using bs unfolding balloc_def by (auto split: if_splits)
    have "bitmap s' = bitmap s" using tx_frame_fs [OF b(3)] by (simp add: bitmap_def)
    then show ?thesis using b fs_geom_allocated [OF assms(2) b(4,3)] tx_frameD(1) [OF b(3)]
      by (intro exI [of _ b] exI [of _ s']) (simp add: allocated_def)
  qed
  show "bfree (ldv s) b s = Inl (Panic ''freeing free block'')" if "b < nblk s \<and> \<not> used s b"
    by (rule bfree_free [OF assms(1-3) _ H]) (simp_all add: that)
  assume "b < nblk s \<and> used s b \<and> home (slog s) b \<and> b \<notin> bitmap s"
  then have b: "b < nblk s" "used s b" "home (slog s) b" "b \<notin> bitmap s" by simp_all
  obtain s' where s': "bfree (ldv s) b s = Inr s'" "tx_ok {} s'" "tx_frame s s'" "fits s' (bitmap s) (Suc k)"
    "\<And>x. x < nblk s \<Longrightarrow> used s' x \<longleftrightarrow> x \<noteq> b \<and> used s x" "\<And>n. n \<notin> bitmap s \<Longrightarrow> content s' n = content s n"
    by (rule bfree_spec [OF pre _ H b(1,2)]) simp_all
  have e: "sb s' = sb s" "home (slog s') = home (slog s)" using tx_frame_fs [OF s'(3)] tx_frameD(12) [OF s'(3)] by auto
  then have "fs_geom s'" using assms(2) s'(5) b by (auto simp: fs_geom_def bitmap_def)
  then show "\<exists>s'. bfree (ldv s) b s = Inr s' \<and> (\<forall>x<nblk s. used s' x \<longleftrightarrow> x \<noteq> b \<and> used s x) \<and>
        (\<forall>n. n \<notin> bitmap s \<longrightarrow> content s' n = content s n) \<and>
        tx_ok {} s' \<and> fs_geom s' \<and> fits s' (bitmap s') (Suc k) \<and> disk s' = disk s"
    using s' e tx_frameD(1) [OF s'(3)] by (intro exI [of _ s']) (simp add: bitmap_def)
qed


text \<open>
  A small file system as \<open>mkfs\<close> lays it out, inside a transaction: super block, log in blocks
  2 to 31, inodes up to 44, bitmap in 45, of the data blocks 46, which begins with "hello",
  and 47 in use. One process runs.
\<close>

definition sample_block :: "nat \<Rightarrow> byte list" where
  "sample_block n = (if n = 45 then replicate 6 (- 1) @ replicate 1018 0
     else if n = 46 then [104, 101, 108, 108, 111] @ replicate 1019 0 else replicate BSIZE 0)"

definition sample_fs :: fsstate where
  "sample_fs = binit (zero_fsstate\<lparr>procs := [zero_proc], cur := Some 0, disk := sample_block,
     sb := \<lparr>sb_magic = FSMAGIC, sb_size = 1000, sb_nblocks = 954, sb_ninodes = 200, sb_nlog = 30, sb_logstart = 2,
       sb_inodestart = 32, sb_bmapstart = 45\<rparr>,
     slog := \<lparr>lstart = 2, lsize = 30, outstanding = 1, committing = False, ldev = 1,
       lh = \<lparr>hn = 0, hblock = replicate LOGSIZE 0\<rparr>\<rparr>\<rparr>)"

lemma sample_fs_sel:
  "slog sample_fs = \<lparr>lstart = 2, lsize = 30, outstanding = 1, committing = False, ldev = 1,
     lh = \<lparr>hn = 0, hblock = replicate LOGSIZE 0\<rparr>\<rparr>"
  "sb sample_fs = \<lparr>sb_magic = FSMAGIC, sb_size = 1000, sb_nblocks = 954, sb_ninodes = 200, sb_nlog = 30, sb_logstart = 2,
     sb_inodestart = 32, sb_bmapstart = 45\<rparr>"
  "disk sample_fs = sample_block" "logged_list sample_fs = []" "procs sample_fs = [zero_proc]" "cur sample_fs = Some 0"
  by (simp_all add: sample_fs_def binit_def Let_def logged_list_def)

lemma get32_zeros: "get32 (replicate BSIZE 0) 0 = 0"
  by (simp add: get32_def slice_def BSIZE_def numeral_eq_Suc)

lemma sample_fs_ok:
  "tx_ok {} sample_fs" "content sample_fs = disk sample_fs" "fits sample_fs (bitmap sample_fs) 9"
  "bitmap sample_fs = {45}" "x < 1000 \<Longrightarrow> used sample_fs x \<longleftrightarrow> x < 48" "fs_geom sample_fs"
proof -
  let ?s = sample_fs
  have z: "bufs zero_fsstate = replicate (Suc NBUF) zero_buf"
    by (simp add: zero_fsstate_def zero_lstate_def zero_bstate_def zero_cstate_def zero_ustate_def zero_pstate_def
        fsstate.defs lstate.defs bstate.defs cstate.defs ustate.defs pstate.defs del: replicate_Suc)
  have c: "cache_ok 1 {} {} ?s" unfolding sample_fs_def
    by (rule boot_cache_ok) (simp_all add: z zero_buf_def BSIZE_def sample_block_def del: replicate_Suc)
  have "log_inv ?s" unfolding log_inv_def sample_fs_sel(4) by (simp add: sample_fs_sel LOGSIZE_def FSSIZE_def get32_zeros sample_block_def)
  then show tx: "tx_ok {} ?s" using c by (simp add: tx_ok_def sample_fs_sel)
  show cd: "content ?s = disk ?s" using blk_clean [OF c] by (auto simp: sample_fs_sel(1))
  have "b < 1000 \<Longrightarrow> BBLOCK b (sb ?s) = 45" for b by (simp add: BBLOCK_def sample_fs_sel(2) BPB_def BSIZE_def)
  note bb = this
  have n: "nblk ?s = 1000" by (simp add: sample_fs_sel(2))
  have "bitmap ?s = (\<lambda>_. 45) ` {..<(1000::nat)}" unfolding bitmap_def n by (rule image_cong [OF refl]) (use bb in simp)
  moreover have "{..<(1000::nat)} \<noteq> {}" by (simp add: lessThan_empty_iff)
  ultimately show bm: "bitmap ?s = {45}" by (simp only: image_constant_conv if_False simp_thms)
  show ft: "fits ?s (bitmap ?s) 9" unfolding bm by (simp add: fits_def sample_fs_sel NBUF_def)
  show us: "used ?s x \<longleftrightarrow> x < 48" if "x < 1000" for x
  proof -
    have "x mod BPB = x" using that by (simp add: BPB_def BSIZE_def)
    moreover have "x div 8 < 1024" using that by simp
    ultimately show ?thesis using bb [OF that] that
      by (auto simp: used_def cd sample_fs_sel(3) sample_block_def bmbit_def nth_append)
  qed
  show "fs_geom ?s"
    using us by (auto simp: fs_geom_def bm sample_fs_sel home_def FSSIZE_def)
qed

theorem balloc_bfree_exact_witness:
  "\<exists>s'. balloc 1 sample_fs = Inr (48, s') \<and> used s' 48 \<and> content s' 48 = replicate BSIZE 0 \<and> fs_geom s' \<and>
     bfree 1 49 sample_fs = Inl (Panic ''freeing free block'')"
proof -
  note ok = sample_fs_ok
  have n: "nblk sample_fs = 1000" "ldv sample_fs = 1" by (simp_all add: sample_fs_sel)
  have f: "fits sample_fs (bitmap sample_fs) (Suc 8)" using ok(3) by simp
  have e: "\<exists>x<nblk sample_fs. \<not> used sample_fs x" using ok(5) [of 48] n by (intro exI [of _ 48]) simp
  obtain b s' where b: "balloc 1 sample_fs = Inr (b, s')" "b < 1000" "\<not> used sample_fs b" "\<forall>x<b. used sample_fs x"
    "content s' b = replicate BSIZE 0" "\<forall>x<1000. used s' x \<longleftrightarrow> x = b \<or> used sample_fs x" "fs_geom s'"
    using balloc_bfree_exact [OF ok(1,6) f, of 49] e n by auto
  have "b = 48"
  proof -
    have "\<not> b < 48" using b(2,3) ok(5) by simp
    moreover have "\<not> 48 < b" using b(4) ok(5) [of 48] by auto
    ultimately show ?thesis by simp
  qed
  moreover have "bfree 1 49 sample_fs = Inl (Panic ''freeing free block'')"
    using balloc_bfree_exact [OF ok(1,6) f, of 49] n ok(5) [of 49] by simp
  ultimately show ?thesis using b by auto
qed

end
