(* ===== verification/FsFile.thy ===== *)
theory FsFile
  imports FsBlocks
begin

text \<open>
  Files as arrays of bytes (\<open>bmap\<close>, \<open>readi\<close>, \<open>writei\<close> of \<open>kernel/fs.c\<close>). \<open>addr_of\<close> is the block map that the
  direct and indirect addresses of an inode encode and \<open>file_bytes\<close> the contents of the file. \<open>bmap\<close> extends the
  map by at most one data block and the indirect block, \<open>readi\<close> returns a segment of the bytes, and \<open>writei\<close>
  overwrites one, leaving the blocks of everything else on the disk as they were.
\<close>

section \<open>The block map of an inode\<close>

definition addr_of :: "'a lstate_scheme \<Rightarrow> nat list \<Rightarrow> nat \<Rightarrow> nat" where
  "addr_of s as bn =
     (if bn < NDIRECT then as ! bn
      else if as ! NDIRECT = 0 then 0
      else unat (get32 (content s (as ! NDIRECT)) (4 * (bn - NDIRECT))))"

text \<open>The blocks of a file, the indirect one included.\<close>

definition blocks_of :: "'a lstate_scheme \<Rightarrow> nat list \<Rightarrow> nat set" where
  "blocks_of s as = insert (as ! NDIRECT) (addr_of s as ` {..<MAXFILE}) - {0}"

definition map_ok :: "'a fsstate_scheme \<Rightarrow> nat list \<Rightarrow> bool" where
  "map_ok s as \<longleftrightarrow> length as = NDIRECT + 1 \<and> 0 < nblk s \<and> used s 0 \<and>
     (\<forall>b\<in>blocks_of s as. b < nblk s \<and> used s b \<and> home (slog s) b \<and> b \<notin> bitmap s) \<and>
     (\<forall>m<MAXFILE. addr_of s as m \<noteq> 0 \<longrightarrow> addr_of s as m \<noteq> as ! NDIRECT \<and>
        (\<forall>n<MAXFILE. addr_of s as n = addr_of s as m \<longrightarrow> n = m))"

lemma map_okD:
  assumes "map_ok s as"
  shows "length as = NDIRECT + 1" "0 < nblk s" "used s 0"
    "\<And>b. b \<in> blocks_of s as \<Longrightarrow> b < nblk s \<and> used s b \<and> home (slog s) b \<and> b \<notin> bitmap s"
    "\<And>m. m < MAXFILE \<Longrightarrow> addr_of s as m \<noteq> 0 \<Longrightarrow> addr_of s as m \<noteq> as ! NDIRECT"
    "\<And>m n. m < MAXFILE \<Longrightarrow> n < MAXFILE \<Longrightarrow> addr_of s as n = addr_of s as m \<Longrightarrow> addr_of s as m \<noteq> 0 \<Longrightarrow> n = m"
  using assms unfolding map_ok_def by blast+

lemma in_blocks_of:
  "m < MAXFILE \<Longrightarrow> addr_of s as m \<noteq> 0 \<Longrightarrow> addr_of s as m \<in> blocks_of s as"
  "as ! NDIRECT \<noteq> 0 \<Longrightarrow> as ! NDIRECT \<in> blocks_of s as"
  by (auto simp: blocks_of_def)

lemma addr_of_cong:
  "(as ! NDIRECT \<noteq> 0 \<Longrightarrow> content s' (as ! NDIRECT) = content s (as ! NDIRECT)) \<Longrightarrow> addr_of s' as = addr_of s as"
  by (rule ext) (simp add: addr_of_def)

lemma blocks_of_cong: "addr_of s' as = addr_of s as \<Longrightarrow> blocks_of s' as = blocks_of s as"
  by (simp add: blocks_of_def)

text \<open>A fresh block enters the map at \<open>bn\<close>.\<close>

lemma map_ok_insert:
  assumes ok: "map_ok s as" and as: "length as' = NDIRECT + 1" "as' ! NDIRECT = as ! NDIRECT"
    and ad: "\<And>m. m < MAXFILE \<Longrightarrow> addr_of s' as' m = (if m = bn then b else addr_of s as m)"
    and bn: "bn < MAXFILE" "addr_of s as bn = 0"
    and b: "\<not> used s b" "b < nblk s" "home (slog s) b" "b \<notin> bitmap s"
    and us: "\<And>x. x < nblk s \<Longrightarrow> used s' x \<longleftrightarrow> x = b \<or> used s x" and e: "sb s' = sb s" "home (slog s') = home (slog s)"
  shows "map_ok s' as'" "blocks_of s' as' = insert b (blocks_of s as)"
proof -
  note m = map_okD [OF ok]
  have b0: "b \<noteq> 0" using m(3) b(1) by metis
  have bb: "b \<notin> blocks_of s as" using m(4) [of b] b(1) by blast
  have im: "addr_of s' as' ` {..<MAXFILE} = insert b (addr_of s as ` ({..<MAXFILE} - {bn}))"
    using ad bn(1) by (auto simp: image_iff)
  have "addr_of s as ` {..<MAXFILE} - {0} = addr_of s as ` ({..<MAXFILE} - {bn}) - {0}"
    using bn by (auto simp: image_iff)
  then show bl: "blocks_of s' as' = insert b (blocks_of s as)"
    unfolding blocks_of_def im as(2) using b0 by (simp add: insert_Diff_if insert_commute)
  have new: "addr_of s as x \<noteq> b \<and> as ! NDIRECT \<noteq> b" if "x < MAXFILE" for x
    using bb b0 in_blocks_of(1) [OF that, of s as] in_blocks_of(2) [of as s] by auto
  have "c < nblk s' \<and> used s' c \<and> home (slog s') c \<and> c \<notin> bitmap s'" if "c \<in> blocks_of s' as'" for c
    using that b us m(4) [of c] unfolding bl by (auto simp: e bitmap_def)
  moreover have "addr_of s' as' x \<noteq> as' ! NDIRECT \<and> (\<forall>y<MAXFILE. addr_of s' as' y = addr_of s' as' x \<longrightarrow> y = x)"
    if "x < MAXFILE" "addr_of s' as' x \<noteq> 0" for x
    using that new bn(1) m(5,6) ad by (auto simp: as(2) split: if_splits)
  ultimately show "map_ok s' as'"
    using m(2,3) us as(1) by (simp add: map_ok_def e)
qed

text \<open>A fresh zeroed block becomes the indirect block.\<close>

lemma get32_zero_block: "k + 4 \<le> BSIZE \<Longrightarrow> get32 (replicate BSIZE 0) k = 0"
proof -
  assume "k + 4 \<le> BSIZE"
  then have "slice k 4 (replicate BSIZE 0) = (replicate 4 0 :: byte list)" by (simp add: slice_def)
  moreover have "bytes_word (replicate 4 0) = (0 :: u32)" by (simp add: numeral_eq_Suc)
  ultimately show ?thesis by (simp add: get32_def)
qed

lemma MAXFILE_off: "m < MAXFILE \<Longrightarrow> 4 * (m - NDIRECT) + 4 \<le> BSIZE"
  by (simp add: MAXFILE_def NDIRECT_def NINDIRECT_def BSIZE_def)

lemma map_ok_indirect:
  assumes ok: "map_ok s as" and z: "as ! NDIRECT = 0" and c: "content s' b = replicate BSIZE 0"
    and b: "\<not> used s b" "b < nblk s" "home (slog s) b" "b \<notin> bitmap s"
    and us: "\<And>x. x < nblk s \<Longrightarrow> used s' x \<longleftrightarrow> x = b \<or> used s x" and e: "sb s' = sb s" "home (slog s') = home (slog s)"
  defines "as' \<equiv> as[NDIRECT := b]"
  shows "map_ok s' as'" "blocks_of s' as' = insert b (blocks_of s as)" "\<And>m. m < MAXFILE \<Longrightarrow> addr_of s' as' m = addr_of s as m"
proof -
  note m = map_okD [OF ok]
  have b0: "b \<noteq> 0" using m(3) b(1) by metis
  have bb: "b \<notin> blocks_of s as" using m(4) [of b] b(1) by blast
  have i: "as' ! NDIRECT = b" using m(1) by (simp add: as'_def)
  show ad: "addr_of s' as' x = addr_of s as x" if "x < MAXFILE" for x
  proof (cases "x < NDIRECT")
    case True
    then show ?thesis by (simp add: addr_of_def as'_def)
  next
    case False
    then show ?thesis using get32_zero_block [OF MAXFILE_off [OF that]] by (simp add: addr_of_def z i b0 c)
  qed
  have im: "addr_of s' as' ` {..<MAXFILE} = addr_of s as ` {..<MAXFILE}" by (rule image_cong [OF refl]) (simp add: ad)
  show bl: "blocks_of s' as' = insert b (blocks_of s as)"
    unfolding blocks_of_def im i z using b0 by (simp add: insert_Diff_if)
  have new: "addr_of s as x \<noteq> b" if "x < MAXFILE" for x
    using bb b0 in_blocks_of(1) [OF that, of s as] by auto
  have "d < nblk s' \<and> used s' d \<and> home (slog s') d \<and> d \<notin> bitmap s'" if "d \<in> blocks_of s' as'" for d
    using that b us m(4) [of d] unfolding bl by (auto simp: e bitmap_def)
  moreover have "addr_of s' as' x \<noteq> as' ! NDIRECT \<and> (\<forall>y<MAXFILE. addr_of s' as' y = addr_of s' as' x \<longrightarrow> y = x)"
    if "x < MAXFILE" "addr_of s' as' x \<noteq> 0" for x
    using that new m(6) ad i by auto
  ultimately show "map_ok s' as'"
    using m(1-3) us by (simp add: map_ok_def e as'_def)
qed

section \<open>Space for new blocks\<close>

definition free_blocks :: "'a fsstate_scheme \<Rightarrow> nat set" where
  "free_blocks s = {b. b < nblk s \<and> \<not> used s b}"

text \<open>Room for \<open>k\<close> more blocks, in the transaction and on the disk.\<close>

definition space :: "'a fsstate_scheme \<Rightarrow> nat set \<Rightarrow> nat \<Rightarrow> bool" where
  "space s A k \<longleftrightarrow> fits s A k \<and> k \<le> card (free_blocks s)"

lemma space_mono: "space s A k \<Longrightarrow> j \<le> k \<Longrightarrow> space s A j"
  by (auto simp: space_def intro: fits_mono)

lemma finite_free [simp]: "finite (free_blocks s)"
  by (simp add: free_blocks_def)

lemma space_cong: "slog s' = slog s \<Longrightarrow> sb s' = sb s \<Longrightarrow> content s' = content s \<Longrightarrow> space s' A k = space s A k"
  by (simp add: space_def fits_slog [of s' s] free_blocks_def used_def)

lemma inodes_upd [simp]:
  "blk dv (s\<lparr>inodes := X\<rparr>) = blk dv s" "tx_ok H (s\<lparr>inodes := X\<rparr>) = tx_ok H s" "logged_list (s\<lparr>inodes := X\<rparr>) = logged_list s"
  "used (s\<lparr>inodes := X\<rparr>) = used s" "bitmap (s\<lparr>inodes := X\<rparr>) = bitmap s" "fs_geom (s\<lparr>inodes := X\<rparr>) = fs_geom s"
  "fits (s\<lparr>inodes := X\<rparr>) = fits s" "space (s\<lparr>inodes := X\<rparr>) = space s" "addr_of (s\<lparr>inodes := X\<rparr>) = addr_of s"
  "blocks_of (s\<lparr>inodes := X\<rparr>) = blocks_of s" "map_ok (s\<lparr>inodes := X\<rparr>) = map_ok s"
  "free_blocks (s\<lparr>inodes := X\<rparr>) = free_blocks s"
proof -
  let ?t = "s\<lparr>inodes := X\<rparr>"
  show bl: "blk dv ?t = blk dv s" for dv by (rule blk_cong) simp_all
  show lg: "logged_list ?t = logged_list s" by (simp add: logged_list_def)
  have "cache_ok dv L H ?t = cache_ok dv L H s" for dv L H by (rule cache_ok_cong) (simp_all add: mypid_def myproc_def)
  then show "tx_ok H ?t = tx_ok H s" by (simp add: tx_ok_def log_inv_def lg)
  show us: "used ?t = used s" and bm: "bitmap ?t = bitmap s" by (auto simp: used_def bl bitmap_def)
  show ge: "fs_geom ?t = fs_geom s" by (simp add: fs_geom_def us bm)
  show ft: "fits ?t = fits s" by (intro ext) (simp add: fits_def lg)
  show fr: "free_blocks ?t = free_blocks s" by (simp add: free_blocks_def us)
  show "space ?t = space s" by (intro ext) (simp add: space_def ft fr)
  show ad: "addr_of ?t = addr_of s" by (intro ext) (simp add: addr_of_def bl)
  show bo: "blocks_of ?t = blocks_of s" by (intro ext) (simp add: blocks_of_def ad)
  show "map_ok ?t = map_ok s" by (intro ext) (simp add: map_ok_def ad bo us bm)
qed

text \<open>What an operation on a file may change besides contents: cached inodes too.\<close>

definition fs_frame :: "'a fsstate_scheme \<Rightarrow> 'a fsstate_scheme \<Rightarrow> bool" where
  "fs_frame s s' \<longleftrightarrow> tx_frame s (s'\<lparr>inodes := inodes s\<rparr>)"

lemma fs_frameD:
  assumes "fs_frame s s'"
  shows "disk s' = disk s" "dtrace s' = dtrace s" "cur s' = cur s" "pmem s' = pmem s" "freelist s' = freelist s"
    "ldv s' = ldv s" "lstart (slog s') = lstart (slog s)" "lsize (slog s') = lsize (slog s)"
    "outstanding (slog s') = outstanding (slog s)" "home (slog s') = home (slog s)" "my_pt s' = my_pt s" "mypid s' = mypid s"
    "sb s' = sb s" "bitmap s' = bitmap s"
  using tx_frameD [OF assms [unfolded fs_frame_def]] tx_frame_fs [OF assms [unfolded fs_frame_def]]
  by (simp_all add: myproc_def mypid_def bitmap_def)

lemma tx_frame_inodes: "tx_frame s t \<Longrightarrow> tx_frame (s\<lparr>inodes := X\<rparr>) (t\<lparr>inodes := X\<rparr>)"
proof -
  assume a: "tx_frame s t"
  then obtain B P Q where e: "t = s\<lparr>bufs := B, procs := P, slog := Q\<rparr>" unfolding tx_frame_def by blast
  have "t\<lparr>inodes := X\<rparr> = (s\<lparr>inodes := X\<rparr>)\<lparr>bufs := B, procs := P, slog := Q\<rparr>" unfolding e by (cases s) simp
  then show ?thesis using a e by (simp add: tx_frame_def)
qed

lemma fs_frame_trans [trans]: "fs_frame s t \<Longrightarrow> fs_frame t u \<Longrightarrow> fs_frame s u"
  using tx_frame_inodes [of t "u\<lparr>inodes := inodes t\<rparr>" "inodes s"] by (auto simp: fs_frame_def intro: tx_frame_trans)

lemma fs_frame_tx: "tx_frame s s' \<Longrightarrow> fs_frame s s'"
proof -
  assume a: "tx_frame s s'"
  have "s'\<lparr>inodes := inodes s\<rparr> = s'" using tx_frame_fs [OF a] by (cases s', cases s) simp
  then show ?thesis using a by (simp add: fs_frame_def)
qed

lemma fs_frame_upd: "fs_frame s (s\<lparr>inodes := X\<rparr>)"
  by (simp add: fs_frame_def)

lemma fs_frame_refl [simp]: "fs_frame s s"
  by (simp add: fs_frame_def)

text \<open>Allocation against the space left.\<close>

lemma allocatedD:
  assumes "fs_geom s" "allocated b s s'"
  shows "b < nblk s" "\<not> used s b" "home (slog s) b" "b \<notin> bitmap s" "content s' b = replicate BSIZE 0"
    "\<And>x. x < nblk s \<Longrightarrow> used s' x \<longleftrightarrow> x = b \<or> used s x" "\<And>n. n \<noteq> b \<Longrightarrow> n \<notin> bitmap s \<Longrightarrow> content s' n = content s n"
    "b \<in> logged s'" "logged s \<subseteq> logged s'" "b \<in> free_blocks s"
  using assms by (auto simp: allocated_def fs_geom_def free_blocks_def)

lemma free_allocated:
  assumes "fs_geom s" "allocated b s s'" "sb s' = sb s"
  shows "free_blocks s' = free_blocks s - {b}"
  using allocatedD [OF assms(1,2)] by (auto simp: free_blocks_def assms(3))

lemma balloc_space:
  assumes tx: "tx_ok H s" and geom: "fs_geom s" and sp: "space s A (Suc k)" and bm: "bitmap s \<subseteq> A"
    and H: "H \<inter> bitmap s = {}" "\<And>x. x \<in> H \<Longrightarrow> x < nblk s \<Longrightarrow> used s x" "finite H" "card H \<le> 1"
  obtains b s' where "balloc (ldv s) s = Inr (b, s')" "tx_ok H s'" "tx_frame s s'" "allocated b s s'" "keeps (ldv s) H s s'"
    "space s' A k" "fs_geom s'"
proof -
  have ft: "fits s A (Suc k)" and c: "Suc k \<le> card (free_blocks s)" using sp by (simp_all add: space_def)
  then have "free_blocks s \<noteq> {}" by auto
  then have ex: "\<exists>x<nblk s. \<not> used s x" by (auto simp: free_blocks_def)
  obtain b s' where b: "balloc (ldv s) s = Inr (b, s')" "tx_ok H s'" "tx_frame s s'" "allocated b s s'" "keeps (ldv s) H s s'"
    "fits s' A k" by (rule balloc_spec [OF tx geom ft bm H ex])
  have e: "sb s' = sb s" using tx_frame_fs [OF b(3)] by simp
  have "card (free_blocks s') = card (free_blocks s) - 1"
    unfolding free_allocated [OF geom b(4) e] using allocatedD(10) [OF geom b(4)] by simp
  then have "space s' A k" using b(6) c by (simp add: space_def)
  then show ?thesis using that b fs_geom_allocated [OF geom b(4,3)] by blast
qed

section \<open>Finding or making a block\<close>

abbreviation iad :: "nat \<Rightarrow> 'a fsstate_scheme \<Rightarrow> nat list" where
  "iad i s \<equiv> iaddrs (inodes s ! i)"

lemma bmap_present:
  assumes tx: "tx_ok {} s" and c: "card (logged s) < NBUF" and ok: "map_ok s (iad i s)" and dv: "idev (inodes s ! i) = ldv s"
    and bn: "bn < MAXFILE" "addr_of s (iad i s) bn \<noteq> 0"
  obtains s' where "bmap i bn s = Inr (addr_of s (iad i s) bn, s')" "tx_ok {} s'" "content s' = content s" "tx_frame s s'"
    "slog s' = slog s"
proof (cases "bn < NDIRECT")
  case True
  then have "bmap i bn s = Inr (addr_of s (iad i s) bn, s)"
    using bn(2) by (simp add: bmap_def addr_or_alloc_def addr_of_def)
  then show ?thesis by (rule that [OF _ tx]) simp_all
next
  case False
  let ?d = "iad i s ! NDIRECT"
  have d: "?d \<noteq> 0" and a: "addr_of s (iad i s) bn = unat (get32 (content s ?d) (4 * (bn - NDIRECT)))"
    using bn(2) False by (auto simp: addr_of_def split: if_splits)
  then have n: "?d \<notin> {}" "?d < FSSIZE" "?d \<in> logged s \<or> card (logged s \<union> {}) < NBUF"
    using map_okD(4) [OF ok in_blocks_of(2)] c by (auto simp: home_def)
  obtain bp s1 s2 where r: "bread (ldv s) ?d s = Inr (bp, s1)" "bdata (bufs s1 ! bp) = content s ?d" "tx_frame s s1"
    "slog s1 = slog s" "brelse bp s1 = Inr s2" "tx_ok {} s2" "content s2 = content s" "tx_frame s s2" "slog s2 = slog s"
    "keeps (ldv s) {} s s2" by (rule tx_read [OF tx n])
  have "bn - NDIRECT < NINDIRECT" using bn(1) False by (simp add: MAXFILE_def)
  then have "bmap i bn s = Inr (addr_of s (iad i s) bn, s2)"
    using False d bn(2) dv r(1,2,5) by (simp add: bmap_def addr_or_alloc_def Let_def a [symmetric])
  then show ?thesis by (rule that [OF _ r(6-9)])
qed

text \<open>The effect of \<open>bmap\<close> on the disk: the map has a block \<open>a\<close> at \<open>bn\<close>, which is zero if it is new.\<close>

definition grown :: "nat \<Rightarrow> 'a fsstate_scheme \<Rightarrow> 'a fsstate_scheme \<Rightarrow> bool" where
  "grown i s s' \<longleftrightarrow> inodes s' = (inodes s)[i := (inodes s ! i)\<lparr>iaddrs := iad i s'\<rparr>] \<and> i < length (inodes s) \<and>
     map_ok s' (iad i s') \<and> blocks_of s (iad i s) \<subseteq> blocks_of s' (iad i s') \<and>
     blocks_of s' (iad i s') - blocks_of s (iad i s) \<subseteq> free_blocks s \<and>
     (\<forall>x<nblk s. used s' x \<longleftrightarrow> used s x \<or> x \<in> blocks_of s' (iad i s')) \<and>
     (\<forall>n. n \<notin> bitmap s \<and> n \<notin> free_blocks s \<and> n \<notin> blocks_of s (iad i s) \<longrightarrow> content s' n = content s n)"

definition mapped :: "nat \<Rightarrow> nat \<Rightarrow> nat \<Rightarrow> 'a fsstate_scheme \<Rightarrow> 'a fsstate_scheme \<Rightarrow> bool" where
  "mapped i bn a s s' \<longleftrightarrow> grown i s s' \<and> a \<noteq> 0 \<and>
     (\<forall>m<MAXFILE. addr_of s' (iad i s') m = (if m = bn then a else addr_of s (iad i s) m)) \<and>
     content s' a = (if addr_of s (iad i s) bn = 0 then replicate BSIZE 0 else content s a) \<and>
     (addr_of s (iad i s) bn \<noteq> 0 \<longrightarrow> a = addr_of s (iad i s) bn) \<and>
     (\<forall>m<MAXFILE. addr_of s (iad i s) m \<noteq> 0 \<longrightarrow> content s' (addr_of s (iad i s) m) = content s (addr_of s (iad i s) m))"

lemma grown_refl: "i < length (inodes s) \<Longrightarrow> map_ok s (iad i s) \<Longrightarrow> grown i s s"
  using map_okD(4) [of s "iad i s"] by (auto simp: grown_def)

lemma grown_trans:
  assumes "grown i s t" "grown i t u" "fs_frame s t"
  shows "grown i s u"
proof -
  note f = fs_frameD [OF assms(3)]
  have sub: "free_blocks t \<subseteq> free_blocks s" using assms(1) by (auto simp: grown_def free_blocks_def f)
  have e: "inodes u = (inodes s)[i := (inodes s ! i)\<lparr>iaddrs := iad i u\<rparr>]"
  proof -
    have "inodes u = (inodes t)[i := (inodes t ! i)\<lparr>iaddrs := iad i u\<rparr>]" using assms(2) by (simp add: grown_def)
    moreover have "inodes t = (inodes s)[i := (inodes s ! i)\<lparr>iaddrs := iad i t\<rparr>]" "i < length (inodes s)"
      using assms(1) by (simp_all add: grown_def)
    ultimately show ?thesis by (metis (no_types, lifting) inode.update_convs(11) list_update_overwrite nth_list_update_eq inode.surjective)
  qed
  have us: "used u x \<longleftrightarrow> used s x \<or> x \<in> blocks_of u (iad i u)" if "x < nblk s" for x
    using assms(1,2) that by (auto simp: grown_def f)
  have ct: "content u n = content s n" if "n \<notin> bitmap s" "n \<notin> free_blocks s" "n \<notin> blocks_of s (iad i s)" for n
  proof -
    have "n \<notin> blocks_of t (iad i t)" using assms(1) that by (auto simp: grown_def)
    then have "content u n = content t n" using assms(2) that sub by (auto simp: grown_def f)
    then show ?thesis using assms(1) that by (simp add: grown_def)
  qed
  have "blocks_of s (iad i s) \<subseteq> blocks_of t (iad i t)" "blocks_of t (iad i t) - blocks_of s (iad i s) \<subseteq> free_blocks s"
    "blocks_of t (iad i t) \<subseteq> blocks_of u (iad i u)" "blocks_of u (iad i u) - blocks_of t (iad i t) \<subseteq> free_blocks t"
    using assms(1,2) by (simp_all add: grown_def)
  then have bl: "blocks_of s (iad i s) \<subseteq> blocks_of u (iad i u)" "blocks_of u (iad i u) - blocks_of s (iad i s) \<subseteq> free_blocks s"
    using sub by blast+
  have "i < length (inodes s)" "map_ok u (iad i u)" using assms(1,2) by (simp_all add: grown_def)
  then show ?thesis unfolding grown_def by (intro conjI allI impI e bl us ct) simp_all
qed


lemma grownD:
  assumes "grown i s s'"
  shows "inodes s' = (inodes s)[i := (inodes s ! i)\<lparr>iaddrs := iad i s'\<rparr>]" "i < length (inodes s)" "map_ok s' (iad i s')"
    "blocks_of s (iad i s) \<subseteq> blocks_of s' (iad i s')" "\<And>b. b \<in> blocks_of s' (iad i s') \<Longrightarrow> b \<in> blocks_of s (iad i s) \<or> b \<in> free_blocks s"
    "\<And>x. x < nblk s \<Longrightarrow> used s' x \<longleftrightarrow> used s x \<or> x \<in> blocks_of s' (iad i s')"
    "\<And>n. n \<notin> bitmap s \<Longrightarrow> n \<notin> free_blocks s \<Longrightarrow> n \<notin> blocks_of s (iad i s) \<Longrightarrow> content s' n = content s n"
  using assms unfolding grown_def by blast+

lemma grown_inode:
  assumes "grown i s s'"
  shows "length (inodes s') = length (inodes s)" "idev (inodes s' ! i) = idev (inodes s ! i)" "inum (inodes s' ! i) = inum (inodes s ! i)"
    "isize (inodes s' ! i) = isize (inodes s ! i)" "j \<noteq> i \<Longrightarrow> inodes s' ! j = inodes s ! j"
proof -
  obtain X where "inodes s' = (inodes s)[i := (inodes s ! i)\<lparr>iaddrs := X\<rparr>]" "i < length (inodes s)"
    using grownD(1,2) [OF assms] by blast
  then show "length (inodes s') = length (inodes s)" "idev (inodes s' ! i) = idev (inodes s ! i)" "inum (inodes s' ! i) = inum (inodes s ! i)"
    "isize (inodes s' ! i) = isize (inodes s ! i)" "j \<noteq> i \<Longrightarrow> inodes s' ! j = inodes s ! j" by simp_all
qed

text \<open>A block just allocated, entered into the map.\<close>

lemma grown_alloc:
  assumes geom: "fs_geom s" and al: "allocated b s t" and fr: "fs_frame s t" and i: "i < length (inodes s)" and ok: "map_ok s (iad i s)"
    and s': "inodes s' = (inodes s)[i := (inodes s ! i)\<lparr>iaddrs := iad i s'\<rparr>]" "fs_frame t s'"
    and m: "map_ok s' (iad i s')" "blocks_of s' (iad i s') = insert b (blocks_of s (iad i s))"
    and us: "\<And>x. x < nblk s \<Longrightarrow> used s' x = used t x"
    and c: "\<And>n. n \<notin> blocks_of s (iad i s) \<Longrightarrow> n \<notin> bitmap s \<Longrightarrow> content s' n = content t n"
  shows "grown i s s'"
proof -
  note a = allocatedD [OF geom al]
  have "used s' x \<longleftrightarrow> used s x \<or> x \<in> blocks_of s' (iad i s')" if "x < nblk s" for x
    using us [OF that] a(6) [OF that] map_okD(4) [OF ok, of x] by (auto simp: m(2))
  moreover have "content s' n = content s n" if "n \<notin> bitmap s" "n \<notin> free_blocks s" "n \<notin> blocks_of s (iad i s)" for n
    using c [OF that(3,1)] a(7) [of n] a(10) that(1,2) by auto
  ultimately show ?thesis unfolding grown_def using i m a(10) by (intro conjI allI impI s'(1)) auto
qed

lemma addr_of_allocated:
  assumes geom: "fs_geom s" and al: "allocated b s t" and ok: "map_ok s as"
  shows "addr_of t as = addr_of s as" "\<And>c. c \<in> blocks_of s as \<Longrightarrow> content t c = content s c"
proof -
  show c: "content t c = content s c" if "c \<in> blocks_of s as" for c
    using allocatedD(2,7) [OF geom al] map_okD(4) [OF ok that] by metis
  show "addr_of t as = addr_of s as" by (rule addr_of_cong, rule c, rule in_blocks_of(2))
qed

lemma bmap_direct:
  assumes tx: "tx_ok {} s" and geom: "fs_geom s" and sp: "space s A (Suc k)" and bm: "bitmap s \<subseteq> A" and i: "i < length (inodes s)"
    and ok: "map_ok s (iad i s)" and dv: "idev (inodes s ! i) = ldv s" and bn: "bn < NDIRECT" "iad i s ! bn = 0"
  obtains a s' where "bmap i bn s = Inr (a, s')" "tx_ok {} s'" "fs_geom s'" "fs_frame s s'" "mapped i bn a s s'" "space s' A k"
    "a \<in> logged s'"
proof -
  obtain b t where b: "balloc (ldv s) s = Inr (b, t)" "tx_ok {} t" "tx_frame s t" "allocated b s t" "keeps (ldv s) {} s t"
    "space t A k" "fs_geom t" by (rule balloc_space [OF tx geom sp bm]) simp_all
  note a = allocatedD [OF geom b(4)] and ad = addr_of_allocated [OF geom b(4) ok] and mk = map_okD [OF ok]
  have fr: "fs_frame s t" by (rule fs_frame_tx [OF b(3)])
  have it: "inodes t = inodes s" "sb t = sb s" "home (slog t) = home (slog s)" using tx_frame_fs [OF b(3)] fs_frameD [OF fr] by simp_all
  define X where "X = (inodes s)[i := (inodes s ! i)\<lparr>iaddrs := (iad i s)[bn := b]\<rparr>]"
  define s' where "s' = t\<lparr>inodes := X\<rparr>"
  have run: "bmap i bn s = Inr (b, s')"
    using b(1) bn dv by (simp add: bmap_def addr_or_alloc_def set_addr_def upd_inode_def s'_def X_def it)
  have ia: "iad i s' = (iad i s)[bn := b]" using i by (simp add: s'_def X_def)
  have bm': "bn < MAXFILE" "addr_of s (iad i s) bn = 0" using bn by (simp_all add: MAXFILE_def addr_of_def)
  have len: "length (iad i s') = NDIRECT + 1" "iad i s' ! NDIRECT = iad i s ! NDIRECT" using mk(1) bn(1) by (simp_all add: ia)
  have ad': "addr_of s' (iad i s') m = (if m = bn then b else addr_of s (iad i s) m)" for m
    using ad(1) [THEN fun_cong, of m] bn(1) mk(1) unfolding ia by (auto simp: addr_of_def s'_def)
  have us: "used s' x \<longleftrightarrow> x = b \<or> used s x" if "x < nblk s" for x using a(6) [OF that] by (simp add: s'_def)
  have e: "sb s' = sb s" "home (slog s') = home (slog s)" using it by (simp_all add: s'_def)
  note mi = map_ok_insert [OF ok len ad' bm' a(2,1,3,4) us e]
  have g: "grown i s s'"
    by (rule grown_alloc [OF geom b(4) fr i ok _ _ mi]) (simp_all add: ia, simp_all add: s'_def X_def fs_frame_upd)
  have b0: "b \<noteq> 0" using mk(3) a(2) by metis
  have "mapped i bn b s s'"
    unfolding mapped_def using g b0 ad' a(5) bm'(2) ad(2) in_blocks_of(1) [of _ s "iad i s"] by (auto simp: s'_def)
  moreover have "fs_frame s s'" using fs_frame_trans [OF fr fs_frame_upd] by (simp add: s'_def)
  ultimately show ?thesis using that [OF run] b(2,6,7) a(8) by (simp add: s'_def)
qed


lemma make_indirect:
  assumes tx: "tx_ok {} s" and geom: "fs_geom s" and sp: "space s A (Suc (Suc k))" and bm: "bitmap s \<subseteq> A" and i: "i < length (inodes s)"
    and ok: "map_ok s (iad i s)" and dv: "idev (inodes s ! i) = ldv s"
  obtains d t where "addr_or_alloc i NDIRECT s = Inr (d, t)" "tx_ok {} t" "fs_geom t" "fs_frame s t" "grown i s t" "iad i t ! NDIRECT = d"
    "d \<noteq> 0" "\<forall>m<MAXFILE. addr_of t (iad i t) m = addr_of s (iad i s) m"
    "\<forall>m<MAXFILE. addr_of s (iad i s) m \<noteq> 0 \<longrightarrow> content t (addr_of s (iad i s) m) = content s (addr_of s (iad i s) m)"
    "space t A (Suc (Suc k)) \<or> space t A (Suc k) \<and> d \<in> logged t"
proof (cases "iad i s ! NDIRECT = 0")
  case False
  then have "addr_or_alloc i NDIRECT s = Inr (iad i s ! NDIRECT, s)" by (simp add: addr_or_alloc_def)
  then show ?thesis by (rule that [OF _ tx geom _ grown_refl [OF i ok] refl False]) (use sp in simp_all)
next
  case z: True
  obtain b t where b: "balloc (ldv s) s = Inr (b, t)" "tx_ok {} t" "tx_frame s t" "allocated b s t" "keeps (ldv s) {} s t"
    "space t A (Suc k)" "fs_geom t" by (rule balloc_space [OF tx geom sp bm]) simp_all
  note a = allocatedD [OF geom b(4)] and ad = addr_of_allocated [OF geom b(4) ok] and mk = map_okD [OF ok]
  have fr: "fs_frame s t" by (rule fs_frame_tx [OF b(3)])
  have it: "inodes t = inodes s" "sb t = sb s" "home (slog t) = home (slog s)" using tx_frame_fs [OF b(3)] fs_frameD [OF fr] by simp_all
  define X where "X = (inodes s)[i := (inodes s ! i)\<lparr>iaddrs := (iad i s)[NDIRECT := b]\<rparr>]"
  define s' where "s' = t\<lparr>inodes := X\<rparr>"
  have run: "addr_or_alloc i NDIRECT s = Inr (b, s')"
    using b(1) z dv by (simp add: addr_or_alloc_def set_addr_def upd_inode_def s'_def X_def it)
  have ia: "iad i s' = (iad i s)[NDIRECT := b]" using i by (simp add: s'_def X_def)
  have us: "used s' x \<longleftrightarrow> x = b \<or> used s x" if "x < nblk s" for x using a(6) [OF that] by (simp add: s'_def)
  have e: "sb s' = sb s" "home (slog s') = home (slog s)" "content s' b = replicate BSIZE 0" using it a(5) by (simp_all add: s'_def)
  note mi = map_ok_indirect [OF ok z e(3) a(2,1,3,4) us e(1,2), folded ia]
  have g: "grown i s s'"
    by (rule grown_alloc [OF geom b(4) fr i ok _ _ mi(1,2)]) (simp_all add: ia, simp_all add: s'_def X_def fs_frame_upd)
  have b0: "b \<noteq> 0" using mk(3) a(2) by metis
  have ib: "iad i s' ! NDIRECT = b" using mk(1) by (simp add: ia)
  have ct: "content s' (addr_of s (iad i s) m) = content s (addr_of s (iad i s) m)" if "m < MAXFILE" "addr_of s (iad i s) m \<noteq> 0" for m
    using ad(2) [OF in_blocks_of(1) [OF that]] by (simp add: s'_def)
  have fr': "fs_frame s s'" using fs_frame_trans [OF fr fs_frame_upd] by (simp add: s'_def)
  show ?thesis by (rule that [OF run _ _ fr' g ib b0]) (use b(2,6,7) a(8) mi(3) ct in \<open>simp_all add: s'_def\<close>)
qed

text \<open>A new data block entered into the indirect block.\<close>

lemma bmap_entry:
  assumes tx: "tx_ok {} s" and geom: "fs_geom s" and bm: "bitmap s \<subseteq> A" and i: "i < length (inodes s)"
    and ok: "map_ok s (iad i s)" and d: "iad i s ! NDIRECT = d" "d \<noteq> 0" and bn: "\<not> bn < NDIRECT" "bn < MAXFILE" "addr_of s (iad i s) bn = 0"
    and sp: "space s A (Suc (Suc k)) \<or> space s A (Suc k) \<and> d \<in> logged s" and dv: "idev (inodes s ! i) = ldv s"
  obtains bp s1 a s2 s3 s' where "bread (ldv s) d s = Inr (bp, s1)" "bdata (bufs s1 ! bp) = content s d" "inodes s1 = inodes s"
    "balloc (ldv s) s1 = Inr (a, s2)"
    "log_write bp (set_data bp (put32 (bdata (bufs s2 ! bp)) (4 * (bn - NDIRECT)) (of_nat a)) s2) = Inr s3" "brelse bp s3 = Inr s'"
    "tx_ok {} s'" "fs_geom s'" "fs_frame s s'" "mapped i bn a s s'" "space s' A k" "a \<in> logged s'"
proof -
  note mk = map_okD [OF ok]
  have db: "d \<in> blocks_of s (iad i s)" using in_blocks_of(2) [of "iad i s" s] d by simp
  note dk = mk(4) [OF db]
  have ft: "fits s A (Suc k)" using sp by (auto simp: space_def intro: fits_mono)
  have n: "d \<notin> {}" "d < FSSIZE" "d \<in> logged s \<or> card (logged s \<union> {}) < NBUF"
    using dk fits_bufs [OF ft, of "{}"] by (auto simp: home_def)
  obtain bp s1 where r: "bread (ldv s) d s = Inr (bp, s1)" "tx_ok (insert d {}) s1" "is_cached (ldv s1) d s1 bp"
    "bdata (bufs s1 ! bp) = content s d" "content s1 = content s" "tx_frame s s1" "slog s1 = slog s"
    "keeps (ldv s) {} s s1" by (rule tx_bread [OF tx n])
  have e1: "sb s1 = sb s" "inodes s1 = inodes s" using tx_frame_fs [OF r(6)] by simp_all
  have u1: "used s1 = used s" "bitmap s1 = bitmap s" "blocks_of s1 = blocks_of s" "addr_of s1 = addr_of s"
    using r(5) e1 by (auto simp: used_def bitmap_def blocks_of_def addr_of_def intro!: ext)
  have geom1: "fs_geom s1" and ok1: "map_ok s1 (iad i s)" using geom ok by (simp_all add: fs_geom_def map_ok_def u1 e1 r(7))
  define j where "j = (if d \<in> logged s then k else Suc k)"
  have sp1: "space s1 A (Suc j)" using sp space_cong [OF r(7) e1(1) r(5)] by (auto simp: j_def intro: space_mono)
  obtain a s2 where b: "balloc (ldv s1) s1 = Inr (a, s2)" "tx_ok {d} s2" "tx_frame s1 s2" "allocated a s1 s2" "keeps (ldv s1) {d} s1 s2"
    "space s2 A j" "fs_geom s2" by (rule balloc_space [OF r(2) geom1 sp1]) (use bm dk u1 in auto)
  note al = allocatedD [OF geom1 b(4)] and ad = addr_of_allocated [OF geom1 b(4) ok1]
  have ic: "is_cached (ldv s2) d s2 bp" using keepsD [OF b(5) _ r(3)] tx_frameD(7) [OF b(3)] by simp
  have bd: "bdata (bufs s2 ! bp) = content s d"
    using held_buf(2) [OF _ ic, of "logged s2" "{d}"] b(2) ad(2) db by (simp add: tx_ok_def u1 r(5))
  let ?o = "4 * (bn - NDIRECT)"
  let ?e = "put32 (bdata (bufs s2 ! bp)) ?o (of_nat a)"
  have lb: "length (content s d) = BSIZE" using tx by (auto simp: tx_ok_def dest: length_blk)
  have off: "?o + 4 \<le> BSIZE" by (rule MAXFILE_off [OF bn(2)])
  then have le: "length ?e = BSIZE" using lb bd by simp
  let ?s3 = "set_data bp ?e s2"
  note sd = tx_set_data [OF b(2) ic singletonI le]
  have fd: "fits ?s3 A j" using b(6) sd(6) fits_slog [of ?s3 s2] by (simp add: space_def)
  have hd: "home (slog ?s3) d" using dk r(7) tx_frameD(12) [OF b(3)] sd(6) by simp
  obtain s3 where w: "log_write bp ?s3 = Inr s3" "tx_ok {d} s3" "is_cached (ldv s3) d s3 bp" "content s3 = content ?s3"
    "bdata (bufs s3 ! bp) = bdata (bufs ?s3 ! bp)" "tx_frame ?s3 s3" "logged s3 = insert d (logged ?s3)" "keeps (ldv ?s3) {d} ?s3 s3"
    by (rule tx_log_write [OF sd(1,2) singletonI hd fits_room [OF fd]])
  obtain s' where f: "brelse bp s3 = Inr s'" "tx_ok ({d} - {d}) s'" "content s' = content s3" "tx_frame s3 s'" "slog s' = slog s3"
    "keeps (ldv s3) {d} s3 s'" by (rule tx_brelse [OF w(2,3) singletonI]) (use w(7) in simp_all)
  have ct: "content s' = (content s2)(d := put32 (content s d) ?o (of_nat a))" using f(3) w(4) sd(3) bd by simp
  have fr2: "tx_frame s2 s'" using tx_frame_trans [OF sd(5)] tx_frame_trans [OF w(6) f(4)] by simp
  have fr: "tx_frame s s'" using tx_frame_trans [OF r(6) tx_frame_trans [OF b(3) fr2]] .
  have e: "sb s' = sb s" "inodes s' = inodes s" using tx_frame_fs [OF fr] by simp_all
  have lg: "logged s' = insert d (logged s2)" using f(5) w(7) sd(6) tx_frame_logged [of s' s3] tx_frame_logged [of ?s3 s2] by simp
  have "d \<in> logged s2 \<or> j = Suc k" using al(9) r(7) by (auto simp: j_def tx_frame_logged [of s1 s])
  then have fk: "fits s' A k"
    using fits_insert [OF _ fr2 lg, of A j k] b(6) fits_mono [of s2 A j k] by (auto simp: space_def j_def)
  have da: "d \<noteq> a" using al(2) dk u1 by auto
  have us: "used s' x = used s2 x" if "x < nblk s" for x
    using BBLOCK_in [OF that] dk ct e tx_frame_fs [OF b(3)] e1 by (intro used_cong) auto
  have "free_blocks s' = free_blocks s2" using us e tx_frame_fs [OF b(3)] e1 by (auto simp: free_blocks_def)
  then have spk: "space s' A k" using fk b(6) by (auto simp: space_def j_def split: if_splits)
  have us': "used s' x \<longleftrightarrow> x = a \<or> used s x" if "x < nblk s" for x using us [OF that] al(6) that u1 e1 by simp
  have geom': "fs_geom s'"
    using b(7) us e e1 tx_frame_fs [OF b(3)] tx_frameD(12) [OF fr2] by (auto simp: fs_geom_def bitmap_def)
  have ua: "unat (of_nat a :: u32) = a" using al(1) geom1 by (simp add: fs_geom_def FSSIZE_def unat_of_nat)
  have ad': "addr_of s' (iad i s) m = (if m = bn then a else addr_of s (iad i s) m)" if "m < MAXFILE" for m
  proof (cases "m < NDIRECT")
    case True
    then show ?thesis using bn(1) by (auto simp: addr_of_def)
  next
    case False
    have "?o + 4 \<le> 4 * (m - NDIRECT) \<or> 4 * (m - NDIRECT) + 4 \<le> ?o" if "m \<noteq> bn" using that bn(1) False by auto
    then show ?thesis
      using False d MAXFILE_off [OF that] off lb ua bn(1) by (auto simp: addr_of_def ct get32_put32_same get32_put32_other)
  qed
  have hm: "home (slog s') = home (slog s)" by (rule tx_frameD(12) [OF fr])
  have len: "length (iad i s) = NDIRECT + 1" by (rule mk(1))
  have af: "\<not> used s a" "a < nblk s" "home (slog s) a" "a \<notin> bitmap s" using al(1-4) u1 e1 r(7) by simp_all
  note mi = map_ok_insert [OF ok len refl ad' bn(2,3) af us' e(1) hm]
  have g: "grown i s s'" unfolding grown_def e(2)
  proof (intro conjI allI impI)
    show "used s' x \<longleftrightarrow> used s x \<or> x \<in> blocks_of s' (iad i s)" if "x < nblk s" for x
      using us' [OF that] mk(4) [of x] by (auto simp: mi(2))
    show "content s' n = content s n" if "n \<notin> bitmap s \<and> n \<notin> free_blocks s \<and> n \<notin> blocks_of s (iad i s)" for n
      using that db af al(7) [of n] u1 r(5) by (auto simp: ct free_blocks_def)
    show "blocks_of s' (iad i s) - blocks_of s (iad i s) \<subseteq> free_blocks s" using af by (auto simp: mi(2) free_blocks_def)
  qed (use i mi in auto)
  have a0: "a \<noteq> 0" using mk(3) af by metis
  have dc: "content s' (addr_of s (iad i s) m) = content s (addr_of s (iad i s) m)" if "m < MAXFILE" "addr_of s (iad i s) m \<noteq> 0" for m
    using ad(2) [of "addr_of s (iad i s) m"] in_blocks_of(1) [OF that] mk(5) [OF that] d(1) by (simp add: ct u1 r(5))
  have mp: "mapped i bn a s s'" unfolding mapped_def e(2) using g a0 ad' bn(3) dc al(5) da by (simp add: ct)
  have la: "a \<in> logged s'" using al(8) lg by simp
  show ?thesis
    by (rule that [OF r(1,4) e1(2) _ w(1) f(1) _ geom' fs_frame_tx [OF fr] mp spk la]) (use b(1) r(7) f(2) in simp_all)
qed


lemma same_content:
  assumes "tx_frame s s'" "content s' = content s"
  shows "sb s' = sb s" "inodes s' = inodes s" "used s' = used s" "bitmap s' = bitmap s" "addr_of s' = addr_of s" "blocks_of s' = blocks_of s"
    "map_ok s' = map_ok s" "fs_geom s' = fs_geom s" "free_blocks s' = free_blocks s"
proof -
  show e: "sb s' = sb s" "inodes s' = inodes s" using tx_frame_fs [OF assms(1)] by simp_all
  show u: "used s' = used s" "bitmap s' = bitmap s" and ad: "addr_of s' = addr_of s"
    using assms(2) by (auto simp: used_def bitmap_def addr_of_def e intro!: ext)
  then show b: "blocks_of s' = blocks_of s" by (auto simp: blocks_of_def intro!: ext)
  show "map_ok s' = map_ok s" "fs_geom s' = fs_geom s" "free_blocks s' = free_blocks s"
    using tx_frameD(12) [OF assms(1)] by (auto simp: map_ok_def fs_geom_def free_blocks_def u ad b e intro!: ext)
qed

lemma mapped_present:
  assumes "tx_frame s s'" "content s' = content s" "i < length (inodes s)" "map_ok s (iad i s)" "addr_of s (iad i s) bn \<noteq> 0"
  shows "mapped i bn (addr_of s (iad i s) bn) s s'"
proof -
  note e = same_content [OF assms(1,2)]
  have "grown i s s'" using grown_refl [OF assms(3,4)] by (simp add: grown_def e assms(2))
  then show ?thesis using assms by (simp add: mapped_def e)
qed

lemma mapped_trans:
  assumes g: "grown i s t" "fs_frame s t" and m: "mapped i bn a t u" and bn: "bn < MAXFILE" "addr_of s (iad i s) bn = 0"
    and ad: "\<And>m. m < MAXFILE \<Longrightarrow> addr_of t (iad i t) m = addr_of s (iad i s) m"
    and ct: "\<And>m. m < MAXFILE \<Longrightarrow> addr_of s (iad i s) m \<noteq> 0 \<Longrightarrow> content t (addr_of s (iad i s) m) = content s (addr_of s (iad i s) m)"
  shows "mapped i bn a s u"
proof -
  have "grown i t u" using m by (simp add: mapped_def)
  then have "grown i s u" by (rule grown_trans [OF g(1) _ g(2)])
  then show ?thesis using m ad ct bn unfolding mapped_def by auto
qed

lemma bmap_spec:
  assumes tx: "tx_ok {} s" and geom: "fs_geom s" and sp: "space s A (Suc (Suc k))" and bm: "bitmap s \<subseteq> A" and i: "i < length (inodes s)"
    and ok: "map_ok s (iad i s)" and dv: "idev (inodes s ! i) = ldv s" and bn: "bn < MAXFILE"
  obtains a s' where "bmap i bn s = Inr (a, s')" "tx_ok {} s'" "fs_geom s'" "fs_frame s s'" "mapped i bn a s s'"
    "space s' A (Suc k) \<or> space s' A k \<and> a \<in> logged s'"
proof -
  have ft: "fits s A (Suc (Suc k))" using sp by (simp add: space_def)
  then have c: "card (logged s) < NBUF" using fits_bufs [OF ft, of "{}"] by simp
  consider "addr_of s (iad i s) bn \<noteq> 0" | "addr_of s (iad i s) bn = 0" "bn < NDIRECT" | "addr_of s (iad i s) bn = 0" "\<not> bn < NDIRECT" by blast
  then show ?thesis
  proof cases
    case 1
    obtain s' where s': "bmap i bn s = Inr (addr_of s (iad i s) bn, s')" "tx_ok {} s'" "content s' = content s" "tx_frame s s'"
      "slog s' = slog s" by (rule bmap_present [OF tx c ok dv bn 1])
    note e = same_content [OF s'(4,3)]
    have "space s' A (Suc k)" using space_cong [OF s'(5) e(1) s'(3)] space_mono [OF sp] by simp
    then show ?thesis
      by (intro that [OF s'(1,2) _ fs_frame_tx [OF s'(4)] mapped_present [OF s'(4,3) i ok 1]]) (use geom e in simp_all)
  next
    case 2
    then have "iad i s ! bn = 0" by (simp add: addr_of_def)
    then obtain a s' where "bmap i bn s = Inr (a, s')" "tx_ok {} s'" "fs_geom s'" "fs_frame s s'" "mapped i bn a s s'" "space s' A (Suc k)"
      "a \<in> logged s'" by (rule bmap_direct [OF tx geom sp bm i ok dv 2(2)])
    then show ?thesis by (intro that [of a s'] disjI1)
  next
    case 3
    obtain d t where t: "addr_or_alloc i NDIRECT s = Inr (d, t)" "tx_ok {} t" "fs_geom t" "fs_frame s t" "grown i s t" "iad i t ! NDIRECT = d"
      "d \<noteq> 0" "\<forall>m<MAXFILE. addr_of t (iad i t) m = addr_of s (iad i s) m"
      "\<forall>m<MAXFILE. addr_of s (iad i s) m \<noteq> 0 \<longrightarrow> content t (addr_of s (iad i s) m) = content s (addr_of s (iad i s) m)"
      "space t A (Suc (Suc k)) \<or> space t A (Suc k) \<and> d \<in> logged t"
      by (rule make_indirect [OF tx geom sp bm i ok dv])
    note g = grownD [OF t(5)] and f = fs_frameD [OF t(4)]
    have it: "i < length (inodes t)" "idev (inodes t ! i) = ldv t" "bitmap t \<subseteq> A" "addr_of t (iad i t) bn = 0"
      using i dv bm 3 t(8) [rule_format, OF bn] grown_inode [OF t(5)] by (simp_all add: f)
    obtain bp s1 a s2 s3 s' where e: "bread (ldv t) d t = Inr (bp, s1)" "bdata (bufs s1 ! bp) = content t d" "inodes s1 = inodes t"
      "balloc (ldv t) s1 = Inr (a, s2)"
      "log_write bp (set_data bp (put32 (bdata (bufs s2 ! bp)) (4 * (bn - NDIRECT)) (of_nat a)) s2) = Inr s3" "brelse bp s3 = Inr s'"
      "tx_ok {} s'" "fs_geom s'" "fs_frame t s'" "mapped i bn a t s'" "space s' A k" "a \<in> logged s'"
      by (rule bmap_entry [OF t(2,3) it(3,1) g(3) t(6,7) 3(2) bn it(4) t(10) it(2)])
    have "bn - NDIRECT < NINDIRECT" using bn 3(2) by (simp add: MAXFILE_def)
    moreover have "unat (get32 (content t d) (4 * (bn - NDIRECT))) = 0" using it(4) 3(2) t(6,7) by (simp add: addr_of_def)
    ultimately have "bmap i bn s = Inr (a, s')" using 3(2) t(1) e(1-6) it(2) by (simp add: bmap_def Let_def)
    then show ?thesis
      by (rule that [OF _ e(7,8) fs_frame_trans [OF t(4) e(9)] mapped_trans [OF t(5,4) e(10) bn 3(1) t(8,9) [rule_format]] disjI2 [OF conjI [OF e(11,12)]]])
  qed
qed

section \<open>Files as byte arrays\<close>

definition fbyte :: "'a lstate_scheme \<Rightarrow> nat list \<Rightarrow> nat \<Rightarrow> byte" where
  "fbyte s as k = content s (addr_of s as (k div BSIZE)) ! (k mod BSIZE)"

abbreviation isz :: "nat \<Rightarrow> 'a fsstate_scheme \<Rightarrow> nat" where
  "isz i s \<equiv> isize (inodes s ! i)"

definition file_bytes :: "'a fsstate_scheme \<Rightarrow> nat \<Rightarrow> byte list" where
  "file_bytes s i = map (fbyte s (iad i s)) [0..<isz i s]"

text \<open>A cached inode whose bytes are all in blocks, and whose place on the disk is in a used block of its own kind.\<close>

definition file_ok :: "'a fsstate_scheme \<Rightarrow> nat \<Rightarrow> bool" where
  "file_ok s i \<longleftrightarrow> i < length (inodes s) \<and> idev (inodes s ! i) = ldv s \<and> map_ok s (iad i s) \<and> isz i s \<le> MAXFILE * BSIZE \<and>
     (\<forall>m. m * BSIZE < isz i s \<longrightarrow> addr_of s (iad i s) m \<noteq> 0)"

lemma file_okD:
  assumes "file_ok s i"
  shows "i < length (inodes s)" "idev (inodes s ! i) = ldv s" "map_ok s (iad i s)" "isz i s \<le> MAXFILE * BSIZE"
    "\<And>k. k < isz i s \<Longrightarrow> addr_of s (iad i s) (k div BSIZE) \<noteq> 0" "\<And>k. k < isz i s \<Longrightarrow> k div BSIZE < MAXFILE"
proof -
  show "i < length (inodes s)" "idev (inodes s ! i) = ldv s" "map_ok s (iad i s)" "isz i s \<le> MAXFILE * BSIZE"
    using assms by (simp_all add: file_ok_def)
  fix k assume k: "k < isz i s"
  have "k div BSIZE * BSIZE < isz i s" using k div_times_less_eq_dividend le_less_trans by blast
  then show "addr_of s (iad i s) (k div BSIZE) \<noteq> 0" using assms unfolding file_ok_def by blast
  have "k < MAXFILE * BSIZE" using assms k by (simp add: file_ok_def)
  then show "k div BSIZE < MAXFILE" by (rule less_mult_imp_div_less)
qed


section \<open>Reading\<close>

lemma pmem_upd [simp]:
  "blk dv (s\<lparr>pmem := m\<rparr>) = blk dv s" "tx_ok H (s\<lparr>pmem := m\<rparr>) = tx_ok H s" "logged_list (s\<lparr>pmem := m\<rparr>) = logged_list s"
  "is_cached dv n (s\<lparr>pmem := m\<rparr>) b = is_cached dv n s b"
proof -
  let ?t = "s\<lparr>pmem := m\<rparr>"
  show bl: "blk dv ?t = blk dv s" for dv by (rule blk_cong) simp_all
  show lg: "logged_list ?t = logged_list s" by (simp add: logged_list_def)
  have "cache_ok dv L H ?t = cache_ok dv L H s" for dv L H by (rule cache_ok_cong) (simp_all add: mypid_def myproc_def)
  then show "tx_ok H ?t = tx_ok H s" by (simp add: tx_ok_def log_inv_def lg)
  show "is_cached dv n ?t b = is_cached dv n s b" by (simp add: is_cached_def)
qed

text \<open>A read changes the buffers it passes through and the memory it copies to.\<close>

definition mem_frame :: "'a lstate_scheme \<Rightarrow> 'a lstate_scheme \<Rightarrow> bool" where
  "mem_frame s s' \<longleftrightarrow> tx_frame s (s'\<lparr>pmem := pmem s\<rparr>)"

lemma tx_frame_pmem: "tx_frame s t \<Longrightarrow> tx_frame (s\<lparr>pmem := m\<rparr>) (t\<lparr>pmem := m\<rparr>)"
proof -
  assume a: "tx_frame s t"
  then obtain B P Q where e: "t = s\<lparr>bufs := B, procs := P, slog := Q\<rparr>" unfolding tx_frame_def by blast
  have "t\<lparr>pmem := m\<rparr> = (s\<lparr>pmem := m\<rparr>)\<lparr>bufs := B, procs := P, slog := Q\<rparr>" unfolding e by (cases s) simp
  then show ?thesis using a e by (simp add: tx_frame_def)
qed

lemma mem_frame_trans [trans]: "mem_frame s t \<Longrightarrow> mem_frame t u \<Longrightarrow> mem_frame s u"
  using tx_frame_pmem [of t "u\<lparr>pmem := pmem t\<rparr>" "pmem s"] by (auto simp: mem_frame_def intro: tx_frame_trans)

lemma mem_frame_tx: "tx_frame s s' \<Longrightarrow> mem_frame s s'"
proof -
  assume a: "tx_frame s s'"
  have "s'\<lparr>pmem := pmem s\<rparr> = s'" using tx_frameD(4) [OF a] by (cases s', cases s) simp
  then show ?thesis using a by (simp add: mem_frame_def)
qed

lemma mem_frame_upd: "mem_frame s (s\<lparr>pmem := m\<rparr>)"
  by (simp add: mem_frame_def)

lemma mem_frameD:
  assumes "mem_frame s (s' :: 'a fsstate_scheme)"
  shows "inodes s' = inodes s" "sb s' = sb s" "disk s' = disk s" "ldv s' = ldv s" "home (slog s') = home (slog s)" "my_pt s' = my_pt s"
  using tx_frame_fs [OF assms [unfolded mem_frame_def]] tx_frameD [OF assms [unfolded mem_frame_def]] by (simp_all add: myproc_def)

lemma file_ok_same:
  assumes "mem_frame s s'" "content s' = content s"
  shows "file_ok s' i = file_ok s i" "fbyte s' = fbyte s"
proof -
  note e = same_content [OF assms(1) [unfolded mem_frame_def]]
  have c: "content (s'\<lparr>pmem := pmem s\<rparr>) = content s" using assms(2) by simp
  have ad: "addr_of s' = addr_of s" using assms(2) by (intro ext) (simp add: addr_of_def)
  then show "fbyte s' = fbyte s" using assms(2) by (intro ext) (simp add: fbyte_def)
  have us: "used s' = used s" "bitmap s' = bitmap s" "blocks_of s' = blocks_of s"
    using assms(2) mem_frameD [OF assms(1)] by (auto simp: used_def bitmap_def blocks_of_def ad intro!: ext)
  then show "file_ok s' i = file_ok s i" using mem_frameD [OF assms(1)] by (simp add: file_ok_def map_ok_def ad)
qed

lemma block_offset:
  fixes B :: nat
  assumes "off mod B + j < B"
  shows "(off + j) div B = off div B" "(off + j) mod B = off mod B + j"
proof -
  have "off + j = (off mod B + j) + off div B * B" by (metis add.commute add.left_commute div_mult_mod_eq)
  then show "(off + j) div B = off div B" "(off + j) mod B = off mod B + j"
    using assms by (simp_all only: div_mult_self1 mod_mult_self1) simp_all
qed

lemma chunk_bytes:
  assumes "length (content s (addr_of s as (off div BSIZE))) = BSIZE" "m \<le> BSIZE - off mod BSIZE"
  shows "slice (off mod BSIZE) m (content s (addr_of s as (off div BSIZE))) = map (fbyte s as) [off..<off + m]"
proof (rule nth_equalityI)
  have o: "off mod BSIZE < BSIZE" by (simp add: BSIZE_def)
  then have le: "off mod BSIZE + m \<le> BSIZE" using assms(2) by simp
  then show "length (slice (off mod BSIZE) m (content s (addr_of s as (off div BSIZE)))) = length (map (fbyte s as) [off..<off + m])"
    using assms(1) by simp
  fix j assume "j < length (slice (off mod BSIZE) m (content s (addr_of s as (off div BSIZE))))"
  then have j: "j < m" using le assms(1) by simp
  then have "off mod BSIZE + j < BSIZE" using le by simp
  note block_offset [OF this]
  then show "slice (off mod BSIZE) m (content s (addr_of s as (off div BSIZE))) ! j = map (fbyte s as) [off..<off + m] ! j"
    using j le assms(1) by (simp add: nth_slice fbyte_def)
qed

text \<open>Where \<open>readi\<close> delivers: \<open>Q ds s\<close> says that the bytes \<open>ds\<close> have arrived in \<open>s\<close>.\<close>

locale copy_sink =
  fixes dst :: copy_dst and lim :: nat and Q :: "byte list \<Rightarrow> 'a fsstate_scheme \<Rightarrow> bool"
  assumes deliver: "Q ds s \<Longrightarrow> length ds + length d \<le> lim \<Longrightarrow>
      \<exists>m. readi_copy dst (length ds) d s = Inr (0, s\<lparr>pmem := m\<rparr>) \<and> Q (ds @ d) (s\<lparr>pmem := m\<rparr>)"
    and frame: "Q ds s \<Longrightarrow> tx_frame s s' \<Longrightarrow> Q ds s'"
begin

lemma readi_loop_delivers:
  assumes "tx_ok {} s" "card (logged s) < NBUF" "file_ok s i" "Q ds s" "length ds \<le> n" "n \<le> lim" "off + (n - length ds) \<le> isz i s"
  shows "\<exists>s'. readi_loop i dst off (length ds) n s = Inr (int n, map (fbyte s (iad i s)) [off..<off + (n - length ds)], s') \<and>
    Q (ds @ map (fbyte s (iad i s)) [off..<off + (n - length ds)]) s' \<and> tx_ok {} s' \<and> content s' = content s \<and> slog s' = slog s \<and> mem_frame s s'"
  using assms
proof (induction "n - length ds" arbitrary: ds off s rule: less_induct)
  case less
  note tx = less.prems(1) and c = less.prems(2) and fk = less.prems(3)
  show ?case
  proof (cases "length ds < n")
    case False
    then show ?thesis using less.prems by (intro exI [of _ s]) (simp add: readi_loop.simps mem_frame_tx)
  next
    case True
    let ?as = "iad i s" and ?a = "addr_of s (iad i s) (off div BSIZE)"
    define m where "m = min (n - length ds) (BSIZE - off mod BSIZE)"
    have m: "0 < m" "m \<le> n - length ds" "m \<le> BSIZE - off mod BSIZE" using True by (auto simp: m_def BSIZE_def)
    have off: "off < isz i s" using less.prems(7) True by simp
    note fo = file_okD [OF fk]
    have bn: "off div BSIZE < MAXFILE" "?a \<noteq> 0" using fo(5,6) off by simp_all
    obtain s1 where s1: "bmap i (off div BSIZE) s = Inr (?a, s1)" "tx_ok {} s1" "content s1 = content s" "tx_frame s s1"
      "slog s1 = slog s" by (rule bmap_present [OF tx c fo(3,2) bn])
    have e1: "inodes s1 = inodes s" using tx_frame_fs [OF s1(4)] by simp
    have a: "?a \<notin> {}" "?a < FSSIZE" "?a \<in> logged s1 \<or> card (logged s1 \<union> {}) < NBUF"
      using map_okD(4) [OF fo(3) in_blocks_of(1) [OF bn]] c tx_frame_logged [OF s1(5)] by (auto simp: home_def)
    obtain bp t where t: "bread (ldv s1) ?a s1 = Inr (bp, t)" "tx_ok (insert ?a {}) t" "is_cached (ldv t) ?a t bp"
      "bdata (bufs t ! bp) = content s1 ?a" "content t = content s1" "tx_frame s1 t" "slog t = slog s1"
      "keeps (ldv s1) {} s1 t" by (rule tx_bread [OF s1(2) a])
    define d where "d = slice (off mod BSIZE) m (content s ?a)"
    have lb: "length (content s ?a) = BSIZE" using tx by (auto simp: tx_ok_def dest: length_blk)
    have d: "d = map (fbyte s ?as) [off..<off + m]" "length d = m" using chunk_bytes [OF lb m(3)] by (simp_all add: d_def)
    have le: "length ds + length d \<le> lim" using d(2) m(2) less.prems(5,6) by linarith
    have "Q ds t" using frame [OF frame [OF less.prems(4) s1(4)] t(6)] .
    then obtain pm where pm: "readi_copy dst (length ds) d t = Inr (0, t\<lparr>pmem := pm\<rparr>)" "Q (ds @ d) (t\<lparr>pmem := pm\<rparr>)"
      using deliver [of ds t d] le by blast
    let ?u = "t\<lparr>pmem := pm\<rparr>"
    have cl: "?a \<in> logged ?u \<or> content ?u ?a = disk ?u ?a"
      using tx blk_clean [of "ldv s" "logged s" "{}" s ?a] s1(3,5) t(5,7) tx_frameD(1) [OF s1(4)] tx_frameD(1) [OF t(6)]
        tx_frame_logged [OF s1(5)] tx_frame_logged [OF t(7)] by (auto simp: tx_ok_def)
    have u: "tx_ok (insert ?a {}) ?u" "is_cached (ldv ?u) ?a ?u bp" using t(2,3) by simp_all
    obtain w where w: "brelse bp ?u = Inr w" "tx_ok (insert ?a {} - {?a}) w" "content w = content ?u" "tx_frame ?u w" "slog w = slog ?u"
      "keeps (ldv ?u) (insert ?a {}) ?u w" by (rule tx_brelse [OF u insertI1 cl])
    have mf: "mem_frame s w"
      using mem_frame_trans [OF mem_frame_tx [OF tx_frame_trans [OF s1(4) t(6)]] mem_frame_trans [OF mem_frame_upd mem_frame_tx [OF w(4)]]] .
    have cw: "content w = content s" "slog w = slog s" using w(3,5) t(5,7) s1(3,5) by simp_all
    note fs = file_ok_same [OF mf cw(1)] and ew = mem_frameD [OF mf]
    have l: "length (ds @ d) = length ds + m" using d(2) by simp
    have sub: "n - (length ds + m) < n - length ds" "length ds + m \<le> n" "off + m + (n - (length ds + m)) \<le> isz i w"
      using m(1,2) less.prems(5,7) True unfolding ew(1) by linarith+
    have pre: "card (logged w) < NBUF" "file_ok w i" "tx_ok {} w" using c fk fs(1) w(2) tx_frame_logged [OF cw(2)] by simp_all
    note ih = less.hyps [of "ds @ d" w "off + m", unfolded l, OF sub(1) pre(3,1,2) frame [OF pm(2) w(4)] sub(2) less.prems(6) sub(3)]
    obtain s' where s': "readi_loop i dst (off + m) (length ds + m) n w =
        Inr (int n, map (fbyte w (iad i w)) [off + m..<off + m + (n - (length ds + m))], s')"
      "Q ((ds @ d) @ map (fbyte w (iad i w)) [off + m..<off + m + (n - (length ds + m))]) s'" "tx_ok {} s'" "content s' = content w"
      "slog s' = slog w" "mem_frame w s'"
      using ih by blast
    have up: "[off..<off + (n - length ds)] = [off..<off + m] @ [off + m..<off + m + (n - (length ds + m))]"
    proof -
      have "off + (n - length ds) = off + m + (n - (length ds + m))" using m(2) by simp
      then show ?thesis using upt_add_eq_append [of off "off + m" "n - (length ds + m)"] by (simp only:)
    qed
    have dv: "idev (inodes s1 ! i) = ldv s1" using fo(2) e1 s1(5) by simp
    have "readi_loop i dst off (length ds) n s = Inr (int n, map (fbyte s ?as) [off..<off + (n - length ds)], s')"
      using True s1(1) t(1,4) s1(3) dv pm(1) w(1) s'(1) d(1) unfolding up fs(2) ew(1)
      by (subst readi_loop.simps) (simp add: Let_def m_def [symmetric] d_def [symmetric])
    then show ?thesis using s'(2-6) cw mem_frame_trans [OF mf s'(6)] d(1) unfolding up fs(2) ew(1) by auto
  qed
qed

end


text \<open>A kernel caller takes the bytes from the result; memory is untouched.\<close>

interpretation kernel_sink: copy_sink Kernel_dst lim "\<lambda>ds s. pmem s = M" for lim M
proof
  show "\<exists>m. readi_copy Kernel_dst (length ds) d s = Inr (0, s\<lparr>pmem := m\<rparr>) \<and> pmem (s\<lparr>pmem := m\<rparr>) = M"
    if "pmem s = M" for ds d and s :: "'a fsstate_scheme"
    by (rule exI [of _ "pmem s"]) (use that in \<open>cases s; simp add: readi_copy_def\<close>)
qed (simp add: tx_frameD)

text \<open>A user buffer at \<open>va\<close> that holds \<open>ds\<close>, the rest of the user's memory being as \<open>U\<close> says.\<close>

definition user_holds ::
  "u64 \<Rightarrow> nat \<Rightarrow> u64 \<Rightarrow> nat set \<Rightarrow> u64 list \<Rightarrow> (nat \<Rightarrow> byte) \<Rightarrow> byte list \<Rightarrow> 'a pstate_scheme \<Rightarrow> bool" where
  "user_holds va lim root D ps U ds s \<longleftrightarrow> my_pt s = root \<and> user_inv s root D ps \<and> user_range s root (unat va) lim \<and>
     (\<forall>y. y div 4096 \<in> D \<longrightarrow> umem s root y = (if unat va \<le> y \<and> y < unat va + length ds then ds ! (y - unat va) else U y))"

lemma user_range_addr:
  assumes "user_range s root (unat (va :: u64)) n" "k \<le> n"
  shows "unat (va + of_nat k) = unat va + k"
proof (cases "k = 0")
  case False
  then have "unat va + (k - 1) \<in> {unat va..<unat va + n}" using assms(2) by auto
  then have "user_page s root ((unat va + (k - 1)) div 4096)" using assms(1) unfolding user_range_def by blast
  then have "(unat va + (k - 1)) div 4096 < 256" by (simp add: user_page_def)
  then have "unat va + k \<le> 2 ^ 20" using False by simp
  then show ?thesis by (simp add: unat_word_ariths unat_of_nat)
qed simp

interpretation user_sink: copy_sink "User_dst va" lim "user_holds va lim root D ps U" for va lim root D ps U
proof
  fix ds d :: "byte list" and s :: "'a fsstate_scheme"
  assume q: "user_holds va lim root D ps U ds s" and le: "length ds + length d \<le> lim"
  note h = q [unfolded user_holds_def]
  have ad: "unat (va + of_nat (length ds)) = unat va + length ds" using user_range_addr [of s root va lim] h le by simp
  have r: "user_range s root (unat (va + of_nat (length ds))) (length d)"
    using h le unfolding ad user_range_def by auto
  obtain u where u: "copyout root (va + of_nat (length ds)) d s = Inr (0, u)" "user_written root D ps s u"
    "\<forall>y. y div 4096 \<in> D \<longrightarrow> umem u root y = (if unat va + length ds \<le> y \<and> y < unat va + length ds + length d
       then d ! (y - (unat va + length ds)) else umem s root y)"
    using copyout_spec [of s root D ps "va + of_nat (length ds)" d] h r unfolding ad by auto
  have fr: "kmem.more u = kmem.more s" "freelist u = freelist s" using copyout_frame [OF u(1)] by simp_all
  then have ue: "u = s\<lparr>pmem := pmem u\<rparr>" by (cases u; cases s; simp)
  have "user_holds va lim root D ps U (ds @ d) u"
    unfolding user_holds_def
  proof (intro conjI allI impI)
    show "my_pt u = root" using more_frame [OF fr(1)] h by simp
    show "user_inv u root D ps" using u(2) by (simp add: user_written_def)
    show "user_range u root (unat va) lim" using h user_page_written [OF u(2)] by (simp add: user_range_def)
    fix y
    assume y: "y div 4096 \<in> D"
    then show "umem u root y = (if unat va \<le> y \<and> y < unat va + length (ds @ d) then (ds @ d) ! (y - unat va) else U y)"
      using u(3) h by (auto simp: nth_append)
  qed
  then show "\<exists>m. readi_copy (User_dst va) (length ds) d s = Inr (0, s\<lparr>pmem := m\<rparr>) \<and> user_holds va lim root D ps U (ds @ d) (s\<lparr>pmem := m\<rparr>)"
    using u(1) ue h by (intro exI [of _ "pmem u"]) (simp add: readi_copy_def either_copyout_def)
next
  fix ds :: "byte list" and s s' :: "'a fsstate_scheme"
  assume "user_holds va lim root D ps U ds s" and f: "tx_frame s s'"
  then show "user_holds va lim root D ps U ds s'"
    using user_inv_cong [of s' s root D ps] umem_cong [of s' s root] user_page_cong [of s' s root] tx_frameD [OF f]
    by (simp add: user_holds_def user_range_def)
qed

lemma file_bytes_segment:
  assumes "off \<le> isz i s"
  shows "map (fbyte s (iad i s)) [off..<off + min n (isz i s - off)] = take n (drop off (file_bytes s i))"
proof -
  have "drop off (file_bytes s i) = map (fbyte s (iad i s)) [off..<isz i s]" by (simp add: file_bytes_def drop_map)
  moreover have "take n [off..<isz i s] = [off..<off + min n (isz i s - off)]" using assms by (auto simp: min_def take_upt)
  ultimately show ?thesis by (simp add: take_map)
qed

lemma length_file_bytes [simp]: "length (file_bytes s i) = isz i s"
  by (simp add: file_bytes_def)

lemma readi_len:
  assumes "file_ok s i" "off \<le> isz i s" "off + n < 2 ^ 32"
  shows "readi i dst off n s = readi_loop i dst off 0 (min n (isz i s - off)) s"
  using assms by (auto simp: readi_def Let_def min_def)

lemma readi_kernel:
  assumes tx: "tx_ok {} s" "card (logged s) < NBUF" and ok: "file_ok s i" and off: "off \<le> isz i s" "off + n < 2 ^ 32"
  obtains s' where "readi i Kernel_dst off n s = Inr (int (min n (isz i s - off)), take n (drop off (file_bytes s i)), s')"
    "tx_ok {} s'" "content s' = content s" "slog s' = slog s" "mem_frame s s'" "pmem s' = pmem s"
proof -
  have le: "off + (min n (isz i s - off) - length ([] :: byte list)) \<le> isz i s" using off(1) by simp
  show ?thesis
    using kernel_sink.readi_loop_delivers [OF tx ok refl _ order_refl le] that
    unfolding readi_len [OF ok off] file_bytes_segment [OF off(1), symmetric] by auto
qed


section \<open>Writing\<close>

text \<open>The source holds the bytes \<open>d\<close>, and keeps holding them while the file system works.\<close>

definition copies :: "copy_src \<Rightarrow> byte list \<Rightarrow> 'a pstate_scheme \<Rightarrow> bool" where
  "copies src d s \<longleftrightarrow> (\<forall>t m. t + m \<le> length d \<longrightarrow> writei_copy src t m s = Inr (0, slice t m d))"

lemma kernel_copies: "copies (Kernel_src d) d s"
  by (simp add: copies_def writei_copy_def)

lemma user_copies:
  assumes "user_inv s (my_pt s) D ps" "user_range s (my_pt s) (unat va) n"
  shows "copies (User_src va) (map (umem s (my_pt s)) [unat va..<unat va + n]) s"
  unfolding copies_def
proof (intro allI impI)
  fix t m
  assume "t + m \<le> length (map (umem s (my_pt s)) [unat va..<unat va + n])"
  then have le: "t + m \<le> n" by simp
  have ad: "unat (va + of_nat t) = unat va + t" using user_range_addr [OF assms(2)] le by simp
  have r: "user_range s (my_pt s) (unat va + t) m" using assms(2) le by (auto simp: user_range_def)
  have "copyin (my_pt s) (va + of_nat t) m s = Inr (0, map (umem s (my_pt s)) [unat va + t..<unat va + t + m])"
    using copyin_spec [OF assms(1), of "va + of_nat t" m] r unfolding ad by auto
  then show "writei_copy (User_src va) t m s = Inr (0, slice t m (map (umem s (my_pt s)) [unat va..<unat va + n]))"
    using le by (simp add: writei_copy_def either_copyin_def slice_def drop_map take_map take_upt)
qed

lemma copies_cong:
  assumes "copies src d s" "pmem s' = pmem s" "my_pt s' = my_pt s"
  shows "copies src d s'"
proof -
  have "writei_copy src t m s' = writei_copy src t m s" for t m
    using copyin_cong [OF assms(2)] assms(3) by (cases src) (simp_all add: writei_copy_def either_copyin_def)
  then show ?thesis using assms(1) by (simp add: copies_def)
qed

text \<open>The bytes from \<open>off\<close> on are \<open>d\<close> now, the others what they were.\<close>

definition wrote_file :: "nat \<Rightarrow> nat \<Rightarrow> byte list \<Rightarrow> 'a fsstate_scheme \<Rightarrow> 'a fsstate_scheme \<Rightarrow> bool" where
  "wrote_file i off d s s' \<longleftrightarrow> grown i s s' \<and>
     (\<forall>k<MAXFILE * BSIZE. addr_of s (iad i s) (k div BSIZE) \<noteq> 0 \<or> off \<le> k \<and> k < off + length d \<longrightarrow>
        addr_of s' (iad i s') (k div BSIZE) \<noteq> 0 \<and>
        fbyte s' (iad i s') k = (if off \<le> k \<and> k < off + length d then d ! (k - off) else fbyte s (iad i s) k))"

lemma wrote_file_Nil: "i < length (inodes s) \<Longrightarrow> map_ok s (iad i s) \<Longrightarrow> wrote_file i off [] s s"
  using grown_refl [of i s] by (auto simp: wrote_file_def)

lemma wrote_file_trans:
  assumes "wrote_file i off c s t" "wrote_file i (off + length c) d t u" "fs_frame s t"
  shows "wrote_file i off (c @ d) s u"
proof -
  have g: "grown i s u" using grown_trans [of i s t u] assms by (simp add: wrote_file_def)
  have "addr_of u (iad i u) (k div BSIZE) \<noteq> 0 \<and>
      fbyte u (iad i u) k = (if off \<le> k \<and> k < off + length (c @ d) then (c @ d) ! (k - off) else fbyte s (iad i s) k)"
    if k: "k < MAXFILE * BSIZE" "addr_of s (iad i s) (k div BSIZE) \<noteq> 0 \<or> off \<le> k \<and> k < off + length (c @ d)" for k
  proof (cases "off + length c \<le> k \<and> k < off + length c + length d")
    case True
    then show ?thesis using assms(2) k(1) by (auto simp: wrote_file_def nth_append)
  next
    case False
    then have *: "addr_of s (iad i s) (k div BSIZE) \<noteq> 0 \<or> off \<le> k \<and> k < off + length c" using k(2) by auto
    then have "addr_of t (iad i t) (k div BSIZE) \<noteq> 0" using assms(1) k(1) by (auto simp: wrote_file_def)
    then show ?thesis using assms(1,2) k(1) False * by (auto simp: wrote_file_def nth_append)
  qed
  then show ?thesis using g by (simp add: wrote_file_def)
qed

lemma div_mod_block: "(k :: nat) div BSIZE = off div BSIZE \<Longrightarrow> k = off div BSIZE * BSIZE + k mod BSIZE"
  by (metis div_mult_mod_eq)

lemma write_chunk:
  assumes m: "mapped i (off div BSIZE) a s t" and fr: "tx_frame t t'" and sf: "fs_frame s t"
    and c: "content t' = (content t)(a := splice_at (off mod BSIZE) d (content t a))"
    and len: "length (content t a) = BSIZE" "length d \<le> BSIZE - off mod BSIZE" and off: "off div BSIZE < MAXFILE"
  shows "wrote_file i off d s t'" "\<And>x. x < nblk s \<Longrightarrow> used t' x = used t x"
proof -
  have g: "grown i s t" and ad: "\<And>k. k < MAXFILE \<Longrightarrow> addr_of t (iad i t) k = (if k = off div BSIZE then a else addr_of s (iad i s) k)"
    and a0: "a \<noteq> 0" and same: "\<And>k. k < MAXFILE \<Longrightarrow> addr_of s (iad i s) k \<noteq> 0 \<Longrightarrow>
      content t (addr_of s (iad i s) k) = content s (addr_of s (iad i s) k)"
    using m by (simp_all add: mapped_def)
  have e: "sb t' = sb t" "inodes t' = inodes t" "home (slog t') = home (slog t)" using tx_frame_fs [OF fr] tx_frameD(12) [OF fr] by simp_all
  note f = fs_frameD [OF sf] and gd = grownD [OF g]
  note mk = map_okD [OF gd(3)]
  have at: "addr_of t (iad i t) (off div BSIZE) = a" using ad [OF off] by simp
  have ab: "a \<in> blocks_of t (iad i t)" using in_blocks_of(1) [OF off, of t "iad i t"] at a0 by simp
  have ai: "a \<noteq> iad i t ! NDIRECT" using mk(5) [OF off] at a0 by simp
  have ad': "addr_of t' (iad i t) = addr_of t (iad i t)" by (rule addr_of_cong) (use ai c in simp)
  have bl: "blocks_of t' (iad i t) = blocks_of t (iad i t)" by (rule blocks_of_cong [OF ad'])
  show us: "used t' x = used t x" if "x < nblk s" for x
    by (rule used_cong) (use BBLOCK_in [of x t] that mk(4) [OF ab] c e f in auto)
  have bt: "bitmap t' = bitmap t" using e by (simp add: bitmap_def)
  have mo: "map_ok t' (iad i t)"
  proof -
    have "used t' 0 = used t 0" "\<And>b. b \<in> blocks_of t (iad i t) \<Longrightarrow> used t' b = used t b" using us mk(2,4) f by auto
    then show ?thesis using gd(3) by (simp add: map_ok_def bl ad' e bt)
  qed
  have gr: "grown i s t'" unfolding grown_def e(2)
  proof (intro conjI allI impI)
    show "inodes t = (inodes s)[i := (inodes s ! i)\<lparr>iaddrs := iad i t\<rparr>]" by (rule gd(1))
    show "content t' n = content s n" if n: "n \<notin> bitmap s \<and> n \<notin> free_blocks s \<and> n \<notin> blocks_of s (iad i s)" for n
    proof -
      have "n \<noteq> a" using n gd(5) [OF ab] by auto
      then show ?thesis using gd(7) n c by simp
    qed
    show "blocks_of t' (iad i t) - blocks_of s (iad i s) \<subseteq> free_blocks s" using gd(5) bl by auto
  qed (use gd us mo bl in auto)
  have "addr_of t (iad i t) (k div BSIZE) \<noteq> 0 \<and>
      fbyte t' (iad i t) k = (if off \<le> k \<and> k < off + length d then d ! (k - off) else fbyte s (iad i s) k)"
    if k: "k < MAXFILE * BSIZE" "addr_of s (iad i s) (k div BSIZE) \<noteq> 0 \<or> off \<le> k \<and> k < off + length d" for k
  proof -
    have kb: "k div BSIZE < MAXFILE" by (rule less_mult_imp_div_less [OF k(1)])
    have o: "off mod BSIZE + length d \<le> BSIZE" "0 < BSIZE" using len(2) by (simp_all add: BSIZE_def)
    show ?thesis
    proof (cases "k div BSIZE = off div BSIZE")
      case True
      then have "k = off div BSIZE * BSIZE + k mod BSIZE" "off = off div BSIZE * BSIZE + off mod BSIZE" by (simp_all add: div_mod_block)
      then have r: "off \<le> k \<longleftrightarrow> off mod BSIZE \<le> k mod BSIZE" "k < off + length d \<longleftrightarrow> k mod BSIZE < off mod BSIZE + length d"
        "off \<le> k \<Longrightarrow> k - off = k mod BSIZE - off mod BSIZE" by linarith+
      have mm: "k mod BSIZE < BSIZE" by (simp add: BSIZE_def)
      have "fbyte t' (iad i t) k = splice_at (off mod BSIZE) d (content t a) ! (k mod BSIZE)"
        using True at c by (simp add: fbyte_def ad')
      then have v: "fbyte t' (iad i t) k = (if off \<le> k \<and> k < off + length d then d ! (k - off) else content t a ! (k mod BSIZE))"
        using o(1) mm r len(1) by (auto simp: nth_splice_at)
      have "content t a ! (k mod BSIZE) = fbyte s (iad i s) k" if "addr_of s (iad i s) (k div BSIZE) \<noteq> 0"
        using that True m same [OF off] by (auto simp: fbyte_def mapped_def)
      then show ?thesis using v k(2) at a0 True by auto
    next
      case False
      have nin: "\<not> (off \<le> k \<and> k < off + length d)"
      proof
        assume "off \<le> k \<and> k < off + length d"
        then obtain j where "k = off + j" "j < length d" by (auto simp: le_iff_add)
        then show False using False block_offset(1) [of off BSIZE j] o(1) by simp
      qed
      then have nz: "addr_of s (iad i s) (k div BSIZE) \<noteq> 0" using k(2) by auto
      have ak: "addr_of t (iad i t) (k div BSIZE) = addr_of s (iad i s) (k div BSIZE)" using ad [OF kb] False by simp
      then have "addr_of t (iad i t) (k div BSIZE) \<noteq> a" using mk(6) [OF off kb] at a0 nz False by auto
      then show ?thesis using nin nz ak same [OF kb nz] c by (auto simp: fbyte_def ad')
    qed
  qed
  then show "wrote_file i off d s t'" using gr unfolding wrote_file_def e(2) ad' by blast
qed


text \<open>The blocks a segment of \<open>len\<close> bytes from \<open>off\<close> touches.\<close>

definition span :: "nat \<Rightarrow> nat \<Rightarrow> nat" where
  "span off len = (if len = 0 then 0 else (off + len - 1) div BSIZE - off div BSIZE + 1)"

lemma span_step:
  assumes "0 < len" "m = min len (BSIZE - off mod BSIZE)"
  shows "span off len = Suc (span (off + m) (len - m))"
proof (cases "len \<le> BSIZE - off mod BSIZE")
  case True
  then have m: "m = len" using assms by simp
  have "off mod BSIZE < BSIZE" by (simp add: BSIZE_def)
  then have "off mod BSIZE + (len - 1) < BSIZE" using True assms(1) by linarith
  then have "(off + (len - 1)) div BSIZE = off div BSIZE" by (rule block_offset)
  moreover have "off + (len - 1) = off + len - 1" using assms(1) by simp
  ultimately show ?thesis using m assms(1) by (simp add: span_def)
next
  case False
  then have m: "m = BSIZE - off mod BSIZE" "m < len" using assms by auto
  have "off mod BSIZE < BSIZE" by (simp add: BSIZE_def)
  then have o: "off + m = Suc (off div BSIZE) * BSIZE" using m(1) div_mult_mod_eq [of off BSIZE] unfolding mult_Suc by linarith
  have b: "0 < BSIZE" by (simp add: BSIZE_def)
  then have d: "(off + m) div BSIZE = Suc (off div BSIZE)" unfolding o by (simp add: nonzero_mult_div_cancel_right)
  have "off + m \<le> off + len - 1" using m(2) by linarith
  then have "(off + m) div BSIZE \<le> (off + len - 1) div BSIZE" by (rule div_le_mono)
  moreover have "off + m + (len - m) - 1 = off + len - 1" using m(2) by simp
  ultimately show ?thesis using assms(1) m(2) d by (simp add: span_def)
qed

lemma writei_loop_spec:
  assumes "tx_ok {} s" "fs_geom s" "i < length (inodes s)" "map_ok s (iad i s)" "idev (inodes s ! i) = ldv s" "copies src d s"
    "tot \<le> length d" "off + (length d - tot) \<le> MAXFILE * BSIZE" "bitmap s \<subseteq> A" "space s A (k + 2 * span off (length d - tot))"
  shows "\<exists>s'. writei_loop i src off tot (length d) s = Inr (length d, off + (length d - tot), s') \<and> tx_ok {} s' \<and> fs_geom s' \<and>
    fs_frame s s' \<and> wrote_file i off (drop tot d) s s' \<and> space s' A k"
  using assms
proof (induction "length d - tot" arbitrary: off tot s rule: less_induct)
  case less
  note tx = less.prems(1) and geom = less.prems(2) and i = less.prems(3) and ok = less.prems(4) and dv = less.prems(5)
    and cp = less.prems(6) and bm = less.prems(9) and sp = less.prems(10)
  show ?case
  proof (cases "tot < length d")
    case False
    then show ?thesis using less.prems wrote_file_Nil [OF i ok]
      by (intro exI [of _ s]) (simp add: writei_loop.simps span_def)
  next
    case True
    let ?len = "length d - tot" and ?bn = "off div BSIZE"
    define m where "m = min ?len (BSIZE - off mod BSIZE)"
    have m: "0 < m" "m \<le> ?len" "m \<le> BSIZE - off mod BSIZE" "tot + m \<le> length d" using True by (auto simp: m_def BSIZE_def)
    have "off < MAXFILE * BSIZE" using less.prems(8) True by linarith
    then have bn: "?bn < MAXFILE" by (rule less_mult_imp_div_less)
    have sps: "space s A (Suc (Suc (k + 2 * span (off + m) (?len - m))))"
      using sp span_step [of ?len m off] True unfolding m_def by simp
    obtain a t where t: "bmap i ?bn s = Inr (a, t)" "tx_ok {} t" "fs_geom t" "fs_frame s t" "mapped i ?bn a s t"
      "space t A (Suc (k + 2 * span (off + m) (?len - m))) \<or> space t A (k + 2 * span (off + m) (?len - m)) \<and> a \<in> logged t"
      by (rule bmap_spec [OF tx geom sps bm i ok dv bn])
    note f = fs_frameD [OF t(4)]
    have g: "grown i s t" using t(5) by (simp add: mapped_def)
    note gi = grown_inode [OF g] and gd = grownD [OF g]
    have at: "addr_of t (iad i t) ?bn = a" "a \<noteq> 0" using t(5) bn by (simp_all add: mapped_def)
    have ab: "a \<in> blocks_of t (iad i t)" using in_blocks_of(1) [OF bn, of t "iad i t"] at by simp
    have ak: "a \<notin> {}" "home (slog t) a" "a < FSSIZE" "a \<notin> bitmap t" using map_okD(4) [OF gd(3) ab] by (auto simp: home_def)
    define j where "j = (if a \<in> logged t then k + 2 * span (off + m) (?len - m) else Suc (k + 2 * span (off + m) (?len - m)))"
    have ft: "fits t A j" "a \<in> logged t \<union> A \<and> k + 2 * span (off + m) (?len - m) = j \<or> j = Suc (k + 2 * span (off + m) (?len - m))"
      "k + 2 * span (off + m) (?len - m) \<le> card (free_blocks t)"
      using t(6) by (auto simp: j_def space_def intro: fits_mono)
    have lb: "length (content t a) = BSIZE" using t(2) by (auto simp: tx_ok_def dest: length_blk)
    let ?c = "slice tot m d"
    have lc: "length ?c = m" using m(4) by simp
    have o: "off mod BSIZE + m \<le> BSIZE" using m(3) by (simp add: BSIZE_def)
    obtain u where u: "kbind (bread (ldv t) a t) (\<lambda>(b, s).
        kbind (log_write b (set_data b (splice_at (off mod BSIZE) ?c (bdata (bufs s ! b))) s)) (\<lambda>s. brelse b s)) = Inr u"
      "tx_ok {} u" "content u = (content t)(a := splice_at (off mod BSIZE) ?c (content t a))" "tx_frame t u"
      "logged u = insert a (logged t)" "keeps (ldv t) {} t u" "fits u A (k + 2 * span (off + m) (?len - m))"
      by (rule tx_rmw_fits [where f = "splice_at (off mod BSIZE) ?c" and j = "k + 2 * span (off + m) (?len - m)", OF t(2) ak(1,2) ft(1)])
        (use ft(2) lb o lc in auto)
    obtain bp v where v: "bread (ldv t) a t = Inr (bp, v)" "tx_ok (insert a {}) v" "is_cached (ldv v) a v bp"
      "bdata (bufs v ! bp) = content t a" "content v = content t" "tx_frame t v" "slog v = slog t" "keeps (ldv t) {} t v"
      by (rule tx_bread [OF t(2) ak(1,3)]) (use fits_bufs [OF ft(1), of "{}"] in simp_all)
    have cv: "writei_copy src tot m v = Inr (0, ?c)"
      using copies_cong [OF cp, of v] tx_frameD [OF v(6)] f m(4) by (simp add: copies_def)
    have iv: "inodes v = inodes t" using tx_frame_fs [OF v(6)] by simp
    have off': "length ?c \<le> BSIZE - off mod BSIZE" using lc m(3) by simp
    note wc = write_chunk [OF t(5) u(4) t(4) u(3) lb off' bn]
    have eu: "sb u = sb t" "inodes u = inodes t" using tx_frame_fs [OF u(4)] by simp_all
    have bu: "bitmap u = bitmap t" by (simp add: bitmap_def eu)
    have geu: "fs_geom u"
    proof -
      have "used u x = used t x" if "x < nblk t" for x using wc(2) that f by simp
      then show ?thesis using t(3) tx_frameD(12) [OF u(4)] by (auto simp: fs_geom_def bu eu)
    qed
    have fu: "free_blocks u = free_blocks t" using wc(2) f eu by (auto simp: free_blocks_def)
    have su: "space u A (k + 2 * span (off + m) (?len - m))" using u(7) ft(3) by (simp add: space_def fu)
    have fr: "fs_frame s u" by (rule fs_frame_trans [OF t(4) fs_frame_tx [OF u(4)]])
    have gu: "map_ok u (iad i u)" using wc(1) by (simp add: wrote_file_def grown_def)
    have len: "length d - (tot + m) = ?len - m" by simp
    have sub: "length d - (tot + m) < ?len" using m(1,2) by linarith
    have pre: "i < length (inodes u)" "idev (inodes u ! i) = ldv u" "copies src d u" "off + m + (length d - (tot + m)) \<le> MAXFILE * BSIZE"
      "bitmap u \<subseteq> A"
    proof -
      show "i < length (inodes u)" "idev (inodes u ! i) = ldv u" using i dv gi eu(2) fs_frameD(6) [OF fr] by simp_all
      show "copies src d u" by (rule copies_cong [OF cp fs_frameD(4,11) [OF fr]])
      show "off + m + (length d - (tot + m)) \<le> MAXFILE * BSIZE" using less.prems(8) m(2) by linarith
      show "bitmap u \<subseteq> A" using bm bu f by simp
    qed
    obtain s' where s': "writei_loop i src (off + m) (tot + m) (length d) u = Inr (length d, off + m + (length d - (tot + m)), s')" "tx_ok {} s'"
      "fs_geom s'" "fs_frame u s'" "wrote_file i (off + m) (drop (tot + m) d) u s'" "space s' A k"
      using less.hyps [OF sub u(2) geu pre(1) gu pre(2,3) m(4) pre(4,5) su [folded len]] by blast
    have "writei_loop i src off tot (length d) s = Inr (length d, off + ?len, s')"
    proof -
      have "idev (inodes t ! i) = ldv t" using dv gi f by simp
      moreover have "off + m + (length d - (tot + m)) = off + ?len" using m(2) by simp
      ultimately show ?thesis
        using True t(1) u(1) v(1,4) cv s'(1) iv
        by (subst writei_loop.simps) (auto simp: Let_def m_def [symmetric] kbind_eq_Inr)
    qed
    moreover have "wrote_file i off (drop tot d) s s'"
    proof -
      have "slice tot m d @ drop (tot + m) d = drop tot d" by (simp add: slice_def add.commute [of tot] flip: drop_drop)
      then show ?thesis using wrote_file_trans [OF wc(1) _ fr] s'(5) lc by (metis (no_types))
    qed
    ultimately show ?thesis using s' fs_frame_trans [OF fr s'(4)] by blast
  qed
qed

end
