(* ===== verification/FsInode.thy ===== *)
theory FsInode
  imports FsFile
begin

text \<open>
  Inodes on disk and the two operations on file contents (\<open>iupdate\<close>, \<open>readi\<close>, \<open>writei\<close> of \<open>kernel/fs.c\<close>): an inode written
  by \<open>iupdate\<close> is read back as it was and disturbs no other inode of its block; \<open>readi\<close> and \<open>writei\<close> implement reading and
  overwriting a segment of an array of bytes.
\<close>

section \<open>The inode on disk\<close>

lemma get16_slice: "get16 d k = bytes_word (slice k 2 d)"
  by (simp add: get16_def)

lemma slice_append_left: "k + n \<le> length xs \<Longrightarrow> slice k n (xs @ ys) = slice k n xs"
  by (simp add: slice_def)

lemma slice_append_right: "length xs \<le> k \<Longrightarrow> slice k n (xs @ ys) = slice (k - length xs) n ys"
  by (simp add: slice_def)

lemma slice_slice: "k + n \<le> m \<Longrightarrow> slice k n (slice p m xs) = slice (p + k) n xs"
  by (simp add: slice_def take_drop drop_drop min_def add.commute)

lemma slice_concat_words:
  assumes "j < length as"
  shows "slice (4 * j) 4 (concat (map (\<lambda>a. word_bytes 4 (f a)) as)) = word_bytes 4 (f (as ! j))"
  using assms
proof (induction as arbitrary: j)
  case (Cons a as)
  show ?case
  proof (cases j)
    case 0
    then show ?thesis by (simp add: slice_append_left) (simp add: slice_def)
  next
    case (Suc i)
    then show ?thesis using Cons by (simp add: slice_append_right)
  qed
qed simp

lemma length_concat_words: "length (concat (map (\<lambda>a. word_bytes 4 (f a)) as)) = 4 * length as"
  by (induction as) simp_all

lemma length_dinode_bytes: "length (iaddrs ip) = NDIRECT + 1 \<Longrightarrow> length (dinode_bytes ip) = 64"
  by (simp add: dinode_bytes_def length_concat_words NDIRECT_def)


text \<open>Reading back the fields of an inode written at \<open>p\<close>.\<close>

definition fits32 :: "inode \<Rightarrow> bool" where
  "fits32 ip \<longleftrightarrow> length (iaddrs ip) = NDIRECT + 1 \<and> isize ip < 2 ^ 32 \<and> (\<forall>a\<in>set (iaddrs ip). a < 2 ^ 32)"

lemma load_dinode_bytes:
  assumes ok: "fits32 ip" and p: "p + 64 \<le> length d"
  shows "load_dinode (splice_at p (dinode_bytes ip) d) p x = x\<lparr>itype := itype ip, imajor := imajor ip, iminor := iminor ip,
     inlink := inlink ip, isize := isize ip, iaddrs := iaddrs ip\<rparr>"
proof -
  let ?d = "splice_at p (dinode_bytes ip) d"
  have l: "length (dinode_bytes ip) = 64" "length (iaddrs ip) = NDIRECT + 1" using ok length_dinode_bytes by (simp_all add: fits32_def)
  have s: "slice (p + k) n ?d = slice k n (dinode_bytes ip)" if "k + n \<le> 64" for k n
    using slice_slice [OF that, of p ?d] l(1) p by simp
  note s2 = s [of 0, simplified]
  have g: "get16 ?d p = itype ip" "get16 ?d (p + 2) = imajor ip" "get16 ?d (p + 4) = iminor ip" "get16 ?d (p + 6) = inlink ip"
    "get32 ?d (p + 8) = of_nat (isize ip)"
    by (simp_all add: get16_def get32_def s s2 del: add_2_eq_Suc') (simp_all add: dinode_bytes_def slice_append_right slice_append_left, simp_all add: slice_def)
  have a: "get32 ?d (p + 12 + 4 * j) = of_nat (iaddrs ip ! j)" if "j < NDIRECT + 1" for j
  proof -
    have b: "12 + 4 * j + 4 \<le> 64" using that by (simp add: NDIRECT_def)
    have "slice (12 + 4 * j) 4 (dinode_bytes ip) = word_bytes 4 (of_nat (iaddrs ip ! j) :: u32)"
      unfolding dinode_bytes_def using slice_concat_words [of j "iaddrs ip" "of_nat :: nat \<Rightarrow> u32"] that l(2)
      by (simp add: slice_append_right)
    then show ?thesis using s [OF b] by (simp add: get32_def add.assoc)
  qed
  have "map (\<lambda>j. unat (get32 ?d (p + 12 + 4 * j))) [0..<NDIRECT + 1] = iaddrs ip"
  proof (rule nth_equalityI)
    fix j
    assume "j < length (map (\<lambda>j. unat (get32 ?d (p + 12 + 4 * j))) [0..<NDIRECT + 1])"
    then have j: "j < NDIRECT + 1" by simp
    have "iaddrs ip ! j < 2 ^ 32" using ok j by (simp add: fits32_def)
    then show "map (\<lambda>j. unat (get32 ?d (p + 12 + 4 * j))) [0..<NDIRECT + 1] ! j = iaddrs ip ! j"
      using a [OF j] j by (simp add: unat_of_nat del: upt_Suc)
  qed (simp add: l)
  then show ?thesis using g ok by (simp add: load_dinode_def fits32_def unat_of_nat del: upt_Suc add_2_eq_Suc')
qed

lemma load_dinode_other:
  assumes "length b = 64" "p + 64 \<le> length d" "q + 64 \<le> length d" "p + 64 \<le> q \<or> q + 64 \<le> p"
  shows "load_dinode (splice_at p b d) q x = load_dinode d q x"
proof -
  have s: "slice (q + k) n (splice_at p b d) = slice (q + k) n d" if "k + n \<le> 64" for k n
    by (rule slice_splice_disjoint) (use assms that in auto)
  note s2 = s [of 0, simplified]
  have a: "get32 (splice_at p b d) (q + 12 + 4 * j) = get32 d (q + 12 + 4 * j)" if "j < NDIRECT + 1" for j
    using s [of "12 + 4 * j" 4] that by (simp add: get32_def NDIRECT_def add.assoc)
  then have m: "map (\<lambda>j. unat (get32 (splice_at p b d) (q + 12 + 4 * j))) [0..<NDIRECT + 1] =
      map (\<lambda>j. unat (get32 d (q + 12 + 4 * j))) [0..<NDIRECT + 1]" by (intro map_cong [OF refl]) (simp del: upt_Suc)
  show ?thesis unfolding load_dinode_def m by (simp add: get16_def get32_def s s2 del: add_2_eq_Suc')
qed

text \<open>The inode numbered \<open>n\<close> as the disk has it, with the remaining fields of \<open>x\<close>.\<close>

definition dinode_at :: "'a fsstate_scheme \<Rightarrow> nat \<Rightarrow> inode \<Rightarrow> inode" where
  "dinode_at s n x = load_dinode (content s (IBLOCK n (sb s))) (dinode_off n) x"

abbreviation iblock :: "nat \<Rightarrow> 'a fsstate_scheme \<Rightarrow> nat" where
  "iblock i s \<equiv> IBLOCK (inum (inodes s ! i)) (sb s)"

text \<open>A block of the inode area.\<close>

definition inode_area :: "'a fsstate_scheme \<Rightarrow> nat \<Rightarrow> bool" where
  "inode_area s n \<longleftrightarrow> n < nblk s \<and> used s n \<and> home (slog s) n \<and> n \<notin> bitmap s"

lemma dinode_off_le: "dinode_off n + 64 \<le> BSIZE"
proof -
  have "n mod IPB < 16" by (simp add: IPB_def BSIZE_def)
  then show ?thesis by (simp add: dinode_off_def BSIZE_def)
qed

lemma iupdate_spec:
  assumes tx: "tx_ok {} s" and ft: "fits s A k" "iblock i s \<in> A" and ip: "fits32 (inodes s ! i)" "idev (inodes s ! i) = ldv s"
    and ia: "inode_area s (iblock i s)"
  obtains s' where "iupdate i s = Inr s'" "tx_ok {} s'" "tx_frame s s'" "fits s' A k"
    "\<forall>n. n \<noteq> iblock i s \<longrightarrow> content s' n = content s n" "dinode_at s' (inum (inodes s ! i)) (inodes s ! i) = inodes s ! i"
    "\<forall>n x. n \<noteq> inum (inodes s ! i) \<longrightarrow> dinode_at s' n x = dinode_at s n x"
proof -
  let ?n = "inum (inodes s ! i)" and ?b = "iblock i s"
  let ?f = "splice_at (dinode_off ?n) (dinode_bytes (inodes s ! i))"
  have lb: "length (content s ?b) = BSIZE" using tx by (auto simp: tx_ok_def dest: length_blk)
  have ld: "length (dinode_bytes (inodes s ! i)) = 64" using ip(1) length_dinode_bytes by (simp add: fits32_def)
  have h: "?b \<notin> {}" "home (slog s) ?b" using ia by (simp_all add: inode_area_def)
  obtain s' where s': "kbind (bread (ldv s) ?b s) (\<lambda>(b, s).
      kbind (log_write b (set_data b (?f (bdata (bufs s ! b))) s)) (\<lambda>s. brelse b s)) = Inr s'"
    "tx_ok {} s'" "content s' = (content s)(?b := ?f (content s ?b))" "tx_frame s s'" "logged s' = insert ?b (logged s)"
    "keeps (ldv s) {} s s'" "fits s' A k"
    by (rule tx_rmw_fits [where f = ?f and j = k, OF tx h ft(1)]) (use ft(2) lb ld dinode_off_le [of ?n] in auto)
  have e: "sb s' = sb s" using tx_frame_fs [OF s'(4)] by simp
  have run: "iupdate i s = Inr s'" using s'(1) ip(2) by (simp add: iupdate_def Let_def)
  have dn: "dinode_at s' ?n (inodes s ! i) = inodes s ! i"
    using load_dinode_bytes [OF ip(1), of "dinode_off ?n" "content s ?b" "inodes s ! i"] lb dinode_off_le [of ?n]
    by (simp add: dinode_at_def e s'(3))
  have "dinode_at s' n x = dinode_at s n x" if "n \<noteq> ?n" for n x
  proof (cases "IBLOCK n (sb s) = ?b")
    case True
    then have "n div IPB = ?n div IPB" by (simp add: IBLOCK_def)
    then have "n mod IPB \<noteq> ?n mod IPB" using that by (metis div_mult_mod_eq)
    then have "dinode_off ?n + 64 \<le> dinode_off n \<or> dinode_off n + 64 \<le> dinode_off ?n" by (auto simp: dinode_off_def)
    then show ?thesis using load_dinode_other [OF ld, of "dinode_off ?n" "content s ?b" "dinode_off n" x] lb dinode_off_le True
      by (simp add: dinode_at_def e s'(3))
  qed (simp add: dinode_at_def e s'(3))
  then show ?thesis using that [OF run s'(2,4,7)] dn by (simp add: s'(3))
qed


section \<open>Writing a file\<close>

text \<open>Contents changed only in blocks that are neither in the bitmap nor of the file.\<close>

lemma outside_same:
  assumes fr: "sb s' = sb s" "home (slog s') = home (slog s)" and ok: "map_ok s as"
    and c: "\<And>n. n \<in> bitmap s \<or> n \<in> blocks_of s as \<Longrightarrow> content s' n = content s n"
  shows "addr_of s' as = addr_of s as" "map_ok s' as" "blocks_of s' as = blocks_of s as"
    "\<And>k. k < MAXFILE * BSIZE \<Longrightarrow> addr_of s as (k div BSIZE) \<noteq> 0 \<Longrightarrow> fbyte s' as k = fbyte s as k"
    "\<And>x. x < nblk s \<Longrightarrow> used s' x = used s x"
proof -
  show ad: "addr_of s' as = addr_of s as" by (rule addr_of_cong) (use c in_blocks_of(2) [of as s] in auto)
  show bl: "blocks_of s' as = blocks_of s as" by (rule blocks_of_cong [OF ad])
  show us: "used s' x = used s x" if "x < nblk s" for x by (rule used_cong [OF fr(1)]) (use BBLOCK_in [OF that] c in blast)
  have "bitmap s' = bitmap s" by (simp add: bitmap_def fr)
  moreover have "used s' 0" "\<And>b. b \<in> blocks_of s as \<Longrightarrow> used s' b" using us map_okD(2-4) [OF ok] by auto
  ultimately show "map_ok s' as" using ok by (simp add: map_ok_def ad bl fr)
  show "fbyte s' as k = fbyte s as k" if "k < MAXFILE * BSIZE" "addr_of s as (k div BSIZE) \<noteq> 0" for k
    using c in_blocks_of(1) [OF less_mult_imp_div_less [OF that(1)] that(2)] by (simp add: fbyte_def ad)
qed

lemma fs_geom_same:
  assumes "fs_geom s" "sb s' = sb s" "home (slog s') = home (slog s)" "\<And>x. x < nblk s \<Longrightarrow> used s' x = used s x"
  shows "fs_geom s'"
  using assms by (auto simp: fs_geom_def bitmap_def)

lemma fits32_file:
  assumes "map_ok s (iaddrs ip)" "nblk s \<le> FSSIZE" "isize ip \<le> MAXFILE * BSIZE"
  shows "fits32 ip"
proof -
  have "a < 2 ^ 32" if mem: "a \<in> set (iaddrs ip)" for a
  proof -
    obtain j where "j < length (iaddrs ip)" and a: "a = iaddrs ip ! j" using mem unfolding in_set_conv_nth by blast
    then have j: "j < NDIRECT + 1" "a = iaddrs ip ! j" using map_okD(1) [OF assms(1)] by simp_all
    then have "a = 0 \<or> a \<in> blocks_of s (iaddrs ip)"
    proof (cases "j = NDIRECT")
      case False
      then have "j < NDIRECT" using j(1) by simp
      then have "addr_of s (iaddrs ip) j = a" "j < MAXFILE" using j(2) by (simp_all add: addr_of_def MAXFILE_def)
      then show ?thesis using in_blocks_of(1) [of j s "iaddrs ip"] by auto
    next
      case True
      then show ?thesis using a in_blocks_of(2) [of "iaddrs ip" s] by metis
    qed
    then have "a < 1000" using map_okD(4) [OF assms(1), of a] assms(2) unfolding FSSIZE_def by (elim disjE) simp_all
    then show ?thesis by simp
  qed
  then show ?thesis using assms(3) map_okD(1) [OF assms(1)] by (simp add: fits32_def MAXFILE_def NDIRECT_def NINDIRECT_def BSIZE_def)
qed

text \<open>The bytes after a write, as a list.\<close>

lemma wrote_file_bytes:
  assumes w: "wrote_file i off d s t" and ok: "file_ok s i" and off: "off \<le> isz i s" "off + length d \<le> MAXFILE * BSIZE"
    and sz: "n = max (isz i s) (off + length d)"
  shows "map (fbyte t (iad i t)) [0..<n] = take off (file_bytes s i) @ d @ drop (off + length d) (file_bytes s i)" (is "?l = ?r")
    "\<And>m. m * BSIZE < n \<Longrightarrow> addr_of t (iad i t) m \<noteq> 0"
proof -
  note fo = file_okD [OF ok]
  have v: "addr_of t (iad i t) (k div BSIZE) \<noteq> 0 \<and>
      fbyte t (iad i t) k = (if off \<le> k \<and> k < off + length d then d ! (k - off) else fbyte s (iad i s) k)" if "k < n" for k
  proof -
    have "k < MAXFILE * BSIZE" using that sz off(2) fo(4) by linarith
    moreover have "addr_of s (iad i s) (k div BSIZE) \<noteq> 0 \<or> off \<le> k \<and> k < off + length d"
      using fo(5) [of k] that sz off(1) by (cases "k < isz i s") auto
    ultimately show ?thesis using w unfolding wrote_file_def by blast
  qed
  show "?l = ?r"
  proof (rule nth_equalityI)
    show len: "length ?l = length ?r" using off(1) sz by (simp add: file_bytes_def)
    fix k
    assume "k < length ?l"
    then have k: "k < n" by simp
    have "?r ! k = (if off \<le> k \<and> k < off + length d then d ! (k - off) else fbyte s (iad i s) k)"
    proof -
      have "k < off + length d \<or> off + length d \<le> k \<and> k < isz i s" using k sz by linarith
      then show ?thesis using off(1) by (auto simp: nth_append file_bytes_def min_def)
    qed
    then show "?l ! k = ?r ! k" using v [OF k] k by simp
  qed
  show "addr_of t (iad i t) m \<noteq> 0" if "m * BSIZE < n" for m
    using v [OF that] by (simp add: BSIZE_def)
qed


lemma grown_other:
  assumes g: "grown i s t" and j: "file_ok s j" "j \<noteq> i" "blocks_of s (iad j s) \<inter> blocks_of s (iad i s) = {}" and e: "fs_frame s t"
  shows "n \<in> blocks_of s (iad j s) \<Longrightarrow> content t n = content s n" "inodes t ! j = inodes s ! j"
    "addr_of t (iad j s) = addr_of s (iad j s)" "map_ok t (iad j s)" "blocks_of t (iad j s) = blocks_of s (iad j s)"
    "blocks_of t (iad j s) \<inter> blocks_of t (iad i t) = {}"
    "\<And>k. k < isz j s \<Longrightarrow> fbyte t (iad j s) k = fbyte s (iad j s) k"
proof -
  note gd = grownD [OF g] and mk = map_okD [OF file_okD(3) [OF j(1)]] and f = fs_frameD [OF e] and fo = file_okD [OF j(1)]
  have c: "content t n = content s n" if "n \<in> blocks_of s (iad j s)" for n
    using gd(7) [of n] mk(4) [OF that] that j(3) by (auto simp: free_blocks_def)
  then show "n \<in> blocks_of s (iad j s) \<Longrightarrow> content t n = content s n" .
  show "inodes t ! j = inodes s ! j" by (rule grown_inode(5) [OF g j(2)])
  show ad: "addr_of t (iad j s) = addr_of s (iad j s)" by (rule addr_of_cong) (use c in_blocks_of(2) [of "iad j s" s] in auto)
  show bl: "blocks_of t (iad j s) = blocks_of s (iad j s)" by (rule blocks_of_cong [OF ad])
  have us: "used t x" if "x < nblk s" "used s x" for x using gd(6) [OF that(1)] that(2) by simp
  then show "map_ok t (iad j s)" using fo(3) mk(2-4) by (auto simp: map_ok_def ad bl f)
  show "blocks_of t (iad j s) \<inter> blocks_of t (iad i t) = {}"
    unfolding bl using gd(5) j(3) mk(4) by (auto simp: free_blocks_def)
  show "fbyte t (iad j s) k = fbyte s (iad j s) k" if "k < isz j s" for k
    using c in_blocks_of(1) [OF fo(6) [OF that] fo(5) [OF that]] by (simp add: fbyte_def ad)
qed

text \<open>A write that is in range, with everything it leaves alone.\<close>

lemma writei_spec:
  assumes tx: "tx_ok {} s" and geom: "fs_geom s" and ok: "file_ok s i" and ia: "inode_area s (iblock i s)" "iblock i s \<notin> blocks_of s (iad i s)"
    and cp: "copies src d s" and len: "off + length d < 2 ^ 32"
    and sp: "space s (insert (iblock i s) (bitmap s)) (2 * span off (length d))"
    and off: "off \<le> isz i s" "off + length d \<le> MAXFILE * BSIZE"
  obtains s' where "writei i src off (length d) s = Inr (int (length d), s')"
    "file_bytes s' i = take off (file_bytes s i) @ d @ drop (off + length d) (file_bytes s i)"
    "file_ok s' i" "dinode_at s' (inum (inodes s' ! i)) (inodes s' ! i) = inodes s' ! i"
    "\<forall>j. file_ok s j \<and> j \<noteq> i \<and> blocks_of s (iad j s) \<inter> blocks_of s (iad i s) = {} \<and> iblock i s \<notin> blocks_of s (iad j s) \<longrightarrow>
       file_ok s' j \<and> file_bytes s' j = file_bytes s j"
    "\<forall>n x. n \<noteq> inum (inodes s ! i) \<and> inode_area s (IBLOCK n (sb s)) \<and> IBLOCK n (sb s) \<notin> blocks_of s (iad i s) \<longrightarrow>
       dinode_at s' n x = dinode_at s n x"
    "tx_ok {} s'" "fs_geom s'" "disk s' = disk s" "fits s' (insert (iblock i s) (bitmap s)) 0"
    "\<exists>as. inodes s' = (inodes s)[i := (inodes s ! i)\<lparr>iaddrs := as, isize := max (isz i s) (off + length d)\<rparr>]"
proof -
  note fo = file_okD [OF ok]
  let ?A = "insert (iblock i s) (bitmap s)"
  have sp0: "space s ?A (0 + 2 * span off (length d - 0))" using sp by simp
  obtain t where t: "writei_loop i src off 0 (length d) s = Inr (length d, off + length d, t)" "tx_ok {} t" "fs_geom t" "fs_frame s t"
    "wrote_file i off d s t" "space t ?A 0"
    using writei_loop_spec [OF tx geom fo(1,3,2) cp _ _ subset_insertI sp0] off(2) by auto
  have g: "grown i s t" using t(5) by (simp add: wrote_file_def)
  note gd = grownD [OF g] and gi = grown_inode [OF g] and f = fs_frameD [OF t(4)]
  define n where "n = max (isz i s) (off + length d)"
  note wb = wrote_file_bytes [OF t(5) ok off n_def]
  define ip where "ip = (inodes t ! i)\<lparr>isize := n\<rparr>"
  define u where "u = t\<lparr>inodes := (inodes t)[i := ip]\<rparr>"
  have it: "i < length (inodes t)" using fo(1) gi by simp
  have iu: "inodes u ! i = ip" "iaddrs ip = iad i t" "isize ip = n" "inum ip = inum (inodes s ! i)" "idev ip = ldv s" "ldv u = ldv s"
    "iblock i u = iblock i s" "sb u = sb s"
    using it gi fo(2) f by (simp_all add: u_def ip_def)
  have up: "(if isz i t < off + length d then upd_inode i (\<lambda>ip. ip\<lparr>isize := off + length d\<rparr>) t else t) = u"
  proof (cases "isz i t < off + length d")
    case True
    then have "n = off + length d" using gi(4) by (simp add: n_def)
    then show ?thesis using True by (simp add: u_def ip_def upd_inode_def)
  next
    case False
    then have "n = isz i t" using gi(4) by (simp add: n_def)
    then have "ip = inodes t ! i" by (simp add: ip_def)
    then have "u = t" by (simp add: u_def)
    then show ?thesis using False by simp
  qed
  have f32: "fits32 (inodes u ! i)"
    using fits32_file [of t ip] gd(3) t(3) iu off(2) fo(4) by (simp add: fs_geom_def n_def)
  have ibu: "used u (iblock i s)" "iblock i s \<notin> blocks_of t (iad i t)"
    using gd(5,6) ia f by (auto simp: u_def inode_area_def free_blocks_def)
  have iau: "inode_area u (iblock i u)" using ia(1) ibu(1) f iu by (simp add: inode_area_def u_def)
  have fu: "fits u ?A 0" using t(6) by (simp add: u_def space_def)
  obtain s' where s': "iupdate i u = Inr s'" "tx_ok {} s'" "tx_frame u s'" "fits s' ?A 0"
    "\<forall>n. n \<noteq> iblock i u \<longrightarrow> content s' n = content u n" "dinode_at s' (inum (inodes u ! i)) (inodes u ! i) = inodes u ! i"
    "\<forall>n x. n \<noteq> inum (inodes u ! i) \<longrightarrow> dinode_at s' n x = dinode_at u n x"
    by (rule iupdate_spec [OF _ fu _ f32 _ iau]) (use t(2) iu in \<open>simp_all add: u_def\<close>)
  have e': "sb s' = sb t" "inodes s' = inodes u" "home (slog s') = home (slog t)" "ldv s' = ldv t"
    using tx_frame_fs [OF s'(3)] tx_frameD [OF s'(3)] by (simp_all add: u_def)
  have ct: "content s' m = content t m" if "m \<noteq> iblock i s" for m using s'(5) that iu by (simp add: u_def)
  have ci: "content s' m = content t m" if "m \<in> bitmap t \<or> m \<in> blocks_of t (iad i t)" for m
    by (rule ct) (use that ia(1) ibu f in \<open>auto simp: inode_area_def\<close>)
  note os = outside_same [OF e'(1,3) gd(3) ci]
  have run: "writei i src off (length d) s = Inr (int (length d), s')"
    using off len t(1) s'(1) up by (simp add: writei_def)
  have fb: "file_bytes s' i = map (fbyte t (iad i t)) [0..<n]"
    unfolding file_bytes_def e'(2) iu(1-3)
  proof (rule map_cong [OF refl])
    fix k
    assume "k \<in> set [0..<n]"
    then have k: "k < n" by simp
    then have "k < MAXFILE * BSIZE" using off(2) fo(4) by (simp add: n_def)
    moreover have "k div BSIZE * BSIZE < n" using k div_times_less_eq_dividend le_less_trans by blast
    ultimately show "fbyte s' (iad i t) k = fbyte t (iad i t) k" using os(4) wb(2) by blast
  qed
  have fok: "file_ok s' i"
    using os(1,2) wb(2) off(2) fo(4) it iu e' f by (auto simp: file_ok_def n_def u_def)
  have oth: "file_ok s' j \<and> file_bytes s' j = file_bytes s j"
    if j: "file_ok s j" "j \<noteq> i" "blocks_of s (iad j s) \<inter> blocks_of s (iad i s) = {}" "iblock i s \<notin> blocks_of s (iad j s)" for j
  proof -
    note go = grown_other [OF g j(1-3) t(4)] and fj = file_okD [OF j(1)]
    have inj: "inodes s' ! j = inodes s ! j" using go(2) j(2) e'(2) by (simp add: u_def)
    have cj: "content s' m = content t m" if "m \<in> bitmap t \<or> m \<in> blocks_of t (iad j s)" for m
      by (rule ct) (use that ia(1) f j(4) go(5) in \<open>auto simp: inode_area_def\<close>)
    note oj = outside_same [OF e'(1,3) go(4) cj]
    have "fbyte s' (iad j s) k = fbyte s (iad j s) k" if k: "k < isz j s" for k
    proof -
      have "k < MAXFILE * BSIZE" using k fj(4) by linarith
      then show ?thesis using oj(4) [of k] go(3,7) fj(5) [OF k] k by simp
    qed
    moreover have "file_ok s' j" using j(1) oj(1,2) go(3) inj e' f gi(1) by (simp add: file_ok_def u_def)
    ultimately show ?thesis by (simp add: file_bytes_def inj)
  qed
  have odn: "dinode_at s' m x = dinode_at s m x" if m: "m \<noteq> inum (inodes s ! i)" "inode_area s (IBLOCK m (sb s))"
    "IBLOCK m (sb s) \<notin> blocks_of s (iad i s)" for m x
  proof -
    have "content t (IBLOCK m (sb s)) = content s (IBLOCK m (sb s))"
      using gd(7) m(2,3) by (simp add: inode_area_def free_blocks_def)
    then show ?thesis using s'(7) m(1) iu f by (simp add: dinode_at_def u_def)
  qed
  have geo: "fs_geom s'" by (rule fs_geom_same [OF t(3) e'(1,3)]) (rule os(5))
  have ds: "disk s' = disk s" using tx_frameD(1) [OF s'(3)] f by (simp add: u_def)
  obtain X where X: "inodes t = (inodes s)[i := (inodes s ! i)\<lparr>iaddrs := X\<rparr>]" using gd(1) by blast
  have ins: "\<exists>as. inodes s' = (inodes s)[i := (inodes s ! i)\<lparr>iaddrs := as, isize := max (isz i s) (off + length d)\<rparr>]"
    using fo(1) by (intro exI [of _ X]) (simp add: e'(2) u_def ip_def X n_def)
  show ?thesis
    by (rule that [OF run]) (use fb wb(1) fok s'(2,4,6) e'(2) iu oth odn geo ds ins in auto)
qed


text \<open>C3: A write of a file is a write into an array of bytes. Inside a transaction with room, writing \<open>d\<close> at an offset
  within the file succeeds with \<open>length d\<close> and turns the file's bytes into the old ones with \<open>d\<close> laid over them at the
  offset, extending the file as needed; the inode on disk is the cached one; the bytes of every file that shares no block
  with this one, every other inode on disk and the layout invariant are kept, and the disk itself is not touched before
  the commit. A write beyond the end or past the largest file is refused without effect.\<close>

theorem writei_overwrites:
  assumes tx: "tx_ok {} s" and geom: "fs_geom s" and ok: "file_ok s i" and ia: "inode_area s (iblock i s)" "iblock i s \<notin> blocks_of s (iad i s)"
    and cp: "copies src d s" and len: "off + length d < 2 ^ 32"
    and sp: "space s (insert (iblock i s) (bitmap s)) (2 * span off (length d))"
  shows "if isz i s < off \<or> MAXFILE * BSIZE < off + length d then writei i src off (length d) s = Inr (- 1, s)
    else \<exists>s'. writei i src off (length d) s = Inr (int (length d), s') \<and>
      file_bytes s' i = take off (file_bytes s i) @ d @ drop (off + length d) (file_bytes s i) \<and>
      file_ok s' i \<and> dinode_at s' (inum (inodes s' ! i)) (inodes s' ! i) = inodes s' ! i \<and>
      (\<forall>j. file_ok s j \<and> j \<noteq> i \<and> blocks_of s (iad j s) \<inter> blocks_of s (iad i s) = {} \<and> iblock i s \<notin> blocks_of s (iad j s) \<longrightarrow>
         file_ok s' j \<and> file_bytes s' j = file_bytes s j) \<and>
      (\<forall>n x. n \<noteq> inum (inodes s ! i) \<and> inode_area s (IBLOCK n (sb s)) \<and> IBLOCK n (sb s) \<notin> blocks_of s (iad i s) \<longrightarrow>
         dinode_at s' n x = dinode_at s n x) \<and>
      tx_ok {} s' \<and> fs_geom s' \<and> disk s' = disk s"
proof (cases "isz i s < off \<or> MAXFILE * BSIZE < off + length d")
  case True
  then show ?thesis using len by (auto simp: writei_def)
next
  case False
  then have off: "off \<le> isz i s" "off + length d \<le> MAXFILE * BSIZE" by auto
  show ?thesis by (rule writei_spec [OF assms off]) (use False in auto)
qed

text \<open>C4: A read of a file is a read of an array of bytes. It returns the bytes from the offset on, as many as were asked
  for and exist, and puts them into the caller's buffer and nowhere else in the user's memory; the contents of the disk
  are unchanged. Past the end it returns nothing.\<close>

theorem readi_delivers:
  assumes tx: "tx_ok {} s" "card (logged s) < NBUF" and ok: "file_ok s i" and n: "off + n < 2 ^ 32"
    and us: "user_inv s (my_pt s) D ps" "user_range s (my_pt s) (unat va) (min n (isz i s - off))"
  shows "if isz i s < off then readi i (User_dst va) off n s = Inr (0, [], s)
    else \<exists>d s'. d = take n (drop off (file_bytes s i)) \<and> readi i (User_dst va) off n s = Inr (int (length d), d, s') \<and>
      (\<forall>y. y div 4096 \<in> D \<longrightarrow>
         umem s' (my_pt s) y = (if unat va \<le> y \<and> y < unat va + length d then d ! (y - unat va) else umem s (my_pt s) y)) \<and>
      tx_ok {} s' \<and> content s' = content s \<and> inodes s' = inodes s \<and> disk s' = disk s"
proof (cases "isz i s < off")
  case True
  then show ?thesis by (simp add: readi_def)
next
  case False
  then have off: "off \<le> isz i s" by simp
  let ?m = "min n (isz i s - off)" and ?d = "take n (drop off (file_bytes s i))"
  have le: "off + (?m - length ([] :: byte list)) \<le> isz i s" using off by simp
  have q: "user_holds va ?m (my_pt s) D ps (umem s (my_pt s)) [] s" using us by (auto simp: user_holds_def)
  have ld: "length ?d = ?m" by (simp add: min_def)
  obtain s' where s': "readi_loop i (User_dst va) off 0 ?m s = Inr (int ?m, ?d, s')" "user_holds va ?m (my_pt s) D ps (umem s (my_pt s)) ?d s'"
    "tx_ok {} s'" "content s' = content s" "mem_frame s s'"
    using user_sink.readi_loop_delivers [OF tx ok q _ order_refl le] unfolding file_bytes_segment [OF off, symmetric] by auto
  have "readi i (User_dst va) off n s = Inr (int (length ?d), ?d, s')" using readi_len [OF ok off n] s'(1) ld by simp
  moreover have "\<forall>y. y div 4096 \<in> D \<longrightarrow>
      umem s' (my_pt s) y = (if unat va \<le> y \<and> y < unat va + length ?d then ?d ! (y - unat va) else umem s (my_pt s) y)"
    using s'(2) unfolding user_holds_def by blast
  ultimately show ?thesis using False s'(3,4) mem_frameD [OF s'(5)] by auto
qed

section \<open>A file of five bytes\<close>

definition sample_inode :: inode where
  "sample_inode = zero_inode\<lparr>idev := 1, inum := 3, iref := 1, ivalid := True, itype := T_FILE, inlink := 1, isize := 5,
     iaddrs := 46 # replicate 12 0\<rparr>"

definition sample_file :: fsstate where
  "sample_file = sample_fs\<lparr>inodes := [sample_inode]\<rparr>"

lemma sample_addr: "addr_of s (46 # replicate 12 0) m = (if m = 0 then 46 else 0)"
  by (auto simp: addr_of_def NDIRECT_def nth_Cons' simp del: replicate_Suc)

lemma sample_blocks: "blocks_of s (46 # replicate 12 0) = {46}"
proof -
  have "addr_of s (46 # replicate 12 0) ` {..<MAXFILE} = {46, 0}"
  proof (rule equalityI)
    have "0 \<in> {..<MAXFILE}" "1 \<in> {..<MAXFILE}" by (simp_all add: MAXFILE_def NDIRECT_def)
    then show "{46, 0} \<subseteq> addr_of s (46 # replicate 12 0) ` {..<MAXFILE}"
      using imageI [of 0 "{..<MAXFILE}" "addr_of s (46 # replicate 12 0)"] imageI [of 1 "{..<MAXFILE}" "addr_of s (46 # replicate 12 0)"]
      by (simp add: sample_addr)
  qed (auto simp: sample_addr)
  then show ?thesis by (simp add: blocks_of_def NDIRECT_def insert_Diff_if)
qed

lemma sample_file_ok:
  "tx_ok {} sample_file" "fs_geom sample_file" "file_ok sample_file 0" "inodes sample_file = [sample_inode]"
  "inode_area sample_file (iblock 0 sample_file)" "iblock 0 sample_file = 32" "iaddrs sample_inode = 46 # replicate 12 0"
  "file_bytes sample_file 0 = [104, 101, 108, 108, 111]" "space sample_file {32, 45} 2" "bitmap sample_file = {45}"
proof -
  let ?s = sample_file
  show tx: "tx_ok {} ?s" and ge: "fs_geom ?s" and bm: "bitmap ?s = {45}" using sample_fs_ok by (simp_all add: sample_file_def)
  show i: "inodes ?s = [sample_inode]" and a: "iaddrs sample_inode = 46 # replicate 12 0"
    by (simp_all add: sample_file_def sample_inode_def del: replicate_Suc)
  have n: "nblk ?s = 1000" "slog ?s = slog sample_fs" "sb ?s = sb sample_fs" by (simp_all add: sample_file_def sample_fs_sel)
  have u: "used ?s x \<longleftrightarrow> x < 48" if "x < 1000" for x using sample_fs_ok(5) [OF that] by (simp add: sample_file_def)
  have h: "home (slog ?s) x \<longleftrightarrow> x < 1000 \<and> \<not> (2 \<le> x \<and> x < 32)" for x by (simp add: home_def n(2) sample_fs_sel FSSIZE_def)
  show ib: "iblock 0 ?s = 32" by (simp add: i sample_inode_def IBLOCK_def n(3) sample_fs_sel IPB_def BSIZE_def)
  show "inode_area ?s (iblock 0 ?s)" unfolding ib by (simp add: inode_area_def u h n(1) bm)
  have mo: "map_ok ?s (46 # replicate 12 0)"
    unfolding map_ok_def sample_blocks by (simp add: sample_addr u h n(1) bm NDIRECT_def del: replicate_Suc)
  show "file_ok ?s 0"
    using mo unfolding file_ok_def i
    by (simp add: a sample_addr n(2) sample_fs_sel) (simp add: sample_inode_def MAXFILE_def NDIRECT_def BSIZE_def)
  have c: "content ?s 46 = [104, 101, 108, 108, 111] @ replicate 1019 0"
    using sample_fs_ok(2) by (simp add: sample_file_def sample_fs_sel sample_block_def)
  have "fbyte ?s (46 # replicate 12 0) k = [104, 101, 108, 108, 111] ! k" if "k < 5" for k
  proof -
    have "fbyte ?s (46 # replicate 12 0) k = ([104, 101, 108, 108, 111] @ replicate 1019 0) ! k"
      using that by (simp add: fbyte_def sample_addr c BSIZE_def del: replicate_Suc append.simps)
    then show ?thesis using that nth_append_left [of k "[104 :: byte, 101, 108, 108, 111]"] by simp
  qed
  then have "map (fbyte ?s (46 # replicate 12 0)) [0..<5] = map ((!) [104, 101, 108, 108, 111]) [0..<5]" by simp
  also have "\<dots> = [104, 101, 108, 108, 111]" by (simp add: upt_rec)
  finally show "file_bytes ?s 0 = [104, 101, 108, 108, 111]"
    by (simp add: file_bytes_def i a) (simp add: sample_inode_def)
  have "{48, 49} \<subseteq> free_blocks ?s" using u [of 48] u [of 49] by (simp add: free_blocks_def n(1))
  then have "card {48, 49 :: nat} \<le> card (free_blocks ?s)" by (intro card_mono) simp_all
  moreover have "logged_list ?s = []" by (simp add: sample_file_def sample_fs_sel)
  ultimately show "space ?s {32, 45} 2" by (simp add: space_def fits_def n(2) sample_fs_sel NBUF_def)
qed

theorem writei_overwrites_witness:
  "\<exists>s'. writei 0 (Kernel_src [112, 33]) 3 2 sample_file = Inr (2, s') \<and>
     file_bytes s' 0 = [104, 101, 108, 112, 33] \<and> file_ok s' 0"
proof -
  note ok = sample_file_ok
  have sp: "space sample_file (insert (iblock 0 sample_file) (bitmap sample_file)) (2 * span 3 (length [112 :: byte, 33]))"
    using ok(6,9,10) by (simp add: span_def BSIZE_def)
  have ib: "iblock 0 sample_file \<notin> blocks_of sample_file (iad 0 sample_file)" unfolding ok(6) by (simp add: ok(4,7) sample_blocks del: replicate_Suc)
  have sz: "isz 0 sample_file = 5" by (simp add: ok(4)) (simp add: sample_inode_def)
  have l: "length [112 :: byte, 33] = 2" "(3 :: nat) + 2 < 2 ^ 32" by simp_all
  show ?thesis
    using writei_overwrites [OF ok(1-3,5) ib kernel_copies _ sp, unfolded l(1), OF l(2)] sz ok(8)
    by (auto simp: MAXFILE_def NDIRECT_def BSIZE_def)
qed

text \<open>The same file system with a process that has two pages of user memory.\<close>

theorem readi_delivers_witness:
  "\<exists>(s :: fsstate) s'. file_bytes s 0 = [104, 101, 108, 108, 111] \<and> readi 0 (User_dst 4095) 1 100 s = Inr (4, [101, 108, 108, 111], s') \<and>
     umem s' (my_pt s) 4095 = 101 \<and> umem s' (my_pt s) 4098 = 111"
proof -
  have b: "unat (0x2000 :: u64) \<le> 255 * 4096" by simp
  have np: "npg 0x2000 = 2" by (simp add: npg_def)
  obtain k :: kmem and root ps where k: "user_inv k root {..<2} ps" "\<forall>i<2. user_page k root i"
    using boot_user [OF b] unfolding np by blast
  define s where "s = sample_file\<lparr>pmem := pmem k, freelist := freelist k, procs := [zero_proc\<lparr>pagetable := root\<rparr>]\<rparr>"
  note ok = sample_file_ok
  have pr: "procs sample_file = [zero_proc]" "cur sample_file = Some 0" by (simp_all add: sample_file_def sample_fs_sel)
  have s: "my_pt s = root" "bufs s = bufs sample_file" "disk s = disk sample_file" "mypid s = mypid sample_file" "slog s = slog sample_file"
    "sb s = sb sample_file" "inodes s = inodes sample_file" "logged_list s = logged_list sample_file"
    by (simp_all add: s_def myproc_def mypid_def pr logged_list_def)
  have bl: "blk dv s = blk dv sample_file" for dv by (rule blk_cong [OF s(2,3)])
  have tx: "tx_ok {} s" using ok(1) cache_ok_cong [OF s(2-4)] by (simp add: tx_ok_def log_inv_def s(3,5,8))
  have ad: "addr_of s = addr_of sample_file" by (intro ext) (simp add: addr_of_def bl s(5))
  have us: "used s = used sample_file" "bitmap s = bitmap sample_file" "blocks_of s = blocks_of sample_file"
    by (auto simp: used_def bitmap_def blocks_of_def ad bl s intro!: ext)
  have fk: "file_ok s 0" using ok(3) by (simp add: file_ok_def map_ok_def ad us s)
  have fb: "file_bytes s 0 = [104, 101, 108, 108, 111]" using ok(8) by (simp add: file_bytes_def fbyte_def [abs_def] ad bl s(5,7))
  have sz: "isz 0 s = 5" by (simp add: s ok(4)) (simp add: sample_inode_def)
  have lg: "card (logged s) < NBUF" by (simp add: s sample_file_def sample_fs_sel NBUF_def)
  have inv: "user_inv s (my_pt s) {..<2} ps" using k(1) user_inv_cong [of s k] s(1) by (simp add: s_def)
  have "user_page s root (y div 4096)" if "y < 8192" for y
    using k(2) user_page_cong [of s k] that by (simp add: s_def less_mult_imp_div_less)
  then have rg: "user_range s (my_pt s) (unat (4095 :: u64)) (min 100 (isz 0 s - 1))" using s(1) sz by (simp add: user_range_def)
  have d: "take 100 (drop 1 (file_bytes s 0)) = [101, 108, 108, 111]" by (simp add: fb)
  have l: "length [101 :: byte, 108, 108, 111] = 4" by simp
  obtain s' where s': "readi 0 (User_dst 4095) 1 100 s = Inr (int 4, [101, 108, 108, 111], s')"
    "\<forall>y. y div 4096 \<in> {..<2} \<longrightarrow> umem s' (my_pt s) y = (if unat (4095 :: u64) \<le> y \<and> y < unat (4095 :: u64) + 4
       then [101, 108, 108, 111] ! (y - unat (4095 :: u64)) else umem s (my_pt s) y)"
    using readi_delivers [OF tx lg fk _ inv rg] sz unfolding d l by auto
  have "umem s' (my_pt s) 4095 = 101" "umem s' (my_pt s) 4098 = 111" using s'(2) by simp_all
  then show ?thesis using fb s'(1) by (intro exI [of _ s] exI [of _ s']) simp
qed

end
