(* ===== verification/FsDir.thy ===== *)
theory FsDir
  imports FsInode
begin

text \<open>
  Directories and path names (\<open>dirlookup\<close>, \<open>dirlink\<close>, \<open>skipelem\<close> of \<open>kernel/fs.c\<close>). The bytes of a directory are a list of
  entries, an inode number and a name of at most \<open>DIRSIZ\<close> bytes each; number 0 marks a free entry. \<open>dirlookup\<close> finds
  the first live entry of a name, \<open>dirlink\<close> adds one, and \<open>skipelem\<close> cuts a path into the elements between slashes.
\<close>

section \<open>Directory entries\<close>

definition dent :: "byte list \<Rightarrow> nat \<Rightarrow> nat \<times> byte list" where
  "dent bs k = (let de = slice (16 * k) 16 bs in (de_inum de, cstr DIRSIZ (de_name de)))"

definition dir_entries :: "'a fsstate_scheme \<Rightarrow> nat \<Rightarrow> (nat \<times> byte list) list" where
  "dir_entries s i = map (dent (file_bytes s i)) [0..<isz i s div 16]"

text \<open>The first live entry with the name, and its offset when the list starts at entry \<open>k\<close>.\<close>

fun dir_find :: "nat \<Rightarrow> byte list \<Rightarrow> (nat \<times> byte list) list \<Rightarrow> (nat \<times> nat) option" where
  "dir_find k nm [] = None"
| "dir_find k nm ((n, m) # es) = (if n \<noteq> 0 \<and> m = nm then Some (n, 16 * k) else dir_find (Suc k) nm es)"

fun dir_slot :: "(nat \<times> byte list) list \<Rightarrow> nat" where
  "dir_slot [] = 0"
| "dir_slot ((n, m) # es) = (if n = 0 then 0 else Suc (dir_slot es))"

definition dir_ok :: "'a fsstate_scheme \<Rightarrow> nat \<Rightarrow> bool" where
  "dir_ok s i \<longleftrightarrow> file_ok s i \<and> itype (inodes s ! i) = T_DIR \<and> isz i s mod 16 = 0"

lemma length_dir_entries [simp]: "length (dir_entries s i) = isz i s div 16"
  by (simp add: dir_entries_def)

lemma dir_bound: "dir_ok s i \<Longrightarrow> isz i s \<le> 274432"
  using file_okD(4) [of s i] by (simp add: dir_ok_def MAXFILE_def NDIRECT_def NINDIRECT_def BSIZE_def)

lemma dir_same:
  assumes "mem_frame s s'" "content s' = content s"
  shows "dir_ok s' i = dir_ok s i" "dir_entries s' i = dir_entries s i" "file_bytes s' i = file_bytes s i"
proof -
  note f = file_ok_same [OF assms] and e = mem_frameD [OF assms(1)]
  show b: "file_bytes s' i = file_bytes s i" by (simp add: file_bytes_def f(2) e(1))
  show "dir_ok s' i = dir_ok s i" "dir_entries s' i = dir_entries s i" by (simp_all add: dir_ok_def f(1) e(1) dir_entries_def b)
qed

text \<open>Reading one entry.\<close>

lemma read_entry:
  assumes tx: "tx_ok {} s" "card (logged s) < NBUF" and d: "dir_ok s i" and k: "k < isz i s div 16"
  obtains de s' where "readi i Kernel_dst (16 * k) 16 s = Inr (16, de, s')" "tx_ok {} s'" "content s' = content s" "slog s' = slog s"
    "mem_frame s s'" "(de_inum de, cstr DIRSIZ (de_name de)) = dir_entries s i ! k"
proof -
  have b: "isz i s = 16 * (isz i s div 16)" using d by (auto simp: dir_ok_def)
  then have o: "16 * k + 16 \<le> isz i s" using k by linarith
  then have "16 * k + 16 \<le> 274432" "16 * k \<le> isz i s" using dir_bound [OF d] by linarith+
  then have off: "16 * k \<le> isz i s" "16 * k + 16 < 2 ^ 32" by simp_all
  have fk: "file_ok s i" using d by (simp add: dir_ok_def)
  obtain s' where s': "readi i Kernel_dst (16 * k) 16 s = Inr (int (min 16 (isz i s - 16 * k)), take 16 (drop (16 * k) (file_bytes s i)), s')"
    "tx_ok {} s'" "content s' = content s" "slog s' = slog s" "mem_frame s s'" "pmem s' = pmem s"
    by (rule readi_kernel [OF tx fk off])
  have m: "min 16 (isz i s - 16 * k) = 16" using o by simp
  have e: "(de_inum (take 16 (drop (16 * k) (file_bytes s i))), cstr DIRSIZ (de_name (take 16 (drop (16 * k) (file_bytes s i))))) =
      dir_entries s i ! k" using k by (simp add: dir_entries_def dent_def Let_def slice_def)
  show ?thesis by (rule that [OF _ s'(2-5) e]) (use s'(1) m in simp)
qed

section \<open>Looking up\<close>

lemma dirlookup_from_spec:
  assumes "tx_ok {} s" "card (logged s) < NBUF" "dir_ok s i" "k \<le> isz i s div 16"
  shows "\<exists>s'. tx_ok {} s' \<and> content s' = content s \<and> slog s' = slog s \<and> mem_frame s s' \<and>
    dirlookup_from i name (16 * k) (isz i s) s =
      (case dir_find k (cstr DIRSIZ name) (drop k (dir_entries s i)) of None \<Rightarrow> Inr (None, s')
       | Some (n, off) \<Rightarrow> kbind (iget (idev (inodes s ! i)) n s') (\<lambda>(j, s). Inr (Some (j, off), s)))"
  using assms
proof (induction "isz i s div 16 - k" arbitrary: k s)
  case 0
  then have "isz i s = 16 * k" by (auto simp: dir_ok_def)
  then show ?case using 0 by (intro exI [of _ s]) (simp add: dirlookup_from.simps mem_frame_tx)
next
  case (Suc m)
  then have k: "k < isz i s div 16" by simp
  then have lt: "16 * k < isz i s" by linarith
  obtain de s1 where r: "readi i Kernel_dst (16 * k) 16 s = Inr (16, de, s1)" "tx_ok {} s1" "content s1 = content s" "slog s1 = slog s"
    "mem_frame s s1" "(de_inum de, cstr DIRSIZ (de_name de)) = dir_entries s i ! k" by (rule read_entry [OF Suc.prems(1-3) k])
  note e = mem_frameD [OF r(5)] and ds = dir_same [OF r(5,3)]
  have dr: "drop k (dir_entries s i) = (de_inum de, cstr DIRSIZ (de_name de)) # drop (Suc k) (dir_entries s i)"
    using k r(6) by (simp add: Cons_nth_drop_Suc)
  have nc: "namecmp name (de_name de) = 0 \<longleftrightarrow> cstr DIRSIZ (de_name de) = cstr DIRSIZ name"
    by (auto simp: namecmp_def strncmp_iff)
  show ?case
  proof (cases "de_inum de \<noteq> 0 \<and> cstr DIRSIZ (de_name de) = cstr DIRSIZ name")
    case True
    then show ?thesis using r(1-5) lt nc e unfolding dr by (intro exI [of _ s1]) (subst dirlookup_from.simps, simp)
  next
    case False
    have st: "dirlookup_from i name (16 * k) (isz i s) s = dirlookup_from i name (16 * Suc k) (isz i s) s1"
      using False r(1) lt nc e(1) by (subst dirlookup_from.simps) (auto simp: algebra_simps)
    have "m = isz i s1 div 16 - Suc k" "dir_ok s1 i" "Suc k \<le> isz i s1 div 16" "card (logged s1) < NBUF"
      using Suc.hyps(2) Suc.prems(2,3) k e(1) ds(1) tx_frame_logged [OF r(4)] by simp_all
    note ih = Suc.hyps(1) [OF this(1) r(2) this(4,2,3)]
    have "dir_find k (cstr DIRSIZ name) (drop k (dir_entries s i)) = dir_find (Suc k) (cstr DIRSIZ name) (drop (Suc k) (dir_entries s i))"
      unfolding dr using False by auto
    moreover obtain s' where s': "tx_ok {} s'" "content s' = content s1" "slog s' = slog s1" "mem_frame s1 s'"
      "dirlookup_from i name (16 * Suc k) (isz i s) s1 =
         (case dir_find (Suc k) (cstr DIRSIZ name) (drop (Suc k) (dir_entries s i)) of None \<Rightarrow> Inr (None, s')
          | Some (n, off) \<Rightarrow> kbind (iget (idev (inodes s ! i)) n s') (\<lambda>(j, s). Inr (Some (j, off), s)))"
      using ih unfolding ds(2) e(1) by blast
    ultimately show ?thesis using mem_frame_trans [OF r(5) s'(4)] r(3,4) e(1) unfolding st s'(5)
      by (intro exI [of _ s']) (use s' in simp)
  qed
qed

lemma dirlookup_spec:
  assumes "tx_ok {} s" "card (logged s) < NBUF" "dir_ok s i"
  shows "\<exists>s'. tx_ok {} s' \<and> content s' = content s \<and> slog s' = slog s \<and> mem_frame s s' \<and>
    dirlookup i name s =
      (case dir_find 0 (cstr DIRSIZ name) (dir_entries s i) of None \<Rightarrow> Inr (None, s')
       | Some (n, off) \<Rightarrow> kbind (iget (idev (inodes s ! i)) n s') (\<lambda>(j, s). Inr (Some (j, off), s)))"
  using dirlookup_from_spec [OF assms, of 0] assms(3) by (simp add: dirlookup_def dir_ok_def)

lemma dirlink_slot_spec:
  assumes "tx_ok {} s" "card (logged s) < NBUF" "dir_ok s i" "k \<le> isz i s div 16"
  shows "\<exists>s'. tx_ok {} s' \<and> content s' = content s \<and> slog s' = slog s \<and> mem_frame s s' \<and>
    dirlink_slot i (16 * k) (isz i s) s = Inr (16 * (k + dir_slot (drop k (dir_entries s i))), s')"
  using assms
proof (induction "isz i s div 16 - k" arbitrary: k s)
  case 0
  then have "isz i s = 16 * k" by (auto simp: dir_ok_def)
  then show ?case using 0 by (intro exI [of _ s]) (simp add: dirlink_slot.simps mem_frame_tx)
next
  case (Suc m)
  then have k: "k < isz i s div 16" by simp
  then have lt: "16 * k < isz i s" by linarith
  obtain de s1 where r: "readi i Kernel_dst (16 * k) 16 s = Inr (16, de, s1)" "tx_ok {} s1" "content s1 = content s" "slog s1 = slog s"
    "mem_frame s s1" "(de_inum de, cstr DIRSIZ (de_name de)) = dir_entries s i ! k" by (rule read_entry [OF Suc.prems(1-3) k])
  note e = mem_frameD [OF r(5)] and ds = dir_same [OF r(5,3)]
  have dr: "drop k (dir_entries s i) = (de_inum de, cstr DIRSIZ (de_name de)) # drop (Suc k) (dir_entries s i)"
    using k r(6) by (simp add: Cons_nth_drop_Suc)
  show ?case
  proof (cases "de_inum de = 0")
    case True
    then show ?thesis using r(1-5) lt unfolding dr by (intro exI [of _ s1]) (subst dirlink_slot.simps, simp)
  next
    case False
    have st: "dirlink_slot i (16 * k) (isz i s) s = dirlink_slot i (16 * Suc k) (isz i s1) s1"
      using False r(1) lt e(1) by (subst dirlink_slot.simps) (auto simp: algebra_simps)
    have "m = isz i s1 div 16 - Suc k" "dir_ok s1 i" "Suc k \<le> isz i s1 div 16" "card (logged s1) < NBUF"
      using Suc.hyps(2) Suc.prems(2,3) k e(1) ds(1) tx_frame_logged [OF r(4)] by simp_all
    note ih = Suc.hyps(1) [OF this(1) r(2) this(4,2,3)]
    have "k + dir_slot (drop k (dir_entries s i)) = Suc k + dir_slot (drop (Suc k) (dir_entries s i))"
      unfolding dr using False by simp
    then show ?thesis using ih mem_frame_trans [OF r(5)] r(3,4) unfolding st ds(2) by (auto simp del: mult_Suc_right)
  qed
qed

section \<open>Adding an entry\<close>

lemma dent_new:
  assumes "0 < n" "n < 65536" "length bs = 16 * k + 16 \<or> 16 * k + 16 \<le> length bs" "slice (16 * k) 16 bs = de_make n name"
  shows "dent bs k = (n, cstr DIRSIZ name)"
proof -
  have l: "length (de_make n name) = 16" by (simp add: de_make_def DIRSIZ_def)
  have "get16 (de_make n name) 0 = (of_nat n :: u16)" by (simp add: get16_def de_make_def slice_def)
  then have i: "de_inum (de_make n name) = n" using assms(2) by (simp add: de_inum_def unat_of_nat)
  have "de_name (de_make n name) j = strncpy (\<lambda>_. 0) name (int DIRSIZ) j" if "j < DIRSIZ" for j
    using that by (simp add: de_name_def de_make_def nth_append)
  then have "map (de_name (de_make n name)) [0..<DIRSIZ] = map (strncpy (\<lambda>_. 0) name (int DIRSIZ)) [0..<DIRSIZ]" by simp
  then have "cstr DIRSIZ (de_name (de_make n name)) = cstr DIRSIZ (strncpy (\<lambda>_. 0) name (int DIRSIZ))" by (simp only: cstr_def)
  then show ?thesis using i assms(4) by (simp add: dent_def cstr_strncpy)
qed

lemma dir_slot_le: "dir_slot es \<le> length es"
  by (induction es rule: dir_slot.induct) auto

lemma dir_slot_free: "dir_slot es < length es \<Longrightarrow> fst (es ! dir_slot es) = 0"
  by (induction es rule: dir_slot.induct) auto

text \<open>Looking up after a free entry, or the end, was overwritten.\<close>

lemma dir_find_update:
  assumes "k < length es" "fst (es ! k) = 0" "0 < n" "dir_find j nm es = None"
  shows "dir_find j m (es[k := (n, nm)]) = (if m = nm then Some (n, 16 * (j + k)) else dir_find j m es)"
  using assms
proof (induction es arbitrary: j k)
  case (Cons e es)
  obtain x y where e: "e = (x, y)" by fastforce
  show ?case
  proof (cases k)
    case 0
    then show ?thesis using Cons.prems e by auto
  next
    case (Suc l)
    have "dir_find (Suc j) nm es = None" "\<not> (x \<noteq> 0 \<and> y = nm)" using Cons.prems(4) e by (auto split: if_splits)
    then show ?thesis using Cons.IH [of l "Suc j"] Cons.prems Suc e by auto
  qed
qed simp

lemma dir_find_append:
  assumes "0 < n" "dir_find j nm es = None"
  shows "dir_find j m (es @ [(n, nm)]) = (if m = nm then Some (n, 16 * (j + length es)) else dir_find j m es)"
  using assms
proof (induction es arbitrary: j)
  case (Cons e es)
  obtain x y where e: "e = (x, y)" by fastforce
  have "dir_find (Suc j) nm es = None" "\<not> (x \<noteq> 0 \<and> y = nm)" using Cons.prems(2) e by (auto split: if_splits)
  then show ?case using Cons.IH [of "Suc j"] Cons.prems e by auto
qed auto

text \<open>The entries after the bytes of entry \<open>k\<close> were overwritten.\<close>

lemma entries_overwritten:
  assumes bs: "length bs = 16 * N" and k: "k \<le> N" and de: "length de = 16" "dent (replicate (16 * k) 0 @ de) k = x"
  defines "bs' \<equiv> take (16 * k) bs @ de @ drop (16 * k + 16) bs"
  shows "map (dent bs') [0..<length bs' div 16] =
    (if k < N then (map (dent bs) [0..<N])[k := x] else map (dent bs) [0..<N] @ [x])"
proof -
  have len: "length bs' = 16 * (if k < N then N else Suc N)" using bs k de by (auto simp: bs'_def)
  have dx: "dent bs' k = x"
  proof -
    have "slice (16 * k) 16 bs' = de" using bs k de by (simp add: bs'_def slice_def)
    moreover have "slice (16 * k) 16 (replicate (16 * k) 0 @ de) = de" using de by (simp add: slice_def)
    ultimately show ?thesis using de(2) by (simp add: dent_def)
  qed
  have dj: "dent bs' j = dent bs j" if jn: "j < N" "j \<noteq> k" for j
  proof -
    have "slice (16 * j) 16 bs' = slice (16 * j) 16 bs"
    proof (cases "j < k")
      case True
      then have "16 * j + 16 \<le> 16 * k" by simp
      then have le: "16 * j + 16 \<le> length (take (16 * k) bs)" "16 \<le> 16 * k - 16 * j" using bs k by simp_all
      show ?thesis unfolding bs'_def slice_append_left [OF le(1)] using le(2) by (simp add: slice_def drop_take)
    next
      case False
      then obtain e where e: "j = Suc (k + e)" using jn(2) less_imp_Suc_add [of k j] by auto
      have "drop (16 * j) bs' = drop (16 * e) (drop (16 * k + 16) bs)"
        using bs k de(1) e by (simp add: bs'_def)
      also have "\<dots> = drop (16 * j) bs" using e by (simp add: algebra_simps)
      finally show ?thesis by (simp add: slice_def)
    qed
    then show ?thesis by (simp add: dent_def)
  qed
  show ?thesis
  proof (cases "k < N")
    case True
    then have d16: "length bs' div 16 = N" using len by simp
    show ?thesis unfolding d16 using True dx dj by (intro nth_equalityI) (auto simp: nth_list_update)
  next
    case False
    then have "k = N" "length bs' div 16 = Suc N" using len k by simp_all
    moreover have "map (dent bs') [0..<N] = map (dent bs) [0..<N]" using dj \<open>k = N\<close> by simp
    ultimately show ?thesis using dx by simp
  qed
qed

lemma span_entry: "span (16 * k) 16 = 1"
proof -
  have "16 * k mod BSIZE = 16 * (k mod 64)" using mult_mod_right [of 16 k 64] by (simp add: BSIZE_def)
  moreover have "k mod 64 < 64" by simp
  ultimately have "16 * k mod BSIZE + 15 < BSIZE" unfolding BSIZE_def by linarith
  then have "(16 * k + 15) div BSIZE = 16 * k div BSIZE" by (rule block_offset)
  then show ?thesis by (simp add: span_def add.commute)
qed

text \<open>What a live entry means to a caller: the inode it names, referenced once more.\<close>

definition finds :: "nat \<Rightarrow> cptr \<Rightarrow> nat \<Rightarrow> nat \<Rightarrow> 'a fsstate_scheme \<Rightarrow> bool" where
  "finds i name n off s \<longleftrightarrow> (\<exists>s'. dirlookup i name s = kbind (iget (idev (inodes s ! i)) n s') (\<lambda>(j, s). Inr (Some (j, off), s)) \<and>
     content s' = content s \<and> inodes s' = inodes s)"

definition misses :: "nat \<Rightarrow> cptr \<Rightarrow> 'a fsstate_scheme \<Rightarrow> bool" where
  "misses i name s \<longleftrightarrow> (\<exists>s'. dirlookup i name s = Inr (None, s') \<and> content s' = content s \<and> inodes s' = inodes s)"

lemma dirlookup_cases:
  assumes "tx_ok {} s" "card (logged s) < NBUF" "dir_ok s i"
  shows "(case dir_find 0 (cstr DIRSIZ name) (dir_entries s i) of None \<Rightarrow> misses i name s | Some (n, off) \<Rightarrow> finds i name n off s)"
proof -
  obtain s' where s': "content s' = content s" "mem_frame s s'" "dirlookup i name s =
      (case dir_find 0 (cstr DIRSIZ name) (dir_entries s i) of None \<Rightarrow> Inr (None, s')
       | Some (n, off) \<Rightarrow> kbind (iget (idev (inodes s ! i)) n s') (\<lambda>(j, s). Inr (Some (j, off), s)))"
    using dirlookup_spec [OF assms, of name] by blast
  then show ?thesis using mem_frameD(1) [OF s'(2)]
    by (cases "dir_find 0 (cstr DIRSIZ name) (dir_entries s i)") (auto simp: finds_def misses_def)
qed

text \<open>C13: Names entered into a directory are found again. In a directory without the name, inside a transaction with
  room, \<open>dirlink\<close> succeeds, and afterwards \<open>dirlookup\<close> of any name that agrees with it in the first \<open>DIRSIZ\<close> bytes
  finds the new inode number at the offset used; every other name is found or missed as before. The directory stays
  well-formed.\<close>

theorem dirlink_dirlookup:
  assumes tx: "tx_ok {} s" and geom: "fs_geom s" and d: "dir_ok s i" and ia: "inode_area s (iblock i s)" "iblock i s \<notin> blocks_of s (iad i s)"
    and sp: "space s (insert (iblock i s) (bitmap s)) 2" and n: "0 < n" "n < 65536" and sz: "isz i s + 16 \<le> MAXFILE * BSIZE"
    and new: "dir_find 0 (cstr DIRSIZ name) (dir_entries s i) = None"
  shows "\<exists>s' off. dirlink i name n s = Inr (0, s') \<and> dir_ok s' i \<and> off < isz i s' \<and>
    (\<forall>m. if cstr DIRSIZ m = cstr DIRSIZ name then finds i m n off s'
         else case dir_find 0 (cstr DIRSIZ m) (dir_entries s i) of None \<Rightarrow> misses i m s' | Some (n', off') \<Rightarrow> finds i m n' off' s')"
proof -
  let ?A = "insert (iblock i s) (bitmap s)"
  have fk: "file_ok s i" and c: "card (logged s) < NBUF" and al: "16 * (isz i s div 16) = isz i s"
    using d sp fits_bufs [of s ?A 2 "{}"] by (auto simp: dir_ok_def space_def)
  obtain s1 where s1: "tx_ok {} s1" "content s1 = content s" "slog s1 = slog s" "mem_frame s s1" "dirlookup i name s = Inr (None, s1)"
    using dirlookup_spec [OF tx c d, of name] new by auto
  note e1 = mem_frameD [OF s1(4)] and d1 = dir_same [OF s1(4,2)]
  have c1: "card (logged s1) < NBUF" using c tx_frame_logged [OF s1(3)] by simp
  define k where "k = dir_slot (dir_entries s i)"
  have kl: "k \<le> isz i s div 16" using dir_slot_le [of "dir_entries s i"] by (simp add: k_def)
  obtain s2 where s2: "tx_ok {} s2" "content s2 = content s1" "slog s2 = slog s1" "mem_frame s1 s2"
    "dirlink_slot i 0 (isz i s1) s1 = Inr (16 * k, s2)"
    using dirlink_slot_spec [OF s1(1) c1, of i 0] d d1 by (auto simp: k_def)
  have f2: "mem_frame s s2" "content s2 = content s" "slog s2 = slog s" using mem_frame_trans [OF s1(4) s2(4)] s1(2,3) s2(2,3) by simp_all
  note e2 = mem_frameD [OF f2(1)] and d2 = dir_same [OF f2(1,2)] and fo2 = file_ok_same [OF f2(1,2)]
  have us: "used s2 = used s" "bitmap s2 = bitmap s" "addr_of s2 = addr_of s"
    using f2(2,3) e2 by (auto simp: used_def bitmap_def addr_of_def intro!: ext)
  then have bo: "blocks_of s2 = blocks_of s" by (auto simp: blocks_of_def intro!: ext)
  have geom2: "fs_geom s2" by (rule fs_geom_same [OF geom e2(2,5)]) (simp add: us)
  let ?de = "de_make n name"
  have ld: "length ?de = 16" by (simp add: de_make_def DIRSIZ_def)
  have ib2: "iblock i s2 = iblock i s" "isz i s2 = isz i s" "iad i s2 = iad i s" using e2 by simp_all
  have ia2: "inode_area s2 (iblock i s2)" "iblock i s2 \<notin> blocks_of s2 (iad i s2)"
    using ia e2 f2(3) unfolding ib2 inode_area_def us bo by simp_all
  have k16: "16 * k \<le> isz i s" using kl al by linarith
  have off: "16 * k \<le> isz i s2" "16 * k + length ?de \<le> MAXFILE * BSIZE" using k16 sz unfolding ib2 ld by simp_all
  have lt: "16 * k + length ?de < 2 ^ 32" using off(2) by (simp add: MAXFILE_def NDIRECT_def NINDIRECT_def BSIZE_def)
  have sp2: "space s2 (insert (iblock i s2) (bitmap s2)) (2 * span (16 * k) (length ?de))"
    using sp space_cong [OF f2(3) e2(2) f2(2)] unfolding ld span_entry ib2 us by simp
  obtain s' where s': "writei i (Kernel_src ?de) (16 * k) (length ?de) s2 = Inr (int (length ?de), s')"
    "file_bytes s' i = take (16 * k) (file_bytes s2 i) @ ?de @ drop (16 * k + length ?de) (file_bytes s2 i)"
    "file_ok s' i" "tx_ok {} s'" "fits s' (insert (iblock i s2) (bitmap s2)) 0"
    "\<exists>as. inodes s' = (inodes s2)[i := (inodes s2 ! i)\<lparr>iaddrs := as, isize := max (isz i s2) (16 * k + length ?de)\<rparr>]"
    by (rule writei_spec [OF s2(1) geom2 _ ia2 kernel_copies lt sp2 off]) (use fk fo2 in simp_all)
  have il: "i < length (inodes s2)" using file_okD(1) [OF fk] e2 by simp
  have in': "itype (inodes s' ! i) = T_DIR" "isz i s' = max (isz i s) (16 * k + 16)"
    using s'(6) il d e2 ld by (auto simp: dir_ok_def)
  have d': "dir_ok s' i" using s'(3) in' d by (auto simp: dir_ok_def max_def)
  have run: "dirlink i name n s = Inr (0, s')"
    using s1(5) s2(5) s'(1) ld by (simp add: dirlink_def)
  have es: "dir_entries s' i = (if k < isz i s div 16 then (dir_entries s i)[k := (n, cstr DIRSIZ name)]
      else dir_entries s i @ [(n, cstr DIRSIZ name)])"
  proof -
    have "dent (replicate (16 * k) 0 @ ?de) k = (n, cstr DIRSIZ name)" by (rule dent_new [OF n]) (simp_all add: ld slice_def)
    moreover have "length (file_bytes s2 i) = 16 * (isz i s div 16)" using al e2 by simp
    moreover have "isz i s' = length (file_bytes s' i)" by simp
    ultimately show ?thesis
      using entries_overwritten [of "file_bytes s2 i" "isz i s div 16" k ?de "(n, cstr DIRSIZ name)"] kl ld d2(2,3) s'(2)
      unfolding dir_entries_def by (simp add: ld) 
  qed
  have look: "dir_find 0 m (dir_entries s' i) = (if m = cstr DIRSIZ name then Some (n, 16 * k) else dir_find 0 m (dir_entries s i))" for m
  proof (cases "k < isz i s div 16")
    case True
    then have "fst (dir_entries s i ! k) = 0" using dir_slot_free [of "dir_entries s i"] by (simp add: k_def)
    then show ?thesis using dir_find_update [OF _ _ n(1) new, of k m] True unfolding es by simp
  next
    case False
    then have "k = isz i s div 16" using kl by simp
    then show ?thesis using dir_find_append [OF n(1) new, of m] False unfolding es by simp
  qed
  have c': "card (logged s') < NBUF" using fits_bufs [OF s'(5), of "{}"] by simp
  have "if cstr DIRSIZ m = cstr DIRSIZ name then finds i m n (16 * k) s'
      else case dir_find 0 (cstr DIRSIZ m) (dir_entries s i) of None \<Rightarrow> misses i m s' | Some (n', off') \<Rightarrow> finds i m n' off' s'" for m
    using dirlookup_cases [OF s'(4) c' d', of m] look [of "cstr DIRSIZ m"] by (auto split: option.splits)
  then show ?thesis using run d' in'(2) by (intro exI [of _ s'] exI [of _ "16 * k"]) simp
qed

text \<open>A directory whose one entry is inode 25960 under the name \<open>llo\<close>.\<close>

definition sample_dir :: fsstate where
  "sample_dir = sample_fs\<lparr>inodes := [sample_inode\<lparr>itype := T_DIR, isize := 16\<rparr>]\<rparr>"

lemma cstr_prefix:
  assumes "length e \<le> n" "\<forall>k<length e. p k = e ! k" "length e < n \<longrightarrow> p (length e) = 0" "0 \<notin> set e"
  shows "cstr n p = e"
proof -
  have "map p [0..<n] = map p [0..<length e] @ map p [length e..<n]"
    using assms(1) by (metis le_add_diff_inverse map_append upt_add_eq_append zero_le)
  moreover have "map p [0..<length e] = e" using assms(2) by (intro nth_equalityI) simp_all
  ultimately have m: "map p [0..<n] = e @ map p [length e..<n]" by simp
  have "takeWhile (\<lambda>b. b \<noteq> 0) (map p [length e..<n]) = []"
    using assms(1,3) by (cases "length e < n") (simp_all add: upt_conv_Cons)
  then show ?thesis unfolding cstr_def m using assms(4) by (subst takeWhile_append2) auto
qed

lemma sample_dent: "dent ([104, 101, 108, 108, 111] @ replicate 11 0) 0 = (25960, [108, 108, 111])"
proof -
  let ?b = "[104, 101, 108, 108, 111] @ replicate 11 0 :: byte list"
  have l: "slice 0 16 ?b = ?b" by (simp add: slice_def)
  have "slice 0 2 ?b = [104, 101]" by (simp add: slice_def)
  moreover have "bytes_word [104 :: byte, 101] = (25960 :: u16)" by simp
  ultimately have i: "de_inum ?b = 25960" by (simp only: de_inum_def get16_def) simp
  have "cstr DIRSIZ (de_name ?b) = [108, 108, 111]"
    by (rule cstr_prefix) (simp_all add: de_name_def DIRSIZ_def numeral_3_eq_3 All_less_Suc)
  then show ?thesis using l i by (simp add: dent_def)
qed

lemma map_nth_take: "n \<le> length xs \<Longrightarrow> map ((!) xs) [0..<n] = take n xs"
  by (intro nth_equalityI) simp_all

lemma sample_dir_ok:
  "tx_ok {} sample_dir" "fs_geom sample_dir" "dir_ok sample_dir 0" "inode_area sample_dir (iblock 0 sample_dir)"
  "iblock 0 sample_dir \<notin> blocks_of sample_dir (iad 0 sample_dir)" "space sample_dir (insert (iblock 0 sample_dir) (bitmap sample_dir)) 2"
  "isz 0 sample_dir = 16" "dir_entries sample_dir 0 = [(25960, [108, 108, 111])]"
proof -
  let ?s = sample_dir
  note ok = sample_file_ok
  have x: "?s = sample_file\<lparr>inodes := [sample_inode\<lparr>itype := T_DIR, isize := 16\<rparr>]\<rparr>" by (simp add: sample_dir_def sample_file_def)
  show "tx_ok {} ?s" "fs_geom ?s" using ok by (simp_all add: x)
  have i: "inodes ?s = [sample_inode\<lparr>itype := T_DIR, isize := 16\<rparr>]" by (simp add: x)
  have sel: "inodes ?s ! 0 = sample_inode\<lparr>itype := T_DIR, isize := 16\<rparr>" "iad 0 ?s = 46 # replicate 12 0" using ok(7) by (simp_all add: i)
  show sz: "isz 0 ?s = 16" by (simp add: i)
  have ib: "iblock 0 ?s = 32" using ok(4,6) by (simp add: x)
  have g: "slog ?s = slog sample_file" "sb ?s = sb sample_file" by (simp_all add: x)
  show "inode_area ?s (iblock 0 ?s)" using ok(5,6) unfolding ib inode_area_def by (simp add: x)
  show "iblock 0 ?s \<notin> blocks_of ?s (iad 0 ?s)" unfolding ib sel(2) by (simp add: sample_blocks del: replicate_Suc)
  show "space ?s (insert (iblock 0 ?s) (bitmap ?s)) 2" unfolding ib using ok(9,10) by (simp add: x)
  have "map_ok sample_file (46 # replicate 12 0)" using file_okD(3) [OF ok(3)] ok(4,7) by simp
  then have mo: "map_ok ?s (46 # replicate 12 0)" by (simp add: x del: replicate_Suc)
  have dv: "idev sample_inode = 1" "ldv ?s = 1" by (simp_all add: sample_inode_def g sample_file_def sample_fs_sel)
  show "dir_ok ?s 0"
    using mo dv ok(7) unfolding dir_ok_def file_ok_def i
    by (simp add: sample_addr MAXFILE_def NDIRECT_def BSIZE_def del: replicate_Suc)
  have c: "content ?s 46 = [104, 101, 108, 108, 111] @ replicate 1019 0"
    using sample_fs_ok(2) by (simp add: sample_dir_def sample_fs_sel sample_block_def)
  have "fbyte ?s (46 # replicate 12 0) k = ([104, 101, 108, 108, 111] @ replicate 1019 0) ! k" if "k < 16" for k
    using that by (simp add: fbyte_def sample_addr c BSIZE_def del: replicate_Suc append.simps)
  then have "map (fbyte ?s (46 # replicate 12 0)) [0..<16] = map ((!) ([104, 101, 108, 108, 111] @ replicate 1019 0)) [0..<16]" by simp
  also have "\<dots> = take 16 ([104, 101, 108, 108, 111] @ replicate 1019 0)"
    by (rule map_nth_take) simp
  also have "\<dots> = [104, 101, 108, 108, 111] @ replicate 11 0" by simp
  finally have fb: "file_bytes ?s 0 = [104, 101, 108, 108, 111] @ replicate 11 0"
    unfolding file_bytes_def sz sel(2) by simp
  show "dir_entries ?s 0 = [(25960, [108, 108, 111])]" unfolding dir_entries_def sz fb using sample_dent by simp
qed

theorem dirlink_dirlookup_witness:
  "\<exists>s' off. dirlink 0 (\<lambda>k. if k = 0 then 97 else 0) 7 sample_dir = Inr (0, s') \<and> finds 0 (\<lambda>k. if k = 0 then 97 else 0) 7 off s' \<and>
     finds 0 (\<lambda>k. if k < 2 then 108 else if k = 2 then 111 else 0) 25960 0 s'"
proof -
  let ?a = "\<lambda>k :: nat. if k = 0 then 97 else (0 :: byte)" and ?l = "\<lambda>k :: nat. if k < 2 then 108 else if k = 2 then 111 else (0 :: byte)"
  note ok = sample_dir_ok
  have a: "cstr DIRSIZ ?a = [97]" and l: "cstr DIRSIZ ?l = [108, 108, 111]" by code_simp+
  have new: "dir_find 0 (cstr DIRSIZ ?a) (dir_entries sample_dir 0) = None" unfolding a ok(8) by simp
  have sz: "isz 0 sample_dir + 16 \<le> MAXFILE * BSIZE" by (simp add: ok(7) MAXFILE_def NDIRECT_def NINDIRECT_def BSIZE_def)
  have old: "dir_find 0 (cstr DIRSIZ ?l) (dir_entries sample_dir 0) = Some (25960, 0)" unfolding l ok(8) by simp
  obtain s' off where s': "dirlink 0 ?a 7 sample_dir = Inr (0, s')"
    and f: "\<forall>m. if cstr DIRSIZ m = cstr DIRSIZ ?a then finds 0 m 7 off s'
         else case dir_find 0 (cstr DIRSIZ m) (dir_entries sample_dir 0) of None \<Rightarrow> misses 0 m s' | Some (n', off') \<Rightarrow> finds 0 m n' off' s'"
    using dirlink_dirlookup [OF ok(1-6) _ _ sz new, of 7] by auto
  have "finds 0 ?a 7 off s'" using f [rule_format, of ?a] by simp
  moreover have "finds 0 ?l 25960 0 s'" using f [rule_format, of ?l] unfolding old unfolding a l by simp
  ultimately show ?thesis using s' by blast
qed

section \<open>Path names\<close>

text \<open>The reference: split at every slash and drop the empty pieces.\<close>

fun split_on :: "'a \<Rightarrow> 'a list \<Rightarrow> 'a list list" where
  "split_on c [] = [[]]"
| "split_on c (x # xs) = (if x = c then [] # split_on c xs
     else case split_on c xs of [] \<Rightarrow> [[x]] | e # es \<Rightarrow> (x # e) # es)"

definition path_elems :: "byte list \<Rightarrow> byte list list" where
  "path_elems p = filter (\<lambda>e. e \<noteq> []) (split_on slash p)"

lemma split_on_Nil: "split_on c xs \<noteq> []"
  by (induction xs) (auto split: list.splits)

lemma path_elems_slash: "path_elems (slash # p) = path_elems p"
  by (simp add: path_elems_def)

lemma path_elems_drop: "path_elems (dropWhile (\<lambda>c. c = slash) p) = path_elems p"
  by (induction p) (simp_all add: path_elems_slash)

lemma split_on_take:
  "split_on c xs = takeWhile (\<lambda>x. x \<noteq> c) xs # (case dropWhile (\<lambda>x. x \<noteq> c) xs of [] \<Rightarrow> [] | _ # ys \<Rightarrow> split_on c ys)"
  by (induction xs) auto

lemma path_elems_take:
  assumes "p \<noteq> []" "hd p \<noteq> slash"
  shows "path_elems p = takeWhile (\<lambda>c. c \<noteq> slash) p # path_elems (dropWhile (\<lambda>c. c \<noteq> slash) p)"
proof -
  have ne: "takeWhile (\<lambda>c. c \<noteq> slash) p \<noteq> []" using assms by (cases p) auto
  note sp = split_on_take [of slash p]
  show ?thesis
  proof (cases "dropWhile (\<lambda>c. c \<noteq> slash) p")
    case Nil
    show ?thesis using ne sp unfolding Nil by (simp add: path_elems_def)
  next
    case (Cons y ys)
    then have "y = slash" using hd_dropWhile [of "\<lambda>c. c \<noteq> slash" p] by simp
    then show ?thesis using ne sp Cons by (simp add: path_elems_def)
  qed
qed

text \<open>C14: Cutting a path with \<open>skipelem\<close> gives the elements of the path: the pieces between slashes that are not empty.
  No element is left exactly if \<open>skipelem\<close> returns 0; otherwise it stores the first one, cut to \<open>DIRSIZ\<close> bytes, in the
  buffer, and the path it returns has the others and is empty exactly if there are none, which is how \<open>namex\<close> knows
  the last element.\<close>

theorem skipelem_elements:
  assumes "0 \<notin> set path"
  shows "(skipelem path name = None \<longleftrightarrow> path_elems path = []) \<and>
    (skipelem path name = Some (path', name') \<longrightarrow>
      (\<exists>e. path_elems path = e # path_elems path' \<and> cstr DIRSIZ name' = take DIRSIZ e) \<and>
      (path' = [] \<longleftrightarrow> path_elems path' = []) \<and> 0 \<notin> set path' \<and> (\<forall>k\<ge>DIRSIZ. name' k = name k))"
proof -
  define p where "p = dropWhile (\<lambda>c. c = slash) path"
  have pe: "path_elems path = path_elems p" by (simp add: p_def path_elems_drop)
  have hd: "p \<noteq> [] \<Longrightarrow> hd p \<noteq> slash" unfolding p_def by (metis (mono_tags) hd_dropWhile)
  let ?e = "takeWhile (\<lambda>c. c \<noteq> slash) p"
  have sk: "skipelem path name = (if p = [] then None
      else Some (dropWhile (\<lambda>c. c = slash) (dropWhile (\<lambda>c. c \<noteq> slash) p),
        if length ?e \<ge> DIRSIZ then (\<lambda>k. if k < DIRSIZ then ?e ! k else name k)
        else (\<lambda>k. if k < length ?e then ?e ! k else name k)(length ?e := 0)))"
    unfolding skipelem_def Let_def p_def by (rule refl)
  then have none: "skipelem path name = None \<longleftrightarrow> p = []" by simp
  have pn: "path_elems p = [] \<longleftrightarrow> p = []" using path_elems_take [OF _ hd] by (cases "p = []") (auto simp: path_elems_def)
  have rest: "(\<exists>e. path_elems path = e # path_elems path' \<and> cstr DIRSIZ name' = take DIRSIZ e) \<and>
      (path' = [] \<longleftrightarrow> path_elems path' = []) \<and> 0 \<notin> set path' \<and> (\<forall>k\<ge>DIRSIZ. name' k = name k)"
    if r: "skipelem path name = Some (path', name')"
  proof -
    have ne: "p \<noteq> []" using none r by auto
    define q where "q = dropWhile (\<lambda>c. c \<noteq> slash) p"
    have p': "path' = dropWhile (\<lambda>c. c = slash) q"
      and nm: "name' = (if length ?e \<ge> DIRSIZ then (\<lambda>k. if k < DIRSIZ then ?e ! k else name k)
         else (\<lambda>k. if k < length ?e then ?e ! k else name k)(length ?e := 0))"
      using r ne unfolding sk q_def by simp_all
    have "path_elems path = ?e # path_elems path'"
      using path_elems_take [OF ne hd [OF ne]] unfolding pe p' path_elems_drop q_def .
    moreover have z: "0 \<notin> set ?e" "0 \<notin> set path'"
      using assms by (auto simp: p' p_def q_def dest!: set_takeWhileD set_dropWhileD)
    have "cstr DIRSIZ name' = take DIRSIZ ?e"
    proof (rule cstr_prefix)
      show "0 \<notin> set (take DIRSIZ ?e)" using z(1) by (auto dest: in_set_takeD)
    qed (auto simp: nm)
    moreover have "path' = [] \<longleftrightarrow> path_elems path' = []"
    proof (cases "path' = []")
      case False
      then have "hd path' \<noteq> slash" unfolding p' by (metis (mono_tags) hd_dropWhile)
      then show ?thesis using path_elems_take [OF False] False by simp
    qed (simp add: path_elems_def)
    ultimately show ?thesis using z(2) by (auto simp: nm)
  qed
  show ?thesis by (rule conjI, simp add: none pe pn, rule impI, rule rest)
qed

theorem skipelem_elements_witness:
  "\<exists>path' name'. skipelem (ascii ''//a/bb'') (\<lambda>_. 0) = Some (path', name') \<and> path_elems (ascii ''//a/bb'') = [[97], [98, 98]] \<and>
     path_elems path' = [[98, 98]] \<and> cstr DIRSIZ name' = [97]"
proof -
  have e: "path_elems (ascii ''//a/bb'') = [[97], [98, 98]]" and z: "0 \<notin> set (ascii ''//a/bb'')" by code_simp+
  obtain path' name' where r: "skipelem (ascii ''//a/bb'') (\<lambda>_. 0) = Some (path', name')"
    using skipelem_elements [OF z, of "\<lambda>_. 0" "[]" "\<lambda>_. 0"] e by (cases "skipelem (ascii ''//a/bb'') (\<lambda>_. 0)") auto
  have "DIRSIZ = 14" by (simp add: DIRSIZ_def)
  then show ?thesis using skipelem_elements [OF z, of "\<lambda>_. 0" path' name'] r e by auto
qed

end
