(* ===== verification/ProcTable.thy ===== *)
theory ProcTable
  imports Proc
begin

text \<open>
  The process table through every operation of \<open>kernel/proc.c\<close> that changes it. \<open>table_step\<close> is one such operation by the
  running process or an interrupt; \<open>table_ok\<close> is the well-formedness of the table. The second half runs the scheduler over
  such steps and shows that no runnable process waits longer than one round.
\<close>

section \<open>Operations on memory leave the table alone\<close>

named_theorems more_simps

lemma kalloc_more [more_simps]: "kalloc s = (p, s') \<Longrightarrow> kmem.more s' = kmem.more s"
  by (auto simp: kalloc_def Let_def split: if_splits)

lemma kfree_more [more_simps]: "kfree p s = Inr s' \<Longrightarrow> kmem.more s' = kmem.more s"
  by (auto simp: kfree_def Let_def split: if_splits)

lemma walk_level_more: "walk_level l pt va al s = (r, s') \<Longrightarrow> kmem.more s' = kmem.more s"
proof (induction l arbitrary: pt s)
  case (Suc l)
  then show ?case by (auto simp: Let_def split: if_splits prod.splits dest: kalloc_more)
qed simp

lemma walk_more [more_simps]: "walk pt va al s = Inr (r, s') \<Longrightarrow> kmem.more s' = kmem.more s"
  using walk_level_more [of 3 pt va al s r s'] by (auto simp: walk_def split: if_splits)

lemma mappages_loop_more: "mappages_loop pt a l pa pm s = Inr (r, s') \<Longrightarrow> kmem.more s' = kmem.more s"
proof (induction "0x200000 - unat a" arbitrary: a pa s rule: less_induct)
  case less
  obtain pte t where w: "walk pt a True s = Inr (pte, t)"
    using less.prems by (subst (asm) mappages_loop.simps) (auto simp: kbind_eq_Inr)
  let ?u = "t\<lparr>pmem := store64 (pmem t) pte (PA2PTE pa OR pm OR PTE_V)\<rparr>"
  have "s' = t \<or> s' = ?u \<or> mappages_loop pt (a + PGSIZE) l (pa + PGSIZE) pm ?u = Inr (r, s')"
    using less.prems w by (subst (asm) mappages_loop.simps) (auto simp: Let_def split: if_splits)
  moreover have "0x200000 - unat (a + PGSIZE) < 0x200000 - unat a" using walk_Inr_lt [OF w] by (auto simp: PGSIZE_def)
  ultimately show ?case using less.hyps [of "a + PGSIZE" "pa + PGSIZE" ?u] walk_more [OF w] by auto
qed

lemma mappages_more [more_simps]: "mappages pt va sz pa pm s = Inr (r, s') \<Longrightarrow> kmem.more s' = kmem.more s"
  by (auto simp: mappages_def split: if_splits dest: mappages_loop_more)

lemma uvmunmap_loop_more: "uvmunmap_loop pt a l f s = Inr s' \<Longrightarrow> kmem.more s' = kmem.more s"
proof (induction "0x200000 - unat a" arbitrary: a s rule: less_induct)
  case less
  show ?case
  proof (cases "a < l")
    case True
    then obtain pte t u where w: "walk pt a False s = Inr (pte, t)" "kmem.more u = kmem.more t"
      "uvmunmap_loop pt (a + PGSIZE) l f (u\<lparr>pmem := store64 (pmem u) pte 0\<rparr>) = Inr s'"
      using less.prems by (subst (asm) uvmunmap_loop.simps) (auto simp: kbind_eq_Inr split: if_splits dest: kfree_more)
    have "0x200000 - unat (a + PGSIZE) < 0x200000 - unat a" using walk_Inr_lt [OF w(1)] by (auto simp: PGSIZE_def)
    then show ?thesis using less.hyps [OF _ w(3)] walk_more [OF w(1)] w(2) by simp
  next
    case False
    then show ?thesis using less.prems by (simp add: uvmunmap_loop.simps)
  qed
qed

lemma uvmunmap_more [more_simps]: "uvmunmap pt va n f s = Inr s' \<Longrightarrow> kmem.more s' = kmem.more s"
  by (auto simp: uvmunmap_def split: if_splits dest: uvmunmap_loop_more)

lemma uvmcreate_more [more_simps]: "uvmcreate s = (p, s') \<Longrightarrow> kmem.more s' = kmem.more s"
  by (auto simp: uvmcreate_def split: prod.splits if_splits dest: kalloc_more)

lemma kfor_more:
  assumes "\<And>x s s'. x \<in> set xs \<Longrightarrow> f x s = Inr s' \<Longrightarrow> kmem.more s' = kmem.more s" "kfor f xs s = Inr s'"
  shows "kmem.more s' = kmem.more s"
  using assms
proof (induction xs arbitrary: s)
  case (Cons x xs)
  from Cons.prems(2) obtain t where t: "f x s = Inr t" "kfor f xs t = Inr s'" by (auto simp: kbind_eq_Inr)
  have "kmem.more t = kmem.more s" using Cons.prems(1) [of x s t] t(1) by simp
  moreover have "kmem.more s' = kmem.more t" by (rule Cons.IH [OF _ t(2)]) (rule Cons.prems(1), simp_all)
  ultimately show ?case by simp
qed simp

lemma freewalk_more: "freewalk n pt (s :: 'a kmem_scheme) = Inr s' \<Longrightarrow> kmem.more s' = kmem.more s"
proof (induction n arbitrary: pt s s')
  case (Suc n)
  from Suc.prems obtain t where t: "kfor (freewalk_entry (freewalk n) pt) [0..<512] s = Inr t" "kfree pt t = Inr s'"
    by (auto simp: kbind_eq_Inr)
  have "kmem.more u' = kmem.more u" if "freewalk_entry (freewalk n) pt i u = Inr u'" for i u and u' :: "'a kmem_scheme"
    using that by (auto simp: freewalk_entry_def Let_def kbind_eq_Inr split: if_splits dest!: Suc.IH)
  then have "kmem.more t = kmem.more s" using kfor_more [OF _ t(1)] by blast
  then show ?case using kfree_more [OF t(2)] by simp
qed simp

lemma uvmfree_more [more_simps]: "uvmfree pt sz s = Inr s' \<Longrightarrow> kmem.more s' = kmem.more s"
  by (auto simp: uvmfree_def kbind_eq_Inr split: if_splits dest!: uvmunmap_more freewalk_more)

lemma proc_freepagetable_more [more_simps]: "proc_freepagetable pt sz s = Inr s' \<Longrightarrow> kmem.more s' = kmem.more s"
  by (auto simp: proc_freepagetable_def kbind_eq_Inr dest!: uvmunmap_more uvmfree_more)

lemma proc_pagetable_more [more_simps]: "proc_pagetable i s = Inr (pt, s') \<Longrightarrow> kmem.more s' = kmem.more s"
  by (auto simp: proc_pagetable_def kbind_eq_Inr split: prod.splits if_splits dest!: uvmcreate_more mappages_more uvmfree_more)

lemma more_table:
  assumes "kmem.more s' = kmem.more (s :: 'a pstate_scheme)"
  shows "procs s' = procs s" "cur s' = cur s" "nextpid s' = nextpid s" "initproc s' = initproc s"
  using assms by (cases s; cases s'; simp)+

lemma uvmdealloc_more [more_simps]: "uvmdealloc pt o1 n s = Inr (r, s') \<Longrightarrow> kmem.more s' = kmem.more s"
  by (auto simp: uvmdealloc_def Let_def kbind_eq_Inr split: if_splits dest!: uvmunmap_more)

lemma uvmalloc_loop_more: "uvmalloc_loop pt a o1 n s = Inr (r, s') \<Longrightarrow> kmem.more s' = kmem.more s"
proof (induction "0x200000 - unat a" arbitrary: a s rule: less_induct)
  case less
  note run = less.prems [unfolded uvmalloc_loop.simps [of pt a o1 n s]]
  obtain mem t where k: "kalloc s = (mem, t)" by force
  show ?case
  proof (cases "a < n \<and> mem \<noteq> 0")
    case True
    then obtain u w where m: "mappages pt a PGSIZE mem uvm_perm (t\<lparr>pmem := memset mem 0 PGSIZE (pmem t)\<rparr>) = Inr (u, w)"
      and rest: "(if u \<noteq> 0 then kbind (kfree mem w) (\<lambda>s. kbind (uvmdealloc pt a o1 s) (\<lambda>(_, s). Inr (0, s)))
        else uvmalloc_loop pt (a + PGSIZE) o1 n w) = Inr (r, s')"
      using run k by (auto simp: Let_def kbind_eq_Inr)
    have w: "kmem.more w = kmem.more s" using mappages_more [OF m] kalloc_more [OF k] by simp
    have "0x200000 - unat (a + PGSIZE) < 0x200000 - unat a" using mappages_Inr_lt [OF m] by (auto simp: PGSIZE_def)
    then have "uvmalloc_loop pt (a + PGSIZE) o1 n w = Inr (r, s') \<Longrightarrow> kmem.more s' = kmem.more w" by (rule less.hyps)
    then show ?thesis using rest w by (auto simp: kbind_eq_Inr split: if_splits dest!: kfree_more uvmdealloc_more)
  next
    case False
    then show ?thesis using run k kalloc_more [OF k]
      by (auto simp: kbind_eq_Inr split: if_splits dest!: uvmdealloc_more)
  qed
qed

lemma uvmalloc_more [more_simps]: "uvmalloc pt o1 n s = Inr (r, s') \<Longrightarrow> kmem.more s' = kmem.more s"
  by (auto simp: uvmalloc_def split: if_splits dest: uvmalloc_loop_more)

section \<open>Well-formed tables\<close>

definition alive :: "proc \<Rightarrow> bool" where
  "alive p \<longleftrightarrow> pst p \<in> {SLEEPING, RUNNABLE, RUNNING}"

text \<open>
  What each slot of the table promises by its state: its kernel stack is the one \<open>procinit\<close> gave it, an unused slot
  owns nothing, a used one has a pid already given out, a page table and a trapframe, and a sleeping one a channel.
\<close>

definition proc_ok :: "u32 \<Rightarrow> nat \<Rightarrow> proc \<Rightarrow> bool" where
  "proc_ok nx i p \<longleftrightarrow> kstack p = KSTACK i \<and>
     (if pst p = UNUSED then pid p = 0 \<and> pagetable p = 0 \<and> trapframe p = 0 \<and> psz p = 0 \<and> parent p = None
      else 0 < pid p \<and> pid p < nx \<and> pagetable p \<noteq> 0 \<and> trapframe p \<noteq> 0) \<and>
     (pst p = SLEEPING \<longrightarrow> pchan p \<noteq> None)"

text \<open>
  Across slots: no two processes share a pid, only the process on the CPU is \<open>RUNNING\<close>, and a parent is always a process
  that can still run, so that it can wait for its child.
\<close>

definition table_ok :: "'a pstate_scheme \<Rightarrow> bool" where
  "table_ok s \<longleftrightarrow> length (procs s) = NPROC \<and> 0 < nextpid s \<and>
     (\<forall>i<NPROC. proc_ok (nextpid s) i (procs s ! i)) \<and>
     (\<forall>i<NPROC. \<forall>j<NPROC. i \<noteq> j \<and> pid (procs s ! i) = pid (procs s ! j) \<longrightarrow> pid (procs s ! i) = 0) \<and>
     (\<forall>i<NPROC. pst (procs s ! i) = RUNNING \<longrightarrow> cur s = Some i) \<and>
     (\<forall>i. cur s = Some i \<longrightarrow> i < NPROC \<and> pst (procs s ! i) \<notin> {UNUSED, USED}) \<and>
     (\<forall>i<NPROC. \<forall>j. parent (procs s ! i) = Some j \<longrightarrow> j < NPROC \<and> alive (procs s ! j)) \<and>
     (\<forall>i. initproc s = Some i \<longrightarrow> i < NPROC \<and> alive (procs s ! i))"

lemma table_okD:
  assumes "table_ok s"
  shows "length (procs s) = NPROC" "0 < nextpid s"
    "i < NPROC \<Longrightarrow> proc_ok (nextpid s) i (procs s ! i)"
    "i < NPROC \<Longrightarrow> j < NPROC \<Longrightarrow> i \<noteq> j \<Longrightarrow> pid (procs s ! i) = pid (procs s ! j) \<Longrightarrow> pid (procs s ! i) = 0"
    "i < NPROC \<Longrightarrow> pst (procs s ! i) = RUNNING \<Longrightarrow> cur s = Some i"
    "cur s = Some i \<Longrightarrow> i < NPROC" "cur s = Some i \<Longrightarrow> pst (procs s ! i) \<notin> {UNUSED, USED}"
    "i < NPROC \<Longrightarrow> parent (procs s ! i) = Some j \<Longrightarrow> j < NPROC \<and> alive (procs s ! j)"
    "initproc s = Some i \<Longrightarrow> i < NPROC \<and> alive (procs s ! i)"
  using assms unfolding table_ok_def by blast+

lemma table_okI:
  assumes "length (procs s) = NPROC" "0 < nextpid s" "\<And>i. i < NPROC \<Longrightarrow> proc_ok (nextpid s) i (procs s ! i)"
    "\<And>i j. i < NPROC \<Longrightarrow> j < NPROC \<Longrightarrow> i \<noteq> j \<Longrightarrow> pid (procs s ! i) = pid (procs s ! j) \<Longrightarrow> pid (procs s ! i) = 0"
    "\<And>i. i < NPROC \<Longrightarrow> pst (procs s ! i) = RUNNING \<Longrightarrow> cur s = Some i"
    "\<And>i. cur s = Some i \<Longrightarrow> i < NPROC \<and> pst (procs s ! i) \<notin> {UNUSED, USED}"
    "\<And>i j. i < NPROC \<Longrightarrow> parent (procs s ! i) = Some j \<Longrightarrow> j < NPROC \<and> alive (procs s ! j)"
    "\<And>i. initproc s = Some i \<Longrightarrow> i < NPROC \<and> alive (procs s ! i)"
  shows "table_ok s"
  using assms unfolding table_ok_def by blast

text \<open>An operation that leaves pids alone and kills nobody keeps the table well formed slot by slot.\<close>

lemma table_ok_slots:
  assumes ok: "table_ok s" and len: "length (procs s') = length (procs s)"
    and eqs: "nextpid s' = nextpid s" "initproc s' = initproc s"
    and slot: "\<And>i. i < NPROC \<Longrightarrow> proc_ok (nextpid s) i (procs s' ! i) \<and> pid (procs s' ! i) = pid (procs s ! i) \<and>
      (alive (procs s ! i) \<longrightarrow> alive (procs s' ! i)) \<and> (pst (procs s' ! i) = RUNNING \<longrightarrow> cur s' = Some i) \<and>
      (parent (procs s' ! i) \<noteq> parent (procs s ! i) \<longrightarrow>
         (\<forall>j. parent (procs s' ! i) = Some j \<longrightarrow> j < NPROC \<and> alive (procs s ! j)))"
    and cur: "\<And>i. cur s' = Some i \<Longrightarrow> i < NPROC \<and> pst (procs s' ! i) \<notin> {UNUSED, USED}"
  shows "table_ok s'"
proof -
  have par: "j < NPROC \<and> alive (procs s' ! j)" if "i < NPROC" "parent (procs s' ! i) = Some j" for i j
  proof -
    have "j < NPROC \<and> alive (procs s ! j)"
      using slot [OF that(1)] that table_okD(8) [OF ok that(1)] by (cases "parent (procs s' ! i) = parent (procs s ! i)") auto
    then show ?thesis using slot [of j] by blast
  qed
  have init: "j < NPROC \<and> alive (procs s' ! j)" if "initproc s' = Some j" for j
    using table_okD(9) [OF ok, of j] slot [of j] that eqs by simp
  have pids: "pid (procs s' ! i) = 0" if "i < NPROC" "j < NPROC" "i \<noteq> j" "pid (procs s' ! i) = pid (procs s' ! j)" for i j
    using table_okD(4) [OF ok that(1,2,3)] slot [OF that(1)] slot [OF that(2)] that(4) by simp
  have each: "proc_ok (nextpid s') i (procs s' ! i)" "pst (procs s' ! i) = RUNNING \<Longrightarrow> cur s' = Some i" if "i < NPROC" for i
    using slot [OF that] eqs by auto
  have "length (procs s') = NPROC" "0 < nextpid s'" using len table_okD(1,2) [OF ok] eqs(1) by simp_all
  then show ?thesis by (rule table_okI [OF _ _ each(1) pids each(2) cur par init])
qed

lemma table_ok_upd:
  assumes "table_ok s" "k < NPROC" "proc_ok (nextpid s) k (f (procs s ! k))" "pid (f (procs s ! k)) = pid (procs s ! k)"
    "alive (procs s ! k) \<Longrightarrow> alive (f (procs s ! k))" "parent (f (procs s ! k)) = parent (procs s ! k)"
    "pst (f (procs s ! k)) = RUNNING \<Longrightarrow> pst (procs s ! k) = RUNNING"
    "pst (f (procs s ! k)) \<in> {UNUSED, USED} \<Longrightarrow> pst (procs s ! k) \<in> {UNUSED, USED}"
  shows "table_ok (upd_proc k f s)"
proof (rule table_ok_slots [OF assms(1)])
  fix i assume "i < NPROC"
  then show "proc_ok (nextpid s) i (procs (upd_proc k f s) ! i) \<and> pid (procs (upd_proc k f s) ! i) = pid (procs s ! i) \<and>
      (alive (procs s ! i) \<longrightarrow> alive (procs (upd_proc k f s) ! i)) \<and>
      (pst (procs (upd_proc k f s) ! i) = RUNNING \<longrightarrow> cur (upd_proc k f s) = Some i) \<and>
      (parent (procs (upd_proc k f s) ! i) \<noteq> parent (procs s ! i) \<longrightarrow>
         (\<forall>j. parent (procs (upd_proc k f s) ! i) = Some j \<longrightarrow> j < NPROC \<and> alive (procs s ! j)))"
    using assms(2-) table_okD(1,3,5) [OF assms(1)] by (cases "i = k") (simp_all add: upd_proc_def)
next
  fix i assume "cur (upd_proc k f s) = Some i"
  then have c: "cur s = Some i" by (simp add: upd_proc_def)
  show "i < NPROC \<and> pst (procs (upd_proc k f s) ! i) \<notin> {UNUSED, USED}"
    using table_okD(6,7) [OF assms(1) c] assms(2,8) table_okD(1) [OF assms(1)] by (cases "i = k") (auto simp: upd_proc_def)
qed (simp_all add: upd_proc_def)

lemma proc_ok_mono: "proc_ok nx i p \<Longrightarrow> nx \<le> nx' \<Longrightarrow> proc_ok nx' i p"
  by (auto simp: proc_ok_def)

text \<open>A slot nobody runs on or has for a parent is given out or taken back.\<close>

lemma table_ok_slot:
  assumes ok: "table_ok s" and k: "k < NPROC" "\<not> alive (procs s ! k)" "cur s \<noteq> Some k"
    and s': "procs s' = (procs s)[k := p]" "cur s' = cur s" "initproc s' = initproc s" "nextpid s \<le> nextpid s'"
    and p: "proc_ok (nextpid s') k p" "parent p = None" "pst p \<in> {UNUSED, USED}" "pid p = 0 \<or> nextpid s \<le> pid p"
  shows "table_ok s'"
proof (rule table_okI)
  have len: "length (procs s) = NPROC" by (rule table_okD(1) [OF ok])
  have nth: "procs s' ! i = (if i = k then p else procs s ! i)" for i using len k(1) s'(1) by (cases "i < NPROC") auto
  show "length (procs s') = NPROC" using len s'(1) by simp
  show "0 < nextpid s'" using table_okD(2) [OF ok] s'(4) by simp
  have below: "pid (procs s ! i) < nextpid s" if "i < NPROC" for i
    using table_okD(2) [OF ok] table_okD(3) [OF ok that] by (auto simp: proc_ok_def split: if_splits)
  fix i assume "i < NPROC"
  then show "proc_ok (nextpid s') i (procs s' ! i)"
    using p(1) proc_ok_mono [OF table_okD(3) [OF ok] s'(4)] by (simp add: nth)
  show "pst (procs s' ! i) = RUNNING \<Longrightarrow> cur s' = Some i"
    using table_okD(5) [OF ok \<open>i < NPROC\<close>] p(3) s'(2) by (auto simp: nth split: if_splits)
  fix j
  show "parent (procs s' ! i) = Some j \<Longrightarrow> j < NPROC \<and> alive (procs s' ! j)"
    using table_okD(8) [OF ok \<open>i < NPROC\<close>, of j] p(2) k(2) by (auto simp: nth split: if_splits)
  assume "j < NPROC" "i \<noteq> j" "pid (procs s' ! i) = pid (procs s' ! j)"
  then show "pid (procs s' ! i) = 0"
    using table_okD(4) [OF ok \<open>i < NPROC\<close> \<open>j < NPROC\<close>] p(4) below [OF \<open>i < NPROC\<close>] below [OF \<open>j < NPROC\<close>]
    by (auto simp: nth split: if_splits)
next
  have nth: "procs s' ! i = (if i = k then p else procs s ! i)" for i
    using table_okD(1) [OF ok] k(1) s'(1) by (cases "i < NPROC") auto
  fix i
  show "cur s' = Some i \<Longrightarrow> i < NPROC \<and> pst (procs s' ! i) \<notin> {UNUSED, USED}"
    using table_okD(6,7) [OF ok, of i] k(3) s'(2) by (auto simp: nth)
  show "initproc s' = Some i \<Longrightarrow> i < NPROC \<and> alive (procs s' ! i)"
    using table_okD(9) [OF ok, of i] k(2) s'(3) by (auto simp: nth)
qed

section \<open>The operations keep it\<close>

lemma wakeup_table [simp]: "nextpid (wakeup c s) = nextpid s" "initproc (wakeup c s) = initproc s"
  by (simp_all add: wakeup_def)

text \<open>What waking can do to a process.\<close>

definition roused :: "proc \<Rightarrow> proc \<Rightarrow> bool" where
  "roused p q \<longleftrightarrow> q = p \<or> pst p = SLEEPING \<and> q = p\<lparr>pst := RUNNABLE\<rparr>"

lemma rousedD:
  assumes "roused p q"
  shows "pid q = pid p" "parent q = parent p" "alive q = alive p" "proc_ok nx i p \<Longrightarrow> proc_ok nx i q"
    "pst q = RUNNING \<longleftrightarrow> pst p = RUNNING" "pst q \<in> {UNUSED, USED} \<longleftrightarrow> pst p \<in> {UNUSED, USED}"
    "pst p = RUNNABLE \<Longrightarrow> pst q = RUNNABLE" "pst q = ZOMBIE \<longleftrightarrow> pst p = ZOMBIE"
  using assms by (auto simp: roused_def alive_def proc_ok_def)

lemma roused_refl [simp]: "roused p p"
  by (simp add: roused_def)

lemma roused_trans: "roused p q \<Longrightarrow> roused q r \<Longrightarrow> roused p r"
  by (auto simp: roused_def)

lemma wakeup_roused: "i < length (procs s) \<Longrightarrow> roused (procs s ! i) (procs (wakeup c s) ! i)"
  by (simp add: wakeup_nth wakeup1_def roused_def)

lemma wakeup_keeps:
  assumes "table_ok s"
  shows "table_ok (wakeup c s)"
proof (rule table_ok_slots [OF assms])
  fix i assume i: "i < NPROC"
  note r = wakeup_roused [of i s c] table_okD(3,5) [OF assms i] table_okD(1) [OF assms]
  show "proc_ok (nextpid s) i (procs (wakeup c s) ! i) \<and> pid (procs (wakeup c s) ! i) = pid (procs s ! i) \<and>
      (alive (procs s ! i) \<longrightarrow> alive (procs (wakeup c s) ! i)) \<and>
      (pst (procs (wakeup c s) ! i) = RUNNING \<longrightarrow> cur (wakeup c s) = Some i) \<and>
      (parent (procs (wakeup c s) ! i) \<noteq> parent (procs s ! i) \<longrightarrow>
         (\<forall>j. parent (procs (wakeup c s) ! i) = Some j \<longrightarrow> j < NPROC \<and> alive (procs s ! j)))"
    using r i by (simp add: rousedD)
next
  fix i assume "cur (wakeup c s) = Some i"
  then have c: "cur s = Some i" by simp
  show "i < NPROC \<and> pst (procs (wakeup c s) ! i) \<notin> {UNUSED, USED}"
    using table_okD(6,7) [OF assms c] rousedD(6) [OF wakeup_roused [of i s c]] table_okD(1) [OF assms] by simp
qed simp_all

lemma kill_scan_cases:
  obtains (none) "kill_scan n ps = (- 1, ps)" "\<forall>p\<in>set ps. pid p \<noteq> n"
  | (one) k where "k < length ps" "pid (ps ! k) = n" "\<forall>j<k. pid (ps ! j) \<noteq> n"
      "kill_scan n ps = (0, ps[k := (if pst (ps ! k) = SLEEPING then (ps ! k)\<lparr>killed := True, pst := RUNNABLE\<rparr>
                                     else (ps ! k)\<lparr>killed := True\<rparr>)])"
proof (induction ps arbitrary: thesis)
  case (Cons p ps)
  show ?case
  proof (cases "pid p = n")
    case True
    then show ?thesis by (intro Cons.prems(2) [of 0]) auto
  next
    case False
    show ?thesis
    proof (rule Cons.IH)
      assume "kill_scan n ps = (- 1, ps)" "\<forall>p\<in>set ps. pid p \<noteq> n"
      then show thesis using False by (intro Cons.prems(1)) auto
    next
      fix k
      assume "k < length ps" "pid (ps ! k) = n" "\<forall>j<k. pid (ps ! j) \<noteq> n"
        "kill_scan n ps = (0, ps[k := (if pst (ps ! k) = SLEEPING then (ps ! k)\<lparr>killed := True, pst := RUNNABLE\<rparr>
                                     else (ps ! k)\<lparr>killed := True\<rparr>)])"
      then show thesis using False by (intro Cons.prems(2) [of "Suc k"]) (auto simp: nth_Cons split: nat.splits)
    qed
  qed
qed simp

lemma kill_upd:
  obtains "kill n s = (- 1, s)" "\<forall>p\<in>set (procs s). pid p \<noteq> n"
  | k where "k < length (procs s)" "pid (procs s ! k) = n" "\<forall>j<k. pid (procs s ! j) \<noteq> n"
      "kill n s = (0, upd_proc k (\<lambda>p. if pst p = SLEEPING then p\<lparr>killed := True, pst := RUNNABLE\<rparr> else p\<lparr>killed := True\<rparr>) s)"
  by (rule kill_scan_cases [of n "procs s"]) (auto simp: kill_def upd_proc_def)

lemma kill_keeps:
  assumes "table_ok s"
  shows "table_ok (snd (kill n s))"
proof (rule kill_upd [of n s])
  fix k
  assume k: "k < length (procs s)"
    "kill n s = (0, upd_proc k (\<lambda>p. if pst p = SLEEPING then p\<lparr>killed := True, pst := RUNNABLE\<rparr> else p\<lparr>killed := True\<rparr>) s)"
  then have "k < NPROC" using table_okD(1) [OF assms] by simp
  from this table_okD(3) [OF assms this] show ?thesis unfolding k(2) snd_conv
    by (intro table_ok_upd [OF assms]) (auto simp: proc_ok_def alive_def split: if_splits)
qed (simp add: assms)

text \<open>The process on the CPU changes its own slot.\<close>

definition running :: "nat \<Rightarrow> 'a pstate_scheme \<Rightarrow> bool" where
  "running i s \<longleftrightarrow> cur s = Some i \<and> pst (procs s ! i) = RUNNING"

lemma running_slot:
  assumes "table_ok s" "running i s"
  shows "i < NPROC" "proc_ok (nextpid s) i (procs s ! i)" "pst (procs s ! i) = RUNNING" "cur s = Some i" "myproc s = i"
  using table_okD(3,6) [OF assms(1)] assms(2) by (auto simp: running_def myproc_def)

lemma sleep_enter_keeps: "table_ok s \<Longrightarrow> running i s \<Longrightarrow> table_ok (sleep_enter c s)"
  unfolding sleep_enter_def
  by (rule table_ok_upd; insert running_slot [of s i]; auto simp: proc_ok_def alive_def)

lemma sleep_leave_keeps: "table_ok s \<Longrightarrow> running i s \<Longrightarrow> table_ok (sleep_leave s)"
  unfolding sleep_leave_def
  by (rule table_ok_upd; insert running_slot [of s i]; auto simp: proc_ok_def alive_def)

lemma yield_keeps: "table_ok s \<Longrightarrow> running i s \<Longrightarrow> table_ok (yield s)"
  unfolding yield_def
  by (rule table_ok_upd; insert running_slot [of s i]; auto simp: proc_ok_def alive_def)

lemma table_ok_memory:
  assumes "table_ok s" "kmem.more s' = kmem.more s"
  shows "table_ok s'"
  using assms(1) unfolding table_ok_def more_table [OF assms(2)] .

lemma image_keeps:
  assumes "table_ok s" "running i s" "pt \<noteq> 0"
  shows "table_ok (upd_proc i (\<lambda>p. p\<lparr>pagetable := pt, psz := sz, pname := nm, ofile := fs, cwd := d\<rparr>) s)"
  by (rule table_ok_upd; insert running_slot [OF assms(1,2)] assms(1,3); auto simp: proc_ok_def alive_def)

lemma growproc_shape:
  assumes "growproc n s = Inr (r, s')"
  obtains t sz where "kmem.more t = kmem.more s" "s' = t \<or> s' = upd_proc (myproc s) (\<lambda>p. p\<lparr>psz := sz\<rparr>) t"
proof -
  note g = assms [unfolded growproc_def Let_def]
  show ?thesis
    using g by (auto simp: kbind_eq_Inr split: if_splits dest!: uvmalloc_more uvmdealloc_more intro: that)
qed

lemma growproc_keeps:
  assumes "table_ok s" "running i s" "growproc n s = Inr (r, s')"
  shows "table_ok s'"
proof -
  obtain t sz where t: "kmem.more t = kmem.more s" "s' = t \<or> s' = upd_proc (myproc s) (\<lambda>p. p\<lparr>psz := sz\<rparr>) t"
    by (rule growproc_shape [OF assms(3)])
  have ok: "table_ok t" by (rule table_ok_memory [OF assms(1) t(1)])
  have r: "running i t" "myproc s = i" using assms(2) more_table [OF t(1)] by (simp_all add: running_def myproc_def)
  have "table_ok (upd_proc i (\<lambda>p. p\<lparr>psz := sz\<rparr>) t)"
    by (rule table_ok_upd; insert running_slot [OF ok r(1)] ok; auto simp: proc_ok_def alive_def)
  then show ?thesis using t(2) ok r(2) by auto
qed

text \<open>What \<open>freeproc\<close> leaves in the slot.\<close>

definition emptied :: "proc \<Rightarrow> proc \<Rightarrow> bool" where
  "emptied p q \<longleftrightarrow> pst q = UNUSED \<and> pid q = 0 \<and> pagetable q = 0 \<and> trapframe q = 0 \<and> psz q = 0 \<and> parent q = None \<and>
     \<not> killed q \<and> kstack q = kstack p"

lemma upd_proc_table [simp]:
  "cur (upd_proc i f s) = cur s" "nextpid (upd_proc i f s) = nextpid s" "initproc (upd_proc i f s) = initproc s"
  "length (procs (upd_proc i f s)) = length (procs s)"
  by (simp_all add: upd_proc_def)

lemma freeproc_shape:
  assumes run: "freeproc i s = Inr s'" and i: "i < length (procs s)"
  shows "\<exists>q. procs s' = (procs s)[i := q] \<and> emptied (procs s ! i) q"
    "cur s' = cur s" "initproc s' = initproc s" "nextpid s' = nextpid s"
proof -
  obtain t u where t: "kmem.more t = kmem.more s"
    and u: "kmem.more u = kmem.more (upd_proc i (\<lambda>p. p\<lparr>trapframe := 0\<rparr>) t)"
    and s': "s' = upd_proc i (\<lambda>p. p\<lparr>pagetable := 0, psz := 0, pid := 0, parent := None,
       pname := (pname p)(0 := 0), pchan := None, killed := False, xstate := 0, pst := UNUSED\<rparr>) u"
    using run by (auto simp: freeproc_def Let_def kbind_eq_Inr split: if_splits dest!: kfree_more proc_freepagetable_more)
  note eqs = more_table [OF t] more_table [OF u]
  show "\<exists>q. procs s' = (procs s)[i := q] \<and> emptied (procs s ! i) q"
    using i eqs by (auto simp: s' upd_proc_def emptied_def)
  show "cur s' = cur s" "initproc s' = initproc s" "nextpid s' = nextpid s" using eqs by (simp_all add: s')
qed

lemma freeproc_keeps:
  assumes ok: "table_ok s" and run: "freeproc i s = Inr s'"
    and i: "i < NPROC" "\<not> alive (procs s ! i)" "cur s \<noteq> Some i"
  shows "table_ok s'"
proof -
  have "i < length (procs s)" using i(1) table_okD(1) [OF ok] by simp
  note shape = freeproc_shape [OF run this]
  obtain q where q: "procs s' = (procs s)[i := q]" "emptied (procs s ! i) q" using shape(1) by blast
  show ?thesis
    by (rule table_ok_slot [OF ok i q(1) shape(2,3)])
      (insert q(2) shape(4) table_okD(3) [OF ok i(1)], auto simp: emptied_def proc_ok_def)
qed

lemma find_unused_Some:
  "find_unused k ps = Some i \<Longrightarrow> k \<le> i \<and> i - k < length ps \<and> pst (ps ! (i - k)) = UNUSED \<and> (\<forall>j<i - k. pst (ps ! j) \<noteq> UNUSED)"
proof (induction ps arbitrary: k)
  case (Cons p ps)
  show ?case
  proof (cases "pst p = UNUSED")
    case False
    then have "Suc k \<le> i" "i - Suc k < length ps" "pst (ps ! (i - Suc k)) = UNUSED" "\<forall>j<i - Suc k. pst (ps ! j) \<noteq> UNUSED"
      using Cons.IH [of "Suc k"] Cons.prems by auto
    moreover from this(1) have "i - k = Suc (i - Suc k)" by simp
    ultimately show ?thesis using False by (auto simp: nth_Cons split: nat.splits)
  qed (use Cons.prems in auto)
qed simp

lemma find_unused_None: "find_unused k ps = None \<longleftrightarrow> (\<forall>p\<in>set ps. pst p \<noteq> UNUSED)"
  by (induction ps arbitrary: k) auto

text \<open>
  \<open>allocproc\<close> finds no slot, or gives it a new pid and, for lack of memory, takes it back, or hands it out with all
  it needs.
\<close>

lemma allocproc_shape:
  assumes run: "allocproc s = Inr (r, s')"
  shows "r = None \<and> s' = s \<or> (\<exists>i q. find_unused 0 (procs s) = Some i \<and> procs s' = (procs s)[i := q] \<and>
     cur s' = cur s \<and> initproc s' = initproc s \<and> nextpid s' = nextpid s + 1 \<and>
     (r = None \<and> emptied (procs s ! i) q \<or>
      r = Some i \<and> pst q = USED \<and> pid q = nextpid s \<and> pagetable q \<noteq> 0 \<and> trapframe q \<noteq> 0 \<and> kstack q = kstack (procs s ! i) \<and>
      psz q = psz (procs s ! i) \<and> parent q = parent (procs s ! i) \<and> killed q = killed (procs s ! i) \<and>
      pcontext q = \<lparr>cra = Forkret, csp = kstack (procs s ! i) + PGSIZE, csaved = replicate 10 0\<rparr>))"
proof (cases "find_unused 0 (procs s)")
  case None
  then show ?thesis using run by (simp add: allocproc_def)
next
  case (Some i)
  then have i: "i < length (procs s)" using find_unused_Some [OF Some] by simp
  let ?a = "upd_proc i (\<lambda>p. p\<lparr>pid := nextpid s, pst := USED\<rparr>) (s\<lparr>nextpid := nextpid s + 1\<rparr>)"
  obtain tf t where k: "kalloc ?a = (tf, t)" by force
  let ?b = "upd_proc i (\<lambda>p. p\<lparr>trapframe := tf\<rparr>) t"
  note a = more_table [OF kalloc_more [OF k]]
  show ?thesis
  proof (cases "tf = 0")
    case True
    then have f: "freeproc i ?b = Inr s'" "r = None" using run k Some
      by (auto simp: allocproc_def allocpid_def Let_def kbind_eq_Inr)
    have "i < length (procs ?b)" using i a by (simp add: upd_proc_def)
    note fs = freeproc_shape [OF f(1) this]
    show ?thesis using Some f(2) fs a i by (auto simp: upd_proc_def emptied_def)
  next
    case False
    then obtain pt u where p: "proc_pagetable i ?b = Inr (pt, u)" using run k Some
      by (auto simp: allocproc_def allocpid_def Let_def kbind_eq_Inr)
    let ?c = "upd_proc i (\<lambda>p. p\<lparr>pagetable := pt\<rparr>) u"
    note b = more_table [OF proc_pagetable_more [OF p]]
    show ?thesis
    proof (cases "pt = 0")
      case True
      then have f: "freeproc i ?c = Inr s'" "r = None" using run k Some p False
        by (auto simp: allocproc_def allocpid_def Let_def kbind_eq_Inr)
      have "i < length (procs ?c)" using i a b by (simp add: upd_proc_def)
      note fs = freeproc_shape [OF f(1) this]
      show ?thesis using Some f(2) fs a b i by (auto simp: upd_proc_def emptied_def)
    next
      case pt: False
      then have "r = Some i"
        "s' = upd_proc i (\<lambda>p. p\<lparr>pcontext := \<lparr>cra = Forkret, csp = kstack p + PGSIZE, csaved = replicate 10 0\<rparr>\<rparr>) ?c"
        using run k Some p False by (auto simp: allocproc_def allocpid_def Let_def)
      then show ?thesis using Some a b i pt False by (auto simp: upd_proc_def)
    qed
  qed
qed

lemma unused_idle: "table_ok s \<Longrightarrow> pst (procs s ! i) = UNUSED \<Longrightarrow> \<not> alive (procs s ! i) \<and> cur s \<noteq> Some i"
  using table_okD(7) [of s i] by (auto simp: alive_def)

lemma allocproc_keeps:
  assumes ok: "table_ok s" and run: "allocproc s = Inr (r, s')" and n: "nextpid s < 0x7FFFFFFF"
  shows "table_ok s'"
  using allocproc_shape [OF run]
proof (elim disjE exE conjE)
  fix i q
  assume i: "find_unused 0 (procs s) = Some i"
    and s': "procs s' = (procs s)[i := q]" "cur s' = cur s" "initproc s' = initproc s" "nextpid s' = nextpid s + 1"
  have u: "i < NPROC" "pst (procs s ! i) = UNUSED" using find_unused_Some [OF i] table_okD(1) [OF ok] by auto
  note idle = unused_idle [OF ok u(2)] table_okD(3) [OF ok u(1)]
  have le: "nextpid s < nextpid s + 1" using n by (simp add: word_less_nat_alt unat_word_ariths)
  have "0 < nextpid s" by (rule table_okD(2) [OF ok])
  note keep = table_ok_slot [OF ok u(1) conjunct1 [OF idle(1)] conjunct2 [OF idle(1)] s'(1-3)]
  {
    assume "r = None" "emptied (procs s ! i) q"
    with s' le idle(2) u(2) show ?thesis by (intro keep) (auto simp: emptied_def proc_ok_def)
  next
    assume "pst q = USED" "pid q = nextpid s" "pagetable q \<noteq> 0" "trapframe q \<noteq> 0" "kstack q = kstack (procs s ! i)"
      "psz q = psz (procs s ! i)" "parent q = parent (procs s ! i)"
    with s' le idle(2) u(2) \<open>0 < nextpid s\<close> show ?thesis by (intro keep) (auto simp: proc_ok_def)
  }
qed (use ok in simp)

lemma fork_link_keeps:
  assumes ok: "table_ok s" and "running i s" and np: "np < NPROC" "pst (procs s ! np) = USED"
  shows "table_ok (fork_link i np s)"
proof (rule table_ok_slots [OF ok])
  note r = running_slot [OF ok assms(2)] table_okD(1) [OF ok]
  have ne: "np \<noteq> i" using r np by auto
  have nth: "procs (fork_link i np s) ! k = (if k = np then (procs s ! np)\<lparr>parent := Some i, pst := RUNNABLE\<rparr> else procs s ! k)" for k
    using np r by (simp add: fork_link_def upd_proc_def)
  show "length (procs (fork_link i np s)) = length (procs s)" "nextpid (fork_link i np s) = nextpid s"
    "initproc (fork_link i np s) = initproc s"
    by (simp_all add: fork_link_def)
  have [simp]: "cur (fork_link i np s) = cur s" by (simp add: fork_link_def)
  show "cur (fork_link i np s) = Some k \<Longrightarrow> k < NPROC \<and> pst (procs (fork_link i np s) ! k) \<notin> {UNUSED, USED}" for k
    using table_okD(6,7) [OF ok, of k] np by (simp add: nth)
  fix k assume k: "k < NPROC"
  show "proc_ok (nextpid s) k (procs (fork_link i np s) ! k) \<and> pid (procs (fork_link i np s) ! k) = pid (procs s ! k) \<and>
      (alive (procs s ! k) \<longrightarrow> alive (procs (fork_link i np s) ! k)) \<and>
      (pst (procs (fork_link i np s) ! k) = RUNNING \<longrightarrow> cur (fork_link i np s) = Some k) \<and>
      (parent (procs (fork_link i np s) ! k) \<noteq> parent (procs s ! k) \<longrightarrow>
         (\<forall>j. parent (procs (fork_link i np s) ! k) = Some j \<longrightarrow> j < NPROC \<and> alive (procs s ! j)))"
    using table_okD(3,5) [OF ok k] r np by (auto simp: nth proc_ok_def alive_def)
qed

lemma reparent_shape:
  fixes s :: "'a pstate_scheme"
  defines "f i \<equiv> \<lambda>j (s :: 'a pstate_scheme). if parent (procs s ! j) = Some i
     then wakeup (map_option Ch_proc (initproc s)) (upd_proc j (\<lambda>p. p\<lparr>parent := initproc s\<rparr>) s) else s"
  assumes "n \<le> length (procs s)"
  shows "length (procs (fold (f i) [0..<n] s)) = length (procs s) \<and> cur (fold (f i) [0..<n] s) = cur s \<and>
    initproc (fold (f i) [0..<n] s) = initproc s \<and> nextpid (fold (f i) [0..<n] s) = nextpid s \<and>
    (\<forall>j<length (procs s). \<exists>q. roused (procs s ! j) q \<and> (cur s = Some j \<longrightarrow> q = procs s ! j) \<and>
       procs (fold (f i) [0..<n] s) ! j =
         q\<lparr>parent := (if j < n \<and> parent (procs s ! j) = Some i then initproc s else parent (procs s ! j))\<rparr>)"
  using assms(2)
proof (induction n)
  case 0
  then show ?case by (auto intro!: exI [of _ "procs s ! _"])
next
  case (Suc n)
  define t where "t = fold (f i) [0..<n] s"
  have t: "length (procs t) = length (procs s)" "cur t = cur s" "initproc t = initproc s" "nextpid t = nextpid s"
    "\<And>j. j < length (procs s) \<Longrightarrow> \<exists>q. roused (procs s ! j) q \<and> (cur s = Some j \<longrightarrow> q = procs s ! j) \<and> procs t ! j =
         q\<lparr>parent := (if j < n \<and> parent (procs s ! j) = Some i then initproc s else parent (procs s ! j))\<rparr>"
    using Suc by (simp_all add: t_def)
  have fold: "fold (f i) [0..<Suc n] s = f i n t" by (simp add: t_def)
  have par: "parent (procs t ! n) = parent (procs s ! n)" using t(5) [of n] Suc.prems by auto
  show ?case unfolding fold
  proof (intro conjI allI impI)
    fix j assume j: "j < length (procs s)"
    obtain q where q: "roused (procs s ! j) q" "cur s = Some j \<longrightarrow> q = procs s ! j"
      "procs t ! j = q\<lparr>parent := (if j < n \<and> parent (procs s ! j) = Some i then initproc s else parent (procs s ! j))\<rparr>"
      using t(5) [OF j] by blast
    let ?u = "upd_proc n (\<lambda>p. p\<lparr>parent := initproc t\<rparr>) t"
    let ?p = "if j < Suc n \<and> parent (procs s ! j) = Some i then initproc s else parent (procs s ! j)"
    show "\<exists>q. roused (procs s ! j) q \<and> (cur s = Some j \<longrightarrow> q = procs s ! j) \<and> procs (f i n t) ! j = q\<lparr>parent := ?p\<rparr>"
    proof (cases "parent (procs s ! n) = Some i")
      case True
      have u: "procs ?u ! j = q\<lparr>parent := ?p\<rparr>"
        using q(3) True j t(1,3) Suc.prems by (auto simp: upd_proc_def nth_list_update less_Suc_eq)
      have "procs (f i n t) ! j = (if Some j \<noteq> cur s then wakeup1 (map_option Ch_proc (initproc s)) (q\<lparr>parent := ?p\<rparr>) else q\<lparr>parent := ?p\<rparr>)"
        using True j t par u by (simp add: f_def wakeup_nth)
      then show ?thesis using q(1,2)
        by (intro exI [of _ "if Some j \<noteq> cur s \<and> pst q = SLEEPING \<and> pchan q = map_option Ch_proc (initproc s)
              then q\<lparr>pst := RUNNABLE\<rparr> else q"]) (auto simp: wakeup1_def roused_def)
    next
      case False
      then have "?p = (if j < n \<and> parent (procs s ! j) = Some i then initproc s else parent (procs s ! j))"
        by (auto simp: less_Suc_eq)
      then show ?thesis using q False par by (auto simp: f_def)
    qed
  qed (use t in \<open>simp_all add: f_def\<close>)
qed

lemma exit_leave_shape:
  assumes "i < length (procs s)" "cur s = Some i"
  shows "length (procs (exit_leave i st s)) = length (procs s)" "cur (exit_leave i st s) = cur s"
    "initproc (exit_leave i st s) = initproc s" "nextpid (exit_leave i st s) = nextpid s"
    "j < length (procs s) \<Longrightarrow> \<exists>q. roused (procs s ! j) q \<and> procs (exit_leave i st s) ! j =
       (if j = i then (procs s ! i)\<lparr>xstate := st, pst := ZOMBIE\<rparr> else q)
         \<lparr>parent := (if parent (procs s ! j) = Some i then initproc s else parent (procs s ! j))\<rparr>"
proof -
  have r: "length (procs (reparent i s)) = length (procs s) \<and> cur (reparent i s) = cur s \<and>
    initproc (reparent i s) = initproc s \<and> nextpid (reparent i s) = nextpid s \<and>
    (\<forall>j<length (procs s). \<exists>q. roused (procs s ! j) q \<and> (cur s = Some j \<longrightarrow> q = procs s ! j) \<and> procs (reparent i s) ! j =
       q\<lparr>parent := (if j < length (procs s) \<and> parent (procs s ! j) = Some i then initproc s else parent (procs s ! j))\<rparr>)"
    unfolding reparent_def by (rule reparent_shape) simp
  define c where "c = map_option Ch_proc (parent (procs (reparent i s) ! i))"
  have e: "exit_leave i st s = upd_proc i (\<lambda>p. p\<lparr>xstate := st, pst := ZOMBIE\<rparr>) (wakeup c (reparent i s))"
    by (simp add: exit_leave_def c_def Let_def)
  show "length (procs (exit_leave i st s)) = length (procs s)" "cur (exit_leave i st s) = cur s"
    "initproc (exit_leave i st s) = initproc s" "nextpid (exit_leave i st s) = nextpid s"
    using r by (simp_all add: e)
  let ?par = "if parent (procs s ! j) = Some i then initproc s else parent (procs s ! j)"
  assume j: "j < length (procs s)"
  obtain q where q: "roused (procs s ! j) q" "cur s = Some j \<longrightarrow> q = procs s ! j"
    "procs (reparent i s) ! j = q\<lparr>parent := ?par\<rparr>"
    using r j by auto
  have w: "procs (wakeup c (reparent i s)) ! j = (if Some j \<noteq> cur s then wakeup1 c (q\<lparr>parent := ?par\<rparr>) else q\<lparr>parent := ?par\<rparr>)"
    using r j q(3) by (simp add: wakeup_nth)
  show "\<exists>q. roused (procs s ! j) q \<and> procs (exit_leave i st s) ! j =
       (if j = i then (procs s ! i)\<lparr>xstate := st, pst := ZOMBIE\<rparr> else q)\<lparr>parent := ?par\<rparr>"
  proof (cases "j = i")
    case True
    then show ?thesis using assms q w r by (intro exI [of _ q]) (simp add: e upd_proc_def)
  next
    case False
    then show ?thesis using assms q w
      by (intro exI [of _ "if pst q = SLEEPING \<and> pchan q = c then q\<lparr>pst := RUNNABLE\<rparr> else q"])
        (auto simp: e upd_proc_def wakeup1_def roused_def)
  qed
qed

lemma exit_leave_keeps:
  assumes ok: "table_ok s" and run: "running i s" and i: "initproc s \<noteq> Some i"
  shows "table_ok (exit_leave i st s)"
proof -
  note r = running_slot [OF ok run] table_okD(1) [OF ok]
  let ?s = "exit_leave i st s"
  have i': "i < length (procs s)" using r by simp
  note sh = exit_leave_shape [OF i' r(4), where st = st]
  have slot: "\<exists>q. roused (procs s ! j) q \<and> procs ?s ! j = (if j = i then (procs s ! i)\<lparr>xstate := st, pst := ZOMBIE\<rparr> else q)
      \<lparr>parent := (if parent (procs s ! j) = Some i then initproc s else parent (procs s ! j))\<rparr>" if "j < NPROC" for j
    using sh(5) that r(6) by simp
  have live: "alive (procs ?s ! j) \<longleftrightarrow> alive (procs s ! j) \<and> j \<noteq> i"
    and pids: "pid (procs ?s ! j) = pid (procs s ! j)" if j: "j < NPROC" for j
  proof -
    obtain q where q: "roused (procs s ! j) q" "procs ?s ! j = (if j = i then (procs s ! i)\<lparr>xstate := st, pst := ZOMBIE\<rparr> else q)
      \<lparr>parent := (if parent (procs s ! j) = Some i then initproc s else parent (procs s ! j))\<rparr>" using slot [OF j] by blast
    show "alive (procs ?s ! j) \<longleftrightarrow> alive (procs s ! j) \<and> j \<noteq> i" "pid (procs ?s ! j) = pid (procs s ! j)"
      unfolding q(2) using rousedD(1) [OF q(1)] rousedD(3) [OF q(1)] by (simp_all add: alive_def)
  qed
  show ?thesis
  proof (rule table_okI)
    show "length (procs ?s) = NPROC" "0 < nextpid ?s" using sh r table_okD(2) [OF ok] by simp_all
    show "initproc ?s = Some j \<Longrightarrow> j < NPROC \<and> alive (procs ?s ! j)" for j
      using table_okD(9) [OF ok, of j] live [of j] i sh(3) by auto
    show "cur ?s = Some j \<Longrightarrow> j < NPROC \<and> pst (procs ?s ! j) \<notin> {UNUSED, USED}" for j
      using slot [OF r(1)] r sh(2) by auto
    fix j assume j: "j < NPROC"
    obtain q where q: "roused (procs s ! j) q" "procs ?s ! j = (if j = i then (procs s ! i)\<lparr>xstate := st, pst := ZOMBIE\<rparr> else q)
      \<lparr>parent := (if parent (procs s ! j) = Some i then initproc s else parent (procs s ! j))\<rparr>" using slot [OF j] by blast
    show "proc_ok (nextpid ?s) j (procs ?s ! j)"
      using rousedD(4) [OF q(1) table_okD(3) [OF ok j]] r table_okD(3) [OF ok j] rousedD(2) [OF q(1)]
      by (auto simp: q(2) sh proc_ok_def)
    show "pst (procs ?s ! j) = RUNNING \<Longrightarrow> cur ?s = Some j"
      using table_okD(5) [OF ok j] rousedD(5) [OF q(1)] by (auto simp: q(2) sh split: if_splits)
    show "parent (procs ?s ! j) = Some k \<Longrightarrow> k < NPROC \<and> alive (procs ?s ! k)" for k
      using table_okD(8) [OF ok j, of k] table_okD(9) [OF ok, of k] live [of k] i by (auto simp: q(2) split: if_splits)
    fix k assume "k < NPROC" "j \<noteq> k" "pid (procs ?s ! j) = pid (procs ?s ! k)"
    then show "pid (procs ?s ! j) = 0" using table_okD(4) [OF ok j] pids j by simp
  qed
qed

lemma wait_scan_Some:
  "wait_scan me k ps = (h, Some j) \<Longrightarrow> k \<le> j \<and> j - k < length ps \<and> pst (ps ! (j - k)) = ZOMBIE"
proof (induction ps arbitrary: k h)
  case (Cons p ps)
  show ?case
  proof (cases "parent p = Some me \<and> pst p = ZOMBIE")
    case False
    then obtain h' where "wait_scan me (Suc k) ps = (h', Some j)" using Cons.prems by (auto split: if_splits prod.splits)
    from Cons.IH [OF this] have "Suc k \<le> j" "j - Suc k < length ps" "pst (ps ! (j - Suc k)) = ZOMBIE" by auto
    moreover from this(1) have "j - k = Suc (j - Suc k)" by simp
    ultimately show ?thesis by simp
  qed (use Cons.prems in auto)
qed simp

lemma wait_shape:
  assumes ok: "table_ok s" and run: "running i s" and w: "wait addr s = Inr (r, s')"
  obtains "kmem.more s' = kmem.more s"
  | t j where "kmem.more t = kmem.more s" "freeproc j t = Inr s'" "j < NPROC" "pst (procs s ! j) = ZOMBIE" "cur s \<noteq> Some j"
proof (cases "snd (wait_scan i 0 (procs s))")
  case None
  then show ?thesis using w running_slot [OF ok run] that(1) by (auto simp: wait_def Let_def split: prod.splits if_splits)
next
  case (Some j)
  then obtain h where scan: "wait_scan i 0 (procs s) = (h, Some j)" by (metis prod.collapse)
  have j: "j < NPROC" "pst (procs s ! j) = ZOMBIE" using wait_scan_Some [OF scan] table_okD(1) [OF ok] by auto
  have me: "myproc s = i" "cur s \<noteq> Some j" using running_slot [OF ok run] j by auto
  show ?thesis
    using w scan me that(1) that(2) [OF _ _ j me(2)]
    by (auto simp: wait_def Let_def kbind_eq_Inr split: if_splits dest!: conjunct1 [OF copyout_frame])
qed

lemma wait_keeps:
  assumes ok: "table_ok s" and run: "running i s" and w: "wait addr s = Inr (r, s')"
  shows "table_ok s'"
proof (rule wait_shape [OF ok run w])
  fix t j
  assume t: "kmem.more t = kmem.more s" "freeproc j t = Inr s'" and j: "j < NPROC" "pst (procs s ! j) = ZOMBIE" "cur s \<noteq> Some j"
  show ?thesis
    by (rule freeproc_keeps [OF table_ok_memory [OF ok t(1)] t(2) j(1)])
      (use j more_table [OF t(1)] in \<open>simp_all add: alive_def\<close>)
qed (rule table_ok_memory [OF ok])

section \<open>Steps of the table\<close>

text \<open>
  One operation of \<open>kernel/proc.c\<close> on the table: by the process on the CPU, by an interrupt handler (\<open>wakeup\<close>), or by the
  scheduler. \<open>boot\<close> is \<open>userinit\<close>; \<open>image\<close> stands for \<open>exec\<close> and for the system calls that change the process's files;
  \<open>memory\<close> for everything that leaves the table alone. \<open>abort\<close> and \<open>link\<close> are the two ends of \<open>fork\<close>. The C variable
  \<open>nextpid\<close> is an \<open>int\<close>: \<open>allocproc\<close> is defined while it does not overflow.
\<close>

inductive table_step :: "'a pstate_scheme \<Rightarrow> 'a pstate_scheme \<Rightarrow> bool" where
  boot: "initproc s = None \<Longrightarrow> cur s = None \<Longrightarrow> nextpid s < 0x7FFFFFFF \<Longrightarrow> allocproc s = Inr (Some i, t) \<Longrightarrow>
     table_step s (init_link i d (t\<lparr>initproc := Some i\<rparr>))"
| wake: "table_step s (wakeup c s)"
| kill: "table_step s (snd (kill n s))"
| sleep: "running i s \<Longrightarrow> table_step s (sleep_enter c s)"
| awake: "running i s \<Longrightarrow> table_step s (sleep_leave s)"
| yield: "running i s \<Longrightarrow> table_step s (yield s)"
| grow: "running i s \<Longrightarrow> growproc sz s = Inr (r, s') \<Longrightarrow> table_step s s'"
| image: "running i s \<Longrightarrow> pt \<noteq> 0 \<Longrightarrow>
     table_step s (upd_proc i (\<lambda>p. p\<lparr>pagetable := pt, psz := sz, pname := nm, ofile := fs, cwd := d\<rparr>) s)"
| alloc: "running i s \<Longrightarrow> nextpid s < 0x7FFFFFFF \<Longrightarrow> allocproc s = Inr (r, s') \<Longrightarrow> table_step s s'"
| abort: "running i s \<Longrightarrow> np < NPROC \<Longrightarrow> pst (procs s ! np) = USED \<Longrightarrow> freeproc np s = Inr s' \<Longrightarrow> table_step s s'"
| link: "running i s \<Longrightarrow> np < NPROC \<Longrightarrow> pst (procs s ! np) = USED \<Longrightarrow> table_step s (fork_link i np s)"
| leave: "running i s \<Longrightarrow> initproc s \<noteq> Some i \<Longrightarrow> table_step s (exit_leave i st s)"
| wait: "running i s \<Longrightarrow> wait addr s = Inr (r, s') \<Longrightarrow> table_step s s'"
| memory: "kmem.more s' = kmem.more s \<Longrightarrow> table_step s s'"
| dispatch: "cur s = None \<Longrightarrow> k < NPROC \<Longrightarrow> sched_tick k s = Some s' \<Longrightarrow> table_step s s'"
| descend: "cur s = Some i \<Longrightarrow> pst (procs s ! i) \<noteq> RUNNING \<Longrightarrow> table_step s (sched_back s)"

lemma table_ok_heads:
  assumes ok: "table_ok s" and eqs: "procs s' = procs s" "nextpid s' = nextpid s"
    and cur1: "\<And>i. i < NPROC \<Longrightarrow> pst (procs s ! i) = RUNNING \<Longrightarrow> cur s' = Some i"
    and cur2: "\<And>i. cur s' = Some i \<Longrightarrow> i < NPROC \<and> pst (procs s ! i) \<notin> {UNUSED, USED}"
    and init: "\<And>i. initproc s' = Some i \<Longrightarrow> i < NPROC \<and> alive (procs s ! i)"
  shows "table_ok s'"
  by (rule table_okI, unfold eqs)
    (rule table_okD(1) [OF ok], rule table_okD(2) [OF ok], erule table_okD(3) [OF ok], erule (3) table_okD(4) [OF ok],
     erule (1) cur1, erule cur2, erule (1) table_okD(8) [OF ok], erule init)

lemma boot_keeps:
  assumes ok: "table_ok s" and run: "allocproc s = Inr (Some i, t)" and n: "nextpid s < 0x7FFFFFFF"
  shows "table_ok (init_link i d (t\<lparr>initproc := Some i\<rparr>))"
proof -
  have t: "table_ok t" by (rule allocproc_keeps [OF ok run n])
  obtain q where q: "find_unused 0 (procs s) = Some i" "procs t = (procs s)[i := q]" "pst q = USED"
    using allocproc_shape [OF run] by auto
  have i: "i < NPROC" "procs t ! i = q" using find_unused_Some [OF q(1)] table_okD(1) [OF ok] q(2) by auto
  let ?u = "upd_proc i (\<lambda>p. p\<lparr>cwd := d, pst := RUNNABLE\<rparr>) t"
  have u: "table_ok ?u"
    by (rule table_ok_upd [OF t i(1)]; insert table_okD(3) [OF t i(1)] i(2) q(3); auto simp: proc_ok_def alive_def)
  have alive: "alive (procs ?u ! i)" using i table_okD(1) [OF t] by (simp add: upd_proc_def alive_def)
  have e: "init_link i d (t\<lparr>initproc := Some i\<rparr>) = ?u\<lparr>initproc := Some i\<rparr>"
    by (simp add: init_link_def upd_proc_def)
  show ?thesis unfolding e
  proof (rule table_ok_heads [OF u])
    fix j
    show "cur (?u\<lparr>initproc := Some i\<rparr>) = Some j" if "j < NPROC" "pst (procs ?u ! j) = RUNNING"
      using table_okD(5) [OF u that] by simp
    show "j < NPROC \<and> pst (procs ?u ! j) \<notin> {UNUSED, USED}" if "cur (?u\<lparr>initproc := Some i\<rparr>) = Some j"
      using table_okD(6,7) [OF u, of j] that by simp
  qed (use i(1) alive in simp_all)
qed

lemma sched_tick_keeps:
  assumes ok: "table_ok s" and "cur s = None" "k < NPROC" "sched_tick k s = Some s'"
  shows "table_ok s'"
proof (rule table_ok_slots [OF ok])
  have r: "pst (procs s ! k) = RUNNABLE"
    and s': "procs s' = (procs s)[k := (procs s ! k)\<lparr>pst := RUNNING\<rparr>]" "cur s' = Some k" "nextpid s' = nextpid s"
      "initproc s' = initproc s"
    using assms(4) by (auto simp: sched_tick_def upd_proc_def split: if_splits)
  note len = table_okD(1) [OF ok]
  show "length (procs s') = length (procs s)" "nextpid s' = nextpid s" "initproc s' = initproc s" using s' by simp_all
  show "cur s' = Some i \<Longrightarrow> i < NPROC \<and> pst (procs s' ! i) \<notin> {UNUSED, USED}" for i using s' assms(3) len by auto
  fix i assume "i < NPROC"
  then show "proc_ok (nextpid s) i (procs s' ! i) \<and> pid (procs s' ! i) = pid (procs s ! i) \<and>
      (alive (procs s ! i) \<longrightarrow> alive (procs s' ! i)) \<and> (pst (procs s' ! i) = RUNNING \<longrightarrow> cur s' = Some i) \<and>
      (parent (procs s' ! i) \<noteq> parent (procs s ! i) \<longrightarrow>
         (\<forall>j. parent (procs s' ! i) = Some j \<longrightarrow> j < NPROC \<and> alive (procs s ! j)))"
    using table_okD(3,5) [OF ok, of i] len s' r assms(2) by (cases "i = k") (auto simp: proc_ok_def alive_def)
qed

lemma sched_back_keeps:
  assumes ok: "table_ok s" and "cur s = Some i" "pst (procs s ! i) \<noteq> RUNNING"
  shows "table_ok (sched_back s)"
  by (rule table_ok_heads [OF ok]) (use table_okD(5,9) [OF ok] assms(2,3) in \<open>auto simp: sched_back_def\<close>)

lemma table_step_keeps: "table_step s s' \<Longrightarrow> table_ok s \<Longrightarrow> table_ok s'"
proof (induction rule: table_step.induct)
  case (abort i s np s')
  have "cur s \<noteq> Some np" using abort by (auto simp: running_def)
  then show ?case using freeproc_keeps [OF abort.prems abort.hyps(4,2)] abort.hyps(3) by (simp add: alive_def)
qed (rule boot_keeps wakeup_keeps kill_keeps sleep_enter_keeps sleep_leave_keeps yield_keeps growproc_keeps image_keeps
      allocproc_keeps fork_link_keeps exit_leave_keeps wait_keeps table_ok_memory sched_tick_keeps sched_back_keeps;
    assumption)+

section \<open>The scheduler over such steps\<close>

text \<open>
  How a step treats the slot of a process that is not running: it keeps its pid and channel, and its state only changes by
  waking or by the scheduler's choice.
\<close>

definition left_alone :: "proc \<Rightarrow> proc \<Rightarrow> bool" where
  "left_alone p q \<longleftrightarrow> pid q = pid p \<and> (pst p \<noteq> RUNNING \<longrightarrow> pchan q = pchan p \<and> (pst q = pst p \<or> pst p = SLEEPING \<and> pst q = RUNNABLE))"

lemma left_alone_refl [simp]: "left_alone p p"
  by (simp add: left_alone_def)

lemma roused_left_alone: "roused p q \<Longrightarrow> left_alone p (q\<lparr>parent := x\<rparr>)" "roused p q \<Longrightarrow> left_alone p q"
  by (auto simp: roused_def left_alone_def)

lemma upd_left_alone:
  assumes "pst (procs s ! k) = RUNNING \<and> pid (f (procs s ! k)) = pid (procs s ! k) \<or> \<not> alive (procs s ! k)" "alive (procs s ! j)"
  shows "left_alone (procs s ! j) (procs (upd_proc k f s) ! j)"
  using assms by (cases "k = j"; cases "k < length (procs s)") (auto simp: upd_proc_def left_alone_def list_update_beyond)

lemma slot_left_alone:
  assumes "procs s' = (procs s)[k := q]" "\<not> alive (procs s ! k)" "alive (procs s ! j)"
  shows "left_alone (procs s ! j) (procs s' ! j)"
  using assms by (cases "k = j") auto

lemma step_left_alone:
  assumes "table_step s s'" "table_ok s" "j < NPROC" "alive (procs s ! j)" "cur s = None \<Longrightarrow> cur s' = None"
  shows "left_alone (procs s ! j) (procs s' ! j)"
  using assms
proof (induction rule: table_step.induct)
  case (boot s i t d)
  obtain q where i: "find_unused 0 (procs s) = Some i" "procs t = (procs s)[i := q]" using allocproc_shape [OF boot.hyps(4)] by auto
  then have "\<not> alive (procs s ! i)" using find_unused_Some [OF i(1)] by (simp add: alive_def)
  then show ?case using boot.prems(3) by (intro slot_left_alone [of _ s i]) (simp_all add: init_link_def upd_proc_def i(2))
next
  case (wake s c)
  then show ?case using roused_left_alone(2) [OF wakeup_roused [of j s c]] table_okD(1) [of s] by simp
next
  case (kill s n)
  show ?case
  proof (rule kill_upd [of n s])
    fix k
    assume "kill n s = (0, upd_proc k (\<lambda>p. if pst p = SLEEPING then p\<lparr>killed := True, pst := RUNNABLE\<rparr> else p\<lparr>killed := True\<rparr>) s)"
    then show ?thesis by (cases "k = j"; cases "k < length (procs s)") (auto simp: upd_proc_def left_alone_def list_update_beyond)
  qed simp
next
  case (grow i s sz r s')
  obtain t x where t: "kmem.more t = kmem.more s" "s' = t \<or> s' = upd_proc (myproc s) (\<lambda>p. p\<lparr>psz := x\<rparr>) t"
    by (rule growproc_shape [OF grow.hyps(2)])
  note e = more_table [OF t(1)]
  have "left_alone (procs t ! j) (procs (upd_proc i (\<lambda>p. p\<lparr>psz := x\<rparr>) t) ! j)"
    by (rule upd_left_alone) (use e grow in \<open>simp_all add: running_def\<close>)
  then show ?case using t(2) e grow.hyps(1) by (auto simp: running_def myproc_def)
next
  case (alloc i s r s')
  show ?case using allocproc_shape [OF alloc.hyps(3)]
  proof (elim disjE exE conjE)
    fix k q assume k: "find_unused 0 (procs s) = Some k" "procs s' = (procs s)[k := q]"
    have "\<not> alive (procs s ! k)" using find_unused_Some [OF k(1)] by (simp add: alive_def)
    then show ?thesis "left_alone (procs s ! j) (procs s' ! j)" using slot_left_alone [OF k(2) _ alloc.prems(3)] by simp_all
  qed simp
next
  case (abort i s np s')
  then obtain q where q: "procs s' = (procs s)[np := q]"
    using freeproc_shape(1) [OF abort.hyps(4)] table_okD(1) [OF abort.prems(1)] by auto
  show ?case by (rule slot_left_alone [OF q _ abort.prems(3)]) (use abort.hyps(3) in \<open>simp add: alive_def\<close>)
next
  case (link i s np)
  have "procs (fork_link i np s) = (procs s)[np := (procs s ! np)\<lparr>parent := Some i, pst := RUNNABLE\<rparr>]"
    using link table_okD(1) [OF link.prems(1)] by (simp add: fork_link_def upd_proc_def)
  then show ?case by (rule slot_left_alone [OF _ _ link.prems(3)]) (use link in \<open>simp add: alive_def\<close>)
next
  case (leave i s st)
  note r = running_slot [OF leave.prems(1) leave.hyps(1)] table_okD(1) [OF leave.prems(1)]
  obtain q where q: "roused (procs s ! j) q" "procs (exit_leave i st s) ! j =
       (if j = i then (procs s ! i)\<lparr>xstate := st, pst := ZOMBIE\<rparr> else q)
         \<lparr>parent := (if parent (procs s ! j) = Some i then initproc s else parent (procs s ! j))\<rparr>"
    using exit_leave_shape(5) [of i s j st] r leave.prems(2) by auto
  show ?case
  proof (cases "j = i")
    case True
    then show ?thesis using q(2) r(3) by (simp add: left_alone_def)
  qed (use q roused_left_alone(1) [OF q(1)] in simp)
next
  case (wait i s addr r s')
  show ?case
  proof (rule wait_shape [OF wait.prems(1) wait.hyps])
    fix t k assume t: "kmem.more t = kmem.more s" "freeproc k t = Inr s'" "k < NPROC" "pst (procs s ! k) = ZOMBIE"
    then have "k < length (procs t)" using table_okD(1) [OF wait.prems(1)] more_table [OF t(1)] by simp
    then obtain q where "procs s' = (procs s)[k := q]" using freeproc_shape(1) [OF t(2)] more_table [OF t(1)] by auto
    then show ?thesis by (rule slot_left_alone [OF _ _ wait.prems(3)]) (use t(4) in \<open>simp add: alive_def\<close>)
  qed (use more_table in \<open>metis left_alone_refl\<close>)
next
  case (memory s' s)
  then show ?case using more_table [OF memory.hyps] by simp
next
  case (dispatch s k s')
  then show ?case by (auto simp: sched_tick_def split: if_splits)
qed (auto simp: running_def myproc_def sleep_enter_def sleep_leave_def yield_def sched_back_def intro!: upd_left_alone)

lemma runnable_stays:
  assumes "table_step s s'" "table_ok s" "j < NPROC" "pst (procs s ! j) = RUNNABLE" "cur s = None \<Longrightarrow> cur s' = None"
  shows "pst (procs s' ! j) = RUNNABLE"
  using step_left_alone [OF assms(1-3) _ assms(5)] assms(4) by (auto simp: left_alone_def alive_def)

text \<open>
  An iteration of the inner loop of \<open>scheduler\<close> with its cursor. Either the process at the cursor cannot run, or it
  does, for any number of steps, until it gives the CPU up. Interrupts may run before the next iteration.
\<close>

definition steps_at :: "nat option \<Rightarrow> 'a pstate_scheme \<Rightarrow> 'a pstate_scheme \<Rightarrow> bool" where
  "steps_at c = (\<lambda>s s'. table_step s s' \<and> cur s = c \<and> cur s' = c)\<^sup>*\<^sup>*"

inductive sched_iter :: "nat \<times> 'a pstate_scheme \<Rightarrow> nat \<times> 'a pstate_scheme \<Rightarrow> bool" where
  skip: "sched_tick k s = None \<Longrightarrow> steps_at None s s' \<Longrightarrow> sched_iter (k, s) (sched_next k, s')"
| run: "sched_tick k s = Some t \<Longrightarrow> steps_at (Some k) t u \<Longrightarrow> pst (procs u ! k) \<noteq> RUNNING \<Longrightarrow>
     steps_at None (sched_back u) s' \<Longrightarrow> sched_iter (k, s) (sched_next k, s')"

lemma steps_at_keeps:
  assumes "steps_at c s s'" "table_ok s" "cur s = c"
  shows "table_ok s' \<and> cur s' = c \<and> (\<forall>j<NPROC. pst (procs s ! j) = RUNNABLE \<longrightarrow> pst (procs s' ! j) = RUNNABLE)"
  using assms(1) [unfolded steps_at_def] assms(2,3)
proof (induction rule: rtranclp_induct)
  case (step t u)
  then show ?case using table_step_keeps [of t u] runnable_stays [of t u] by auto
qed simp

lemma sched_iter_keeps:
  assumes "sched_iter c c'" "table_ok (snd c)" "cur (snd c) = None" "fst c < NPROC"
  shows "fst c' = sched_next (fst c) \<and> table_ok (snd c') \<and> cur (snd c') = None"
    "j < NPROC \<Longrightarrow> j \<noteq> fst c \<Longrightarrow> pst (procs (snd c) ! j) = RUNNABLE \<Longrightarrow> pst (procs (snd c') ! j) = RUNNABLE"
proof -
  have *: "fst c' = sched_next (fst c) \<and> table_ok (snd c') \<and> cur (snd c') = None \<and>
    (\<forall>j<NPROC. j \<noteq> fst c \<longrightarrow> pst (procs (snd c) ! j) = RUNNABLE \<longrightarrow> pst (procs (snd c') ! j) = RUNNABLE)"
    using assms
  proof cases
    case (skip k s s')
    then show ?thesis using steps_at_keeps [of None s s'] assms(2,3) by simp
  next
    case (run k s t u s')
    have t: "table_ok t" "cur t = Some k" "\<forall>j. j \<noteq> k \<longrightarrow> procs t ! j = procs s ! j"
      using sched_tick_keeps [OF _ _ _ run(3)] run(1,3) assms(2-4) by (auto simp: sched_tick_def upd_proc_def split: if_splits)
    note u = steps_at_keeps [OF run(4) t(1,2)]
    have b: "table_ok (sched_back u)" "cur (sched_back u) = None" "procs (sched_back u) = procs u"
      using sched_back_keeps [of u k] u run(5) by (auto simp: sched_back_def)
    show ?thesis using steps_at_keeps [OF run(6) b(1,2)] b(3) u t(3) run(1,2) by auto
  qed
  show "fst c' = sched_next (fst c) \<and> table_ok (snd c') \<and> cur (snd c') = None" using * by simp
  show "j < NPROC \<Longrightarrow> j \<noteq> fst c \<Longrightarrow> pst (procs (snd c) ! j) = RUNNABLE \<Longrightarrow> pst (procs (snd c') ! j) = RUNNABLE"
    using * by simp
qed

lemma sched_reaches:
  assumes run: "\<And>n. sched_iter (f n) (f (Suc n))"
    and ok: "table_ok (snd (f n))" "cur (snd (f n)) = None" "fst (f n) < NPROC"
    and j: "j < NPROC" "pst (procs (snd (f n)) ! j) = RUNNABLE"
  shows "\<exists>m<NPROC. fst (f (n + m)) = j \<and> sched_tick j (snd (f (n + m))) \<noteq> None"
proof -
  have reach: "\<exists>m\<le>d. fst (f (n + m)) = j \<and> sched_tick j (snd (f (n + m))) \<noteq> None"
    if "d = (if fst (f n) \<le> j then j - fst (f n) else NPROC - fst (f n) + j)" for d
    using that ok j(2)
  proof (induction d arbitrary: n)
    case 0
    then have "fst (f n) = j" by (auto split: if_splits)
    then show ?case using 0 by (auto simp: sched_tick_def intro!: exI [of _ 0])
  next
    case (Suc d)
    then have ne: "fst (f n) \<noteq> j" by (auto split: if_splits)
    note k = sched_iter_keeps(1) [OF run Suc.prems(2-4)]
      sched_iter_keeps(2) [OF run Suc.prems(2-4) j(1) ne [symmetric] Suc.prems(5)]
    have "d = (if fst (f (Suc n)) \<le> j then j - fst (f (Suc n)) else NPROC - fst (f (Suc n)) + j)" "fst (f (Suc n)) < NPROC"
      using Suc.prems(1,4) k(1) ne j(1) by (auto simp: sched_next_def split: if_splits)
    then have "\<exists>m\<le>d. fst (f (Suc n + m)) = j \<and> sched_tick j (snd (f (Suc n + m))) \<noteq> None"
      using k by (intro Suc.IH) auto
    then obtain m where "m \<le> d" "fst (f (Suc n + m)) = j" "sched_tick j (snd (f (Suc n + m))) \<noteq> None" by blast
    then show ?case by (intro exI [of _ "Suc m"]) simp
  qed
  have "(if fst (f n) \<le> j then j - fst (f n) else NPROC - fst (f n) + j) < NPROC" using ok(3) j(1) by auto
  then show ?thesis using reach [OF refl] le_less_trans by blast
qed

section \<open>Theorems\<close>




text \<open>C12: A process that is RUNNABLE is chosen by scheduler within NPROC iterations of its loop, whatever the processes that run
  in between do (sleep, wake, yield, fork, exit, wait, kill, grow, exec), as long as each gives the CPU back.
\<close>

theorem scheduler_reaches_runnable:
  assumes "\<And>n. sched_iter (f n) (f (Suc n))"
    and "table_ok (snd (f n))" "cur (snd (f n)) = None" "fst (f n) < NPROC"
    and "j < NPROC" "pst (procs (snd (f n)) ! j) = RUNNABLE"
  shows "\<exists>m<NPROC. fst (f (n + m)) = j \<and> sched_tick j (snd (f (n + m))) \<noteq> None"
  by (rule sched_reaches [OF assms])

text \<open>Two processes that take turns by yielding.\<close>

definition sample_table :: pstate where
  "sample_table = (let s = procinit zero_pstate in
     s\<lparr>procs := (procs s)[0 := (procs s ! 0)\<lparr>pst := RUNNABLE, pid := 1, pagetable := 1, trapframe := 1\<rparr>,
                          3 := (procs s ! 3)\<lparr>pst := RUNNABLE, pid := 2, pagetable := 1, trapframe := 1\<rparr>],
       nextpid := 3\<rparr>)"

lemma sample_table_nth:
  "i < 32 \<Longrightarrow> procs sample_table ! i = zero_proc\<lparr>kstack := KSTACK i, pst := (if i = 0 \<or> i = 3 then RUNNABLE else UNUSED),
     pid := (if i = 0 then 1 else if i = 3 then 2 else 0), pagetable := (if i = 0 \<or> i = 3 then 1 else 0),
     trapframe := (if i = 0 \<or> i = 3 then 1 else 0)\<rparr>"
  by (simp add: sample_table_def procinit_def zero_pstate_def zero_proc_def NPROC_def nth_list_update del: replicate_Suc)

lemma sample_table_ok: "table_ok sample_table" "cur sample_table = None"
proof -
  show c: "cur sample_table = None" by (simp add: sample_table_def procinit_def zero_pstate_def)
  have sel: "length (procs sample_table) = NPROC" "nextpid sample_table = 3" "initproc sample_table = None"
    by (simp_all add: sample_table_def procinit_def zero_pstate_def NPROC_def)
  show "table_ok sample_table"
    by (rule table_okI) (auto simp: sel c sample_table_nth NPROC_def proc_ok_def zero_proc_def split: if_splits)
qed

lemma sample_table_yield:
  assumes "k < NPROC" "sched_tick k sample_table = Some t"
  shows "running k t" "yield t = sample_table\<lparr>cur := Some k\<rparr>" "pst (procs sample_table ! k) = RUNNABLE"
    "sched_back (yield t) = sample_table"
proof -
  show p: "pst (procs sample_table ! k) = RUNNABLE" using assms(2) by (auto simp: sched_tick_def split: if_splits)
  have t: "t = (upd_proc k (\<lambda>p. p\<lparr>pst := RUNNING\<rparr>) sample_table)\<lparr>cur := Some k\<rparr>"
    using assms(2) by (auto simp: sched_tick_def split: if_splits)
  have len: "length (procs sample_table) = NPROC" by (rule table_okD(1) [OF sample_table_ok(1)])
  show "running k t" using assms(1) len by (simp add: t running_def upd_proc_def)
  have "(procs sample_table ! k)\<lparr>pst := RUNNABLE\<rparr> = procs sample_table ! k"
    using p by (cases "procs sample_table ! k") simp
  then show y: "yield t = sample_table\<lparr>cur := Some k\<rparr>"
    using assms(1) len by (cases sample_table) (simp add: t yield_def myproc_def upd_proc_def)
  show "sched_back (yield t) = sample_table" using sample_table_ok(2) by (simp add: y sched_back_def)
qed

lemma sample_table_turn: "k < NPROC \<Longrightarrow> sched_iter (k, sample_table) (sched_next k, sample_table)"
proof (cases "sched_tick k sample_table")
  case None
  then show ?thesis by (intro sched_iter.skip) (simp_all add: steps_at_def)
next
  case (Some t)
  assume "k < NPROC"
  note y = sample_table_yield [OF this Some]
  have "steps_at (Some k) t (yield t)"
    unfolding steps_at_def by (rule r_into_rtranclp) (use table_step.yield [OF y(1)] y(1,2) in \<open>simp add: running_def\<close>)
  then show ?thesis using Some y(2-4) by (intro sched_iter.run [of _ _ t "yield t"]) (simp_all add: steps_at_def)
qed

theorem scheduler_reaches_runnable_witness:
  "\<exists>m<NPROC. fst ((\<lambda>n. (n mod NPROC, sample_table)) (7 + m)) = 3 \<and>
     sched_tick 3 (snd ((\<lambda>n. (n mod NPROC, sample_table)) (7 + m))) \<noteq> None"
proof (rule scheduler_reaches_runnable)
  fix n
  have "sched_next (n mod NPROC) = Suc n mod NPROC" by (auto simp: sched_next_def NPROC_def mod_Suc)
  then show "sched_iter (n mod NPROC, sample_table) (Suc n mod NPROC, sample_table)"
    using sample_table_turn [of "n mod NPROC"] by (simp add: NPROC_def)
qed (simp_all add: sample_table_ok sample_table_nth NPROC_def)

text \<open>C35: kill(0) succeeds on a well-formed table that has a free slot, although no process has pid 0: it marks the first free
  slot as killed. The next allocproc then hands out that slot without clearing the mark, so the process it creates is
  killed before it runs.
\<close>

theorem kill_zero_marks_next_process:
  assumes "table_ok s" "find_unused 0 (procs s) = Some i"
  shows "fst (kill 0 s) = 0 \<and> killed (procs (snd (kill 0 s)) ! i) \<and> pst (procs (snd (kill 0 s)) ! i) = UNUSED \<and>
    (case allocproc (snd (kill 0 s)) of
       Inr (Some k, s') \<Rightarrow> k = i \<and> killed (procs s' ! k)
     | _ \<Rightarrow> True)"
proof -
  note i = find_unused_Some [OF assms(2)] table_okD(1) [OF assms(1)]
  have pid: "pid (procs s ! j) = 0 \<longleftrightarrow> pst (procs s ! j) = UNUSED" if "j < NPROC" for j
    using table_okD(3) [OF assms(1) that] by (auto simp: proc_ok_def split: if_splits)
  have "kill 0 s = (0, upd_proc i (\<lambda>p. if pst p = SLEEPING then p\<lparr>killed := True, pst := RUNNABLE\<rparr> else p\<lparr>killed := True\<rparr>) s)"
  proof (rule kill_upd [of 0 s])
    assume "\<forall>p\<in>set (procs s). pid p \<noteq> 0"
    then show ?thesis using i pid [of i] by auto
  next
    fix j
    assume j: "j < length (procs s)" "pid (procs s ! j) = 0" "\<forall>l<j. pid (procs s ! l) \<noteq> 0"
      "kill 0 s = (0, upd_proc j (\<lambda>p. if pst p = SLEEPING then p\<lparr>killed := True, pst := RUNNABLE\<rparr> else p\<lparr>killed := True\<rparr>) s)"
    have "j = i" using i j pid by (metis diff_zero linorder_neqE_nat)
    then show ?thesis using j(4) by simp
  qed
  then have k: "fst (kill 0 s) = 0" "procs (snd (kill 0 s)) = (procs s)[i := (procs s ! i)\<lparr>killed := True\<rparr>]"
    using i by (simp_all add: upd_proc_def)
  have "k' = i \<and> killed (procs s' ! k')" if a: "allocproc (snd (kill 0 s)) = Inr (Some k', s')" for k' s'
  proof -
    have f: "find_unused 0 (procs (snd (kill 0 s))) = Some k'"
      and s': "killed (procs s' ! k') = killed (procs (snd (kill 0 s)) ! k')"
      using allocproc_shape [OF a] find_unused_Some [of 0 "procs (snd (kill 0 s))" k'] by (auto simp: emptied_def)
    have same: "pst (procs (snd (kill 0 s)) ! j) = pst (procs s ! j)" for j
      using i unfolding k(2) by (cases "j = i") simp_all
    have "k' = i" using find_unused_Some [OF f] i unfolding same by (metis diff_zero linorder_neqE_nat)
    then show ?thesis using k s' i by simp
  qed
  then show ?thesis using k i by (auto split: sum.splits prod.splits option.splits)
qed

theorem kill_zero_marks_next_process_witness:
  "fst (kill 0 sample_table) = 0 \<and> killed (procs (snd (kill 0 sample_table)) ! 1) \<and>
    pst (procs (snd (kill 0 sample_table)) ! 1) = UNUSED \<and>
    (case allocproc (snd (kill 0 sample_table)) of
       Inr (Some k, s') \<Rightarrow> k = 1 \<and> killed (procs s' ! k)
     | _ \<Rightarrow> True)"
proof (rule kill_zero_marks_next_process [OF sample_table_ok(1)])
  have "procs sample_table = procs sample_table ! 0 # procs sample_table ! 1 # drop 2 (procs sample_table)"
    by (rule nth_equalityI) (auto simp: table_okD(1) [OF sample_table_ok(1)] NPROC_def nth_Cons split: nat.splits)
  moreover have "find_unused 0 (procs sample_table ! 0 # procs sample_table ! 1 # drop 2 (procs sample_table)) = Some 1"
    by (simp add: sample_table_nth zero_proc_def)
  ultimately show "find_unused 0 (procs sample_table) = Some 1" by simp
qed

end
