(* ===== verification/SleepRuns.thy ===== *)
theory SleepRuns
  imports ProcTable Sleeplock
begin

text \<open>
  Processes that contend for one sleep-lock of \<open>kernel/sleeplock.c\<close>, interleaved with everything else the process table
  goes through. The spin-lock inside the sleep-lock makes each test of the lock, each release and each falling asleep one
  step. The theorem gives mutual exclusion, the meaning of \<open>holdingsleep\<close>, and that no wakeup is lost.
\<close>

section \<open>Runs\<close>

datatype sphase = Out | Waiting | Holding

type_synonym 'a sworld = "sleeplock \<times> (nat \<Rightarrow> sphase) \<times> 'a pstate_scheme"

text \<open>
  A process that finds the lock held sleeps on the lock's channel and, back from \<open>sleep\<close>, tests it again. Between its
  calls it does whatever the table allows (\<open>other\<close>), except that it does not exit while it waits for or holds the lock. A
  waiting process can lose the CPU to the timer and see interrupts, but makes no other step of its own.
\<close>

inductive sleep_step :: "chan \<Rightarrow> 'a sworld \<Rightarrow> 'a sworld \<Rightarrow> bool" for c where
  get: "running i s \<Longrightarrow> f i = Out \<Longrightarrow> acquiresleep c lk s = Inr lk' \<Longrightarrow> sleep_step c (lk, f, s) (lk', f(i := Holding), s)"
| block: "running i s \<Longrightarrow> f i = Out \<Longrightarrow> acquiresleep c lk s = Inl (Sleep c) \<Longrightarrow>
     sleep_step c (lk, f, s) (lk, f(i := Waiting), sleep_enter c s)"
| reget: "running i s \<Longrightarrow> f i = Waiting \<Longrightarrow> acquiresleep c lk (sleep_leave s) = Inr lk' \<Longrightarrow>
     sleep_step c (lk, f, s) (lk', f(i := Holding), sleep_leave s)"
| reblock: "running i s \<Longrightarrow> f i = Waiting \<Longrightarrow> acquiresleep c lk (sleep_leave s) = Inl (Sleep c) \<Longrightarrow>
     sleep_step c (lk, f, s) (lk, f, sleep_enter c (sleep_leave s))"
| put: "running i s \<Longrightarrow> f i = Holding \<Longrightarrow> releasesleep c lk s = (lk', s') \<Longrightarrow> sleep_step c (lk, f, s) (lk', f(i := Out), s')"
| preempt: "running i s \<Longrightarrow> sleep_step c (lk, f, s) (lk, f, yield s)"
| interrupt: "sleep_step c (lk, f, s) (lk, f, wakeup d s)"
| switch: "cur s = Some i \<Longrightarrow> pst (procs s ! i) \<noteq> RUNNING \<Longrightarrow> sleep_step c (lk, f, s) (lk, f, sched_back s)"
| choose: "cur s = None \<Longrightarrow> k < NPROC \<Longrightarrow> sched_tick k s = Some s' \<Longrightarrow> sleep_step c (lk, f, s) (lk, f, s')"
| other: "table_step s s' \<Longrightarrow> (cur s = None \<Longrightarrow> cur s' = None) \<Longrightarrow> (\<And>i. cur s = Some i \<Longrightarrow> f i \<noteq> Waiting) \<Longrightarrow>
     (\<And>i. f i \<noteq> Out \<Longrightarrow> alive (procs s' ! i)) \<Longrightarrow> sleep_step c (lk, f, s) (lk, f, s')"

definition sleep_inv :: "chan \<Rightarrow> 'a sworld \<Rightarrow> bool" where
  "sleep_inv c = (\<lambda>(lk, f, s). table_ok s \<and> (\<forall>i. f i \<noteq> Out \<longrightarrow> i < NPROC \<and> alive (procs s ! i)) \<and>
     (\<forall>i. f i = Holding \<longrightarrow> slocked lk \<and> spid lk = pid (procs s ! i)) \<and> (slocked lk \<longrightarrow> (\<exists>i. f i = Holding)) \<and>
     (\<forall>i. f i = Waiting \<and> pst (procs s ! i) = SLEEPING \<longrightarrow> pchan (procs s ! i) = Some c \<and> slocked lk))"

lemma sleep_invD:
  assumes "sleep_inv c (lk, f, s)"
  shows "table_ok s" "f i \<noteq> Out \<Longrightarrow> i < NPROC" "f i \<noteq> Out \<Longrightarrow> alive (procs s ! i)"
    "f i = Holding \<Longrightarrow> slocked lk" "f i = Holding \<Longrightarrow> spid lk = pid (procs s ! i)" "slocked lk \<Longrightarrow> \<exists>i. f i = Holding"
    "f i = Waiting \<Longrightarrow> pst (procs s ! i) = SLEEPING \<Longrightarrow> pchan (procs s ! i) = Some c"
    "f i = Waiting \<Longrightarrow> pst (procs s ! i) = SLEEPING \<Longrightarrow> slocked lk"
  using assms unfolding sleep_inv_def by blast+

lemma sleep_invI:
  assumes "table_ok s" "\<And>i. f i \<noteq> Out \<Longrightarrow> i < NPROC \<and> alive (procs s ! i)"
    "\<And>i. f i = Holding \<Longrightarrow> slocked lk \<and> spid lk = pid (procs s ! i)" "slocked lk \<Longrightarrow> \<exists>i. f i = Holding"
    "\<And>i. f i = Waiting \<Longrightarrow> pst (procs s ! i) = SLEEPING \<Longrightarrow> pchan (procs s ! i) = Some c \<and> slocked lk"
  shows "sleep_inv c (lk, f, s)"
  using assms unfolding sleep_inv_def by blast

text \<open>A step that leaves the lock alone and treats the processes in question as \<open>left_alone\<close> says keeps the invariant.\<close>

lemma sleep_inv_frame:
  assumes inv: "sleep_inv c (lk, f, s)" and ok: "table_ok s'"
    and keep: "\<And>i. f i \<noteq> Out \<Longrightarrow> alive (procs s' ! i) \<and> pid (procs s' ! i) = pid (procs s ! i)"
    and wait: "\<And>i. f i = Waiting \<Longrightarrow> pst (procs s' ! i) = SLEEPING \<Longrightarrow>
      pst (procs s ! i) = SLEEPING \<and> pchan (procs s' ! i) = pchan (procs s ! i)"
  shows "sleep_inv c (lk, f, s')"
proof (rule sleep_invI [OF ok])
  show "f i \<noteq> Out \<Longrightarrow> i < NPROC \<and> alive (procs s' ! i)" for i using sleep_invD(2) [OF inv] keep by blast
  show "f i = Holding \<Longrightarrow> slocked lk \<and> spid lk = pid (procs s' ! i)" for i
    using sleep_invD(4,5) [OF inv, of i] keep [of i] by simp
  show "slocked lk \<Longrightarrow> \<exists>i. f i = Holding" by (rule sleep_invD(6) [OF inv])
  show "f i = Waiting \<Longrightarrow> pst (procs s' ! i) = SLEEPING \<Longrightarrow> pchan (procs s' ! i) = Some c \<and> slocked lk" for i
    using wait [of i] sleep_invD(7,8) [OF inv, of i] by simp
qed

lemma own_slot:
  assumes "table_ok s" "running i s"
  shows "procs (sleep_enter c s) ! j = (if j = i then (procs s ! i)\<lparr>pchan := Some c, pst := SLEEPING\<rparr> else procs s ! j)"
    "procs (sleep_leave s) ! j = (if j = i then (procs s ! i)\<lparr>pchan := None\<rparr> else procs s ! j)"
    "procs (yield s) ! j = (if j = i then (procs s ! i)\<lparr>pst := RUNNABLE\<rparr> else procs s ! j)"
    "running i (sleep_leave s)" "cur (sleep_leave s) = cur s"
  using running_slot [OF assms] table_okD(1) [OF assms(1)] assms(2)
  by (simp_all add: sleep_enter_def sleep_leave_def yield_def upd_proc_def running_def)

lemma sleep_leave_inv:
  assumes inv: "sleep_inv c (lk, f, s)" and "running i s"
  shows "sleep_inv c (lk, f, sleep_leave s)"
  by (rule sleep_inv_frame [OF inv sleep_leave_keeps [OF sleep_invD(1) [OF inv] assms(2)]])
    (use own_slot [OF sleep_invD(1) [OF inv] assms(2)] assms(2) sleep_invD(3) [OF inv] in \<open>auto simp: running_def alive_def\<close>)

lemma acquiresleep_inv:
  assumes inv: "sleep_inv c (lk, f, s)" and i: "running i s" "f i \<noteq> Holding" and a: "acquiresleep c lk s = Inr lk'"
  shows "sleep_inv c (lk', f(i := Holding), s)"
proof (rule sleep_invI [OF sleep_invD(1) [OF inv]])
  note r = running_slot [OF sleep_invD(1) [OF inv] i(1)]
  have lk: "\<not> slocked lk" "lk' = lk\<lparr>slocked := True, spid := pid (procs s ! i)\<rparr>"
    using a r(5) by (auto simp: acquiresleep_def mypid_def split: if_splits)
  show "(f(i := Holding)) j \<noteq> Out \<Longrightarrow> j < NPROC \<and> alive (procs s ! j)" for j
    using r(1,3) sleep_invD(2,3) [OF inv, of j] by (cases "j = i") (simp_all add: alive_def)
  show "(f(i := Holding)) j = Holding \<Longrightarrow> slocked lk' \<and> spid lk' = pid (procs s ! j)" for j
    using sleep_invD(4) [OF inv, of j] lk by (cases "j = i") auto
  show "slocked lk' \<Longrightarrow> \<exists>j. (f(i := Holding)) j = Holding" by auto
  show "(f(i := Holding)) j = Waiting \<Longrightarrow> pst (procs s ! j) = SLEEPING \<Longrightarrow> pchan (procs s ! j) = Some c \<and> slocked lk'" for j
    using sleep_invD(7) [OF inv, of j] lk(2) by (cases "j = i") simp_all
qed

lemma sleep_enter_inv:
  assumes inv: "sleep_inv c (lk, f, s)" and i: "running i s" "f i \<noteq> Holding" and a: "acquiresleep c lk s = Inl (Sleep c)"
  shows "sleep_inv c (lk, f(i := Waiting), sleep_enter c s)"
proof (rule sleep_invI [OF sleep_enter_keeps [OF sleep_invD(1) [OF inv] i(1)]])
  note r = running_slot [OF sleep_invD(1) [OF inv] i(1)]
  note nth = own_slot(1) [OF sleep_invD(1) [OF inv] i(1)]
  have lk: "slocked lk" using a by (auto simp: acquiresleep_def split: if_splits)
  show "(f(i := Waiting)) j \<noteq> Out \<Longrightarrow> j < NPROC \<and> alive (procs (sleep_enter c s) ! j)" for j
    using r(1) sleep_invD(2,3) [OF inv, of j] by (cases "j = i") (simp_all add: alive_def nth)
  show "(f(i := Waiting)) j = Holding \<Longrightarrow> slocked lk \<and> spid lk = pid (procs (sleep_enter c s) ! j)" for j
    using sleep_invD(4,5) [OF inv, of j] by (cases "j = i") (simp_all add: nth)
  show "slocked lk \<Longrightarrow> \<exists>j. (f(i := Waiting)) j = Holding" using sleep_invD(6) [OF inv] i(2) by auto
  show "(f(i := Waiting)) j = Waiting \<Longrightarrow> pst (procs (sleep_enter c s) ! j) = SLEEPING \<Longrightarrow>
      pchan (procs (sleep_enter c s) ! j) = Some c \<and> slocked lk" for j
    using sleep_invD(7) [OF inv, of j] lk by (cases "j = i") (simp_all add: nth)
qed

lemma only_holder:
  assumes inv: "sleep_inv c (lk, f, s)" and "f i = Holding" "f j = Holding"
  shows "i = j"
proof (rule ccontr)
  assume ne: "i \<noteq> j"
  note i = sleep_invD(2,3,5) [OF inv, of i] and j = sleep_invD(2,3,5) [OF inv, of j]
  have "pid (procs s ! i) = 0"
    using table_okD(4) [OF sleep_invD(1) [OF inv] _ _ ne] i j assms(2,3) by simp
  then show False using table_okD(3) [OF sleep_invD(1) [OF inv], of i] i assms(2) by (auto simp: proc_ok_def alive_def split: if_splits)
qed

lemma releasesleep_inv:
  assumes inv: "sleep_inv c (lk, f, s)" and i: "running i s" "f i = Holding" and r: "releasesleep c lk s = (lk', s')"
  shows "sleep_inv c (lk', f(i := Out), s')"
proof (rule sleep_invI)
  have s': "s' = wakeup (Some c) s" and lk': "\<not> slocked lk'" using r by (auto simp: releasesleep_def)
  note ok = sleep_invD(1) [OF inv]
  show "table_ok s'" unfolding s' by (rule wakeup_keeps [OF ok])
  have rouse: "roused (procs s ! j) (procs s' ! j)" if "j < NPROC" for j
    unfolding s' using wakeup_roused [of j s] that table_okD(1) [OF ok] by simp
  show "(f(i := Out)) j \<noteq> Out \<Longrightarrow> j < NPROC \<and> alive (procs s' ! j)" for j
    using sleep_invD(2,3) [OF inv, of j] rousedD(3) [OF rouse, of j] by (auto split: if_splits)
  show "(f(i := Out)) j = Holding \<Longrightarrow> slocked lk' \<and> spid lk' = pid (procs s' ! j)" for j
    using only_holder [OF inv i(2), of j] by (auto split: if_splits)
  show "slocked lk' \<Longrightarrow> \<exists>j. (f(i := Out)) j = Holding" using lk' by simp
  show "pchan (procs s' ! j) = Some c \<and> slocked lk'" if "(f(i := Out)) j = Waiting" "pst (procs s' ! j) = SLEEPING" for j
  proof -
    have j: "j \<noteq> i" "f j = Waiting" "j < NPROC" using that(1) sleep_invD(2) [OF inv, of j] by (auto split: if_splits)
    have w: "procs s' ! j = wakeup1 (Some c) (procs s ! j)"
      using j i(1) table_okD(1) [OF ok] by (simp add: s' wakeup_nth running_def)
    then have "pst (procs s ! j) = SLEEPING" using that(2) by (auto simp: wakeup1_def split: if_splits)
    then show ?thesis using sleep_invD(7) [OF inv j(2)] w that(2) by (simp add: wakeup1_def)
  qed
qed

lemma sleep_inv_step: "sleep_step c w w' \<Longrightarrow> sleep_inv c w \<Longrightarrow> sleep_inv c w'"
proof (induction rule: sleep_step.induct)
  case (get i s f lk lk')
  then show ?case by (intro acquiresleep_inv) auto
next
  case (block i s f lk)
  then show ?case by (intro sleep_enter_inv) auto
next
  case (reget i s f lk lk')
  note l = sleep_leave_inv [OF reget.prems reget.hyps(1)] own_slot(4) [OF sleep_invD(1) [OF reget.prems] reget.hyps(1)]
  show ?case by (rule acquiresleep_inv [OF l _ reget.hyps(3)]) (simp add: reget.hyps(2))
next
  case (reblock i s f lk)
  note l = sleep_leave_inv [OF reblock.prems reblock.hyps(1)] own_slot(4) [OF sleep_invD(1) [OF reblock.prems] reblock.hyps(1)]
  have "f(i := Waiting) = f" using reblock.hyps(2) by auto
  then show ?case using sleep_enter_inv [OF l _ reblock.hyps(3)] reblock.hyps(2) by simp
next
  case (put i s f lk lk' s')
  show ?case by (rule releasesleep_inv [OF put.prems put.hyps])
next
  case (preempt i s lk f)
  note ok = sleep_invD(1) [OF preempt.prems]
  show ?case
    by (rule sleep_inv_frame [OF preempt.prems yield_keeps [OF ok preempt.hyps]])
      (use own_slot(3) [OF ok preempt.hyps] sleep_invD(3) [OF preempt.prems] in \<open>auto simp: alive_def split: if_splits\<close>)
next
  case (interrupt lk f s d)
  note ok = sleep_invD(1) [OF interrupt.prems]
  have r: "roused (procs s ! j) (procs (wakeup d s) ! j)" if "f j \<noteq> Out" for j
    using wakeup_roused [of j s d] sleep_invD(2) [OF interrupt.prems that] table_okD(1) [OF ok] by simp
  show ?case
  proof (rule sleep_inv_frame [OF interrupt.prems wakeup_keeps [OF ok]])
    fix j
    show "alive (procs (wakeup d s) ! j) \<and> pid (procs (wakeup d s) ! j) = pid (procs s ! j)" if "f j \<noteq> Out"
      using rousedD(1,3) [OF r [OF that]] sleep_invD(3) [OF interrupt.prems that] by simp
    show "pst (procs s ! j) = SLEEPING \<and> pchan (procs (wakeup d s) ! j) = pchan (procs s ! j)"
      if "f j = Waiting" "pst (procs (wakeup d s) ! j) = SLEEPING"
      using r [of j] that by (auto simp: roused_def)
  qed
next
  case (switch s i lk f)
  show ?case
    by (rule sleep_inv_frame [OF switch.prems sched_back_keeps [OF sleep_invD(1) [OF switch.prems] switch.hyps]])
      (use sleep_invD(3) [OF switch.prems] in \<open>auto simp: sched_back_def\<close>)
next
  case (choose s k s' lk f)
  note ok = sleep_invD(1) [OF choose.prems]
  have nth: "procs s' ! j = (if j = k then (procs s ! k)\<lparr>pst := RUNNING\<rparr> else procs s ! j)" for j
    using choose.hyps(2,3) table_okD(1) [OF ok] by (auto simp: sched_tick_def upd_proc_def split: if_splits)
  show ?case
    by (rule sleep_inv_frame [OF choose.prems sched_tick_keeps [OF ok choose.hyps]])
      (use sleep_invD(3) [OF choose.prems] in \<open>simp_all add: nth alive_def split: if_splits\<close>)
next
  case (other s s' f lk)
  note ok = sleep_invD(1) [OF other.prems]
  have l: "left_alone (procs s ! j) (procs s' ! j)" if "f j \<noteq> Out" for j
    by (rule step_left_alone [OF other.hyps(1) ok sleep_invD(2,3) [OF other.prems that] other.hyps(2)])
  show ?case
  proof (rule sleep_inv_frame [OF other.prems table_step_keeps [OF other.hyps(1) ok]])
    fix j
    show "alive (procs s' ! j) \<and> pid (procs s' ! j) = pid (procs s ! j)" if "f j \<noteq> Out"
      using other.hyps(4) [OF that] l [OF that] by (simp add: left_alone_def)
    show "pst (procs s ! j) = SLEEPING \<and> pchan (procs s' ! j) = pchan (procs s ! j)" if "f j = Waiting" "pst (procs s' ! j) = SLEEPING"
    proof -
      have "j < NPROC" using sleep_invD(2) [OF other.prems, of j] that(1) by simp
      then have "pst (procs s ! j) \<noteq> RUNNING" using table_okD(5) [OF ok, of j] other.hyps(3) [of j] that(1) by auto
      then show ?thesis using l [of j] that by (auto simp: left_alone_def)
    qed
  qed
qed

section \<open>Theorem\<close>

text \<open>C11: However processes that contend for a sleep-lock are interleaved with each other, with the rest of the kernel and
  with interrupts: at most one of them is past acquiresleep; holdingsleep is true exactly in the process that is; and no
  wakeup is lost, that is, when the lock is free no process is asleep in acquiresleep.
\<close>

theorem sleeplock_exclusive_no_lost_wakeup:
  assumes "(sleep_step c)\<^sup>*\<^sup>* (initsleeplock nm, \<lambda>_. Out, s0) (lk, f, s)" "table_ok s0"
  shows "(\<forall>i j. f i = Holding \<and> f j = Holding \<longrightarrow> i = j) \<and>
    (\<forall>i. cur s = Some i \<longrightarrow> (holdingsleep lk s \<longleftrightarrow> f i = Holding)) \<and>
    (\<forall>i. \<not> slocked lk \<and> f i = Waiting \<longrightarrow> pst (procs s ! i) = RUNNABLE \<or> pst (procs s ! i) = RUNNING)"
proof -
  have "sleep_inv c (initsleeplock nm, \<lambda>_. Out, s0)" using assms(2) by (simp add: sleep_inv_def initsleeplock_def)
  with assms(1) have inv: "sleep_inv c (lk, f, s)"
    by (induction rule: rtranclp_induct) (auto intro: sleep_inv_step)
  note ok = sleep_invD(1) [OF inv]
  have "holdingsleep lk s \<longleftrightarrow> f i = Holding" if i: "cur s = Some i" for i
  proof
    assume h: "holdingsleep lk s"
    then obtain j where j: "f j = Holding" using sleep_invD(6) [OF inv] by (auto simp: holdingsleep_def)
    have p: "pid (procs s ! i) = pid (procs s ! j)" using h sleep_invD(5) [OF inv j] i by (simp add: holdingsleep_def mypid_def myproc_def)
    have "pid (procs s ! i) \<noteq> 0"
      using table_okD(3,7) [OF ok, of i] table_okD(6) [OF ok i] i by (auto simp: proc_ok_def split: if_splits)
    then have "i = j" using table_okD(4) [OF ok table_okD(6) [OF ok i] _ _ p] sleep_invD(2) [OF inv, of j] j by auto
    then show "f i = Holding" using j by simp
  next
    assume "f i = Holding"
    then show "holdingsleep lk s" using sleep_invD(4,5) [OF inv, of i] i by (simp add: holdingsleep_def mypid_def myproc_def)
  qed
  moreover have "pst (procs s ! i) = RUNNABLE \<or> pst (procs s ! i) = RUNNING" if "\<not> slocked lk" "f i = Waiting" for i
    using sleep_invD(3,8) [OF inv, of i] that by (auto simp: alive_def)
  ultimately show ?thesis using only_holder [OF inv] by blast
qed

text \<open>One process takes the lock and yields; another one finds it held and goes to sleep.\<close>

lemma sleep_run_sample:
  obtains lk f s where
    "(sleep_step (Ch_proc 9))\<^sup>*\<^sup>* (initsleeplock ''buffer'', \<lambda>_. Out, sample_table) (lk, f, s)" "f 0 = Holding" "f 3 = Waiting"
    "slocked lk" "cur s = Some 3"
proof -
  let ?c = "Ch_proc 9"
  obtain t u where t: "sched_tick 0 sample_table = Some t" and u: "sched_tick 3 sample_table = Some u"
    by (simp add: sched_tick_def sample_table_nth)
  have n: "0 < NPROC" "3 < NPROC" by (simp_all add: NPROC_def)
  note yt = sample_table_yield [OF n(1) t] and yu = sample_table_yield [OF n(2) u]
  define lk where "lk = (initsleeplock ''buffer'')\<lparr>slocked := True, spid := mypid t\<rparr>"
  let ?f = "(\<lambda>_. Out)(0 := Holding)"
  have "sleep_step ?c (initsleeplock ''buffer'', \<lambda>_. Out, sample_table) (initsleeplock ''buffer'', \<lambda>_. Out, t)"
    by (rule sleep_step.choose [OF sample_table_ok(2) n(1) t])
  moreover have "sleep_step ?c (initsleeplock ''buffer'', \<lambda>_. Out, t) (lk, ?f, t)"
    by (rule sleep_step.get [OF yt(1)]) (simp_all add: acquiresleep_def initsleeplock_def lk_def)
  moreover have "sleep_step ?c (lk, ?f, t) (lk, ?f, yield t)" by (rule sleep_step.preempt [OF yt(1)])
  moreover have "sleep_step ?c (lk, ?f, yield t) (lk, ?f, sched_back (yield t))"
    by (rule sleep_step.switch [of _ 0]) (use yt in simp_all)
  moreover have "sleep_step ?c (lk, ?f, sched_back (yield t)) (lk, ?f, u)"
    unfolding yt(4) by (rule sleep_step.choose [OF sample_table_ok(2) n(2) u])
  moreover have "sleep_step ?c (lk, ?f, u) (lk, ?f(3 := Waiting), sleep_enter ?c u)"
    by (rule sleep_step.block [OF yu(1)]) (simp_all add: acquiresleep_def lk_def)
  ultimately have "(sleep_step ?c)\<^sup>*\<^sup>* (initsleeplock ''buffer'', \<lambda>_. Out, sample_table) (lk, ?f(3 := Waiting), sleep_enter ?c u)"
    by (meson rtranclp.rtrancl_into_rtrancl rtranclp.rtrancl_refl)
  then show thesis
    by (rule that) (use yu(1) in \<open>simp_all add: lk_def sleep_enter_def running_def\<close>)
qed

theorem sleeplock_exclusive_no_lost_wakeup_witness:
  "\<exists>lk f s. (sleep_step (Ch_proc 9))\<^sup>*\<^sup>* (initsleeplock ''buffer'', \<lambda>_. Out, sample_table) (lk, f, s) \<and>
     f 0 = Holding \<and> f 3 = Waiting \<and> (\<forall>j. f j = Holding \<longrightarrow> j = 0) \<and> \<not> holdingsleep lk s"
proof -
  obtain lk f s where run: "(sleep_step (Ch_proc 9))\<^sup>*\<^sup>* (initsleeplock ''buffer'', \<lambda>_. Out, sample_table) (lk, f, s)"
    and f: "f 0 = Holding" "f 3 = Waiting" "cur s = Some 3"
    by (rule sleep_run_sample)
  have "(\<forall>j. f j = Holding \<longrightarrow> j = 0) \<and> \<not> holdingsleep lk s"
    using sleeplock_exclusive_no_lost_wakeup [OF run sample_table_ok(1)] f by auto
  then show ?thesis using run f by blast
qed

end
