(* ===== verification/Spec2Isabelle.thy ===== *)
theory Spec2Isabelle
  imports Prelude Memory KString Kalloc Vm VmSafety VmCopy Spinlock Trap LogCrash LogReserve FsDir SleepRuns
begin

text \<open>
  A verification library for the LoongArch port of the xv6 kernel (directory \<open>src/\<close>).

  The kernel is modelled by explicit state passing. Every operation takes the part of
  the kernel state it uses as a record and returns the updated record, and an operation
  that may panic returns \<open>stop + result\<close>.
\<close>

end
